(* ===== verification/Trace_Prelude.thy ===== *)
theory Trace_Prelude
  imports Main "HOL-Library.Word" "HOL-Library.Multiset"
begin

text \<open>
  What the component theories share: the machine integer types, the result types that carry
  Rust's early returns and panics, three-valued comparison, slices, and the generic lemmas on
  lists that carry the component proofs.
\<close>

unbundle bit_operations_syntax

section \<open>Machine integers\<close>

type_synonym u8 = "8 word"
type_synonym u16 = "16 word"
type_synonym u32 = "32 word"
type_synonym u64 = "64 word"
type_synonym u128 = "128 word"
type_synonym byte = "8 word"

text \<open>Facts about the byte codec, the result monads and comparisons, for \<open>simp add:\<close>.\<close>

named_theorems codec_simps
named_theorems result_simps
named_theorems order_simps

lemma unat_bound: "unat (w :: 'a::len word) < 2 ^ LENGTH('a)"
  by (rule unsigned_less)

text \<open>Rust's \<open>saturating_sub\<close> and \<open>checked_add\<close> on an unsigned type of any width.\<close>

definition saturating_sub :: "'a::len word \<Rightarrow> 'a word \<Rightarrow> 'a word" where
  "saturating_sub a b = (if a < b then 0 else a - b)"

definition checked_add :: "'a::len word \<Rightarrow> 'a word \<Rightarrow> 'a word option" where
  "checked_add a b = (if unat a + unat b < 2 ^ LENGTH('a) then Some (a + b) else None)"

lemma saturating_sub_self [simp]: "saturating_sub a a = 0"
  by (simp add: saturating_sub_def)

lemma unat_saturating_sub: "unat (saturating_sub a b) = unat a - unat b"
  by (auto simp: saturating_sub_def word_less_nat_alt unat_sub word_le_nat_alt not_less)

lemma saturating_sub_mono: "a \<le> b \<Longrightarrow> saturating_sub a c \<le> saturating_sub b c"
  by (simp add: word_le_nat_alt unat_saturating_sub diff_le_mono)

lemma checked_add_Some:
  "checked_add a b = Some c \<longleftrightarrow> unat a + unat b < 2 ^ LENGTH('a) \<and> c = a + b"
  for a b c :: "'a::len word"
  by (auto simp: checked_add_def)

lemma unat_checked_add:
  "checked_add a b = Some c \<Longrightarrow> unat c = unat a + unat b"
  for a b c :: "'a::len word"
  by (auto simp: checked_add_Some unat_word_ariths)

section \<open>Results\<close>

text \<open>
  A fallible operation returns \<open>'e + 'a\<close>, \<open>Inl\<close> for Rust's \<open>Err\<close>.
  \<open>try_bind\<close> is the operator \<open>?\<close>: it stops at the first error.
\<close>

fun try_bind :: "'e + 'a \<Rightarrow> ('a \<Rightarrow> 'e + 'b) \<Rightarrow> 'e + 'b" where
  "try_bind (Inl e) f = Inl e"
| "try_bind (Inr x) f = f x"

lemma try_bind_Inr [result_simps]:
  "try_bind m f = Inr y \<longleftrightarrow> (\<exists>x. m = Inr x \<and> f x = Inr y)"
  by (cases m) auto

lemma try_bind_Inl [result_simps]:
  "try_bind m f = Inl e \<longleftrightarrow> m = Inl e \<or> (\<exists>x. m = Inr x \<and> f x = Inl e)"
  by (cases m) auto

text \<open>An operation that may panic (an index or slice out of range) returns \<open>'a outcome\<close>.\<close>

datatype 'a outcome = Panic | Ret 'a

fun out_bind :: "'a outcome \<Rightarrow> ('a \<Rightarrow> 'b outcome) \<Rightarrow> 'b outcome" where
  "out_bind Panic f = Panic"
| "out_bind (Ret x) f = f x"

lemma out_bind_Ret [result_simps]:
  "out_bind m f = Ret y \<longleftrightarrow> (\<exists>x. m = Ret x \<and> f x = Ret y)"
  by (cases m) auto

lemma out_bind_Panic [result_simps]:
  "out_bind m f = Panic \<longleftrightarrow> m = Panic \<or> (\<exists>x. m = Ret x \<and> f x = Panic)"
  by (cases m) auto

section \<open>Three-valued comparison\<close>

text \<open>Rust's \<open>std::cmp::Ordering\<close>, \<open>Ord::cmp\<close> on a linear order, \<open>then_with\<close>.\<close>

datatype ordering = Less | Equal | Greater

definition ord_cmp :: "'a::linorder \<Rightarrow> 'a \<Rightarrow> ordering" where
  "ord_cmp a b = (if a < b then Less else if a = b then Equal else Greater)"

fun then_with :: "ordering \<Rightarrow> ordering \<Rightarrow> ordering" where
  "then_with Equal o2 = o2"
| "then_with o1 o2 = o1"

fun reverse_ordering :: "ordering \<Rightarrow> ordering" where
  "reverse_ordering Less = Greater"
| "reverse_ordering Equal = Equal"
| "reverse_ordering Greater = Less"

lemma reverse_reverse [simp]: "reverse_ordering (reverse_ordering x) = x"
  by (cases x) auto

lemma ord_cmp_flip: "ord_cmp b a = reverse_ordering (ord_cmp a b)"
  by (auto simp: ord_cmp_def)

lemma then_with_flip:
  "reverse_ordering (then_with x y) = then_with (reverse_ordering x) (reverse_ordering y)"
  by (cases x) auto

lemma ord_cmp_self [simp]: "ord_cmp a a = Equal"
  by (simp add: ord_cmp_def)

lemma then_with_decided: "x \<noteq> Equal \<Longrightarrow> then_with x y = x"
  by (cases x) auto

lemma ord_cmp_eqs [simp]:
  "ord_cmp a b = Less \<longleftrightarrow> a < b" "ord_cmp a b = Equal \<longleftrightarrow> a = b"
  "ord_cmp a b = Greater \<longleftrightarrow> b < a"
  by (auto simp: ord_cmp_def)

lemma then_with_eqs [order_simps]:
  "then_with x y = Less \<longleftrightarrow> x = Less \<or> x = Equal \<and> y = Less"
  "then_with x y = Equal \<longleftrightarrow> x = Equal \<and> y = Equal"
  "then_with x y = Greater \<longleftrightarrow> x = Greater \<or> x = Equal \<and> y = Greater"
  by (cases x; simp)+

section \<open>Slices\<close>

text \<open>
  \<open>&xs[i..j]\<close>. \<open>slice\<close> is its value in range; \<open>slice_at\<close> is the Rust expression, which
  panics when \<open>i > j\<close> or \<open>j > len\<close>.
\<close>

definition slice :: "'a list \<Rightarrow> nat \<Rightarrow> nat \<Rightarrow> 'a list" where
  "slice xs i j = take (j - i) (drop i xs)"

definition slice_at :: "'a list \<Rightarrow> nat \<Rightarrow> nat \<Rightarrow> 'a list outcome" where
  "slice_at xs i j = (if i \<le> j \<and> j \<le> length xs then Ret (slice xs i j) else Panic)"

definition index_at :: "'a list \<Rightarrow> nat \<Rightarrow> 'a outcome" where
  "index_at xs i = (if i < length xs then Ret (xs ! i) else Panic)"

lemma length_slice [simp]: "length (slice xs i j) = min (j - i) (length xs - i)"
  by (simp add: slice_def)

lemma slice_full [simp]: "slice xs 0 (length xs) = xs"
  by (simp add: slice_def)

lemma slice_append_left: "j \<le> length xs \<Longrightarrow> slice (xs @ ys) i j = slice xs i j"
  by (simp add: slice_def)

lemma slice_append_right:
  "length xs \<le> i \<Longrightarrow> slice (xs @ ys) i j = slice ys (i - length xs) (j - length xs)"
  by (simp add: slice_def)

lemma slice_0 [simp]: "slice xs 0 n = take n xs"
  by (simp add: slice_def)

lemma slice_to_end: "length xs \<le> j \<Longrightarrow> slice xs i j = drop i xs"
  by (simp add: slice_def)

lemma slice_at_Ret [result_simps]:
  "slice_at xs i j = Ret ys \<longleftrightarrow> i \<le> j \<and> j \<le> length xs \<and> ys = slice xs i j"
  by (auto simp: slice_at_def)

lemma index_at_Ret [result_simps]: "index_at xs i = Ret x \<longleftrightarrow> i < length xs \<and> x = xs ! i"
  by (auto simp: index_at_def)

section \<open>Lists\<close>

lemma take_add_append: "take (m + n) xs = take m xs @ take n (drop m xs)"
  by (rule take_add)

lemma concat_map_filter_len:
  "(\<Sum>x\<leftarrow>xs. length (f x)) = length (concat (map f xs))"
  by (simp add: length_concat comp_def)

end
