(* ===== verification/Byte_Codec.thy ===== *)
theory Byte_Codec
  imports Trace_Prelude
begin

text \<open>
  Little-endian byte codecs. \<open>to_le\<close> and \<open>from_le\<close> are the standard library's
  \<open>to_le_bytes\<close> and \<open>from_le_bytes\<close>. The crate \<open>binrw\<close> reads the record structs; it is
  third-party code, so its primitive readers are a parameter (the record \<open>binrw\<close>) of every
  definition that parses, and \<open>binrw_le\<close> states what its documentation promises of them.
\<close>

section \<open>Little-endian integers\<close>

primrec to_le :: "nat \<Rightarrow> 'a::len word \<Rightarrow> byte list" where
  "to_le 0 w = []"
| "to_le (Suc n) w = ucast w # to_le n (drop_bit 8 w)"

primrec from_le :: "byte list \<Rightarrow> 'a::len word" where
  "from_le [] = 0"
| "from_le (b # bs) = ucast b OR push_bit 8 (from_le bs)"

lemma length_to_le [simp]: "length (to_le n w) = n"
  by (induction n arbitrary: w) auto

lemma nth_to_le: "k < n \<Longrightarrow> to_le n w ! k = ucast (drop_bit (8 * k) w)"
proof (induction n arbitrary: w k)
  case (Suc n)
  then show ?case
    by (cases k) (auto simp: drop_bit_drop_bit add.commute)
qed simp

lemma bit_from_le:
  "bit (from_le bs :: 'a::len word) i \<longleftrightarrow>
     i < LENGTH('a) \<and> i div 8 < length bs \<and> bit (bs ! (i div 8)) (i mod 8)"
proof (induction bs arbitrary: i)
  case (Cons b bs)
  show ?case
  proof (cases "i < 8")
    case True
    then show ?thesis
      by (auto simp: bit_or_iff bit_push_bit_iff bit_ucast_iff dest: bit_imp_le_length)
  next
    case False
    have nb: "\<not> bit b i"
      using False by (auto dest: bit_imp_le_length)
    have "i div 8 = Suc ((i - 8) div 8)" "i mod 8 = (i - 8) mod 8"
      using False by (auto simp: le_div_geq le_mod_geq)
    with False nb show ?thesis
      by (auto simp: bit_or_iff bit_push_bit_iff bit_ucast_iff Cons.IH)
  qed
qed simp

lemma from_le_to_le [simp]:
  "LENGTH('a) = 8 * n \<Longrightarrow> from_le (to_le n w) = (w :: 'a::len word)"
  by (rule bit_word_eqI)
    (auto simp: bit_from_le nth_to_le bit_ucast_iff bit_drop_bit_eq
      less_mult_imp_div_less mult.commute)

lemma to_le_from_le [simp]:
  assumes "LENGTH('a) = 8 * n" and "length bs = n"
  shows "to_le n (from_le bs :: 'a::len word) = bs"
proof (rule nth_equalityI)
  fix k assume "k < length (to_le n (from_le bs :: 'a word))"
  then have k: "k < n" by simp
  show "to_le n (from_le bs :: 'a word) ! k = bs ! k"
  proof (rule bit_word_eqI)
    fix i assume "i < LENGTH(8)"
    then have i: "i < 8" by simp
    have "8 * k + i < LENGTH('a)" using assms k i by auto
    then show "bit (to_le n (from_le bs :: 'a word) ! k) i = bit (bs ! k) i"
      using assms k i
      by (simp add: nth_to_le bit_ucast_iff bit_drop_bit_eq bit_from_le)
  qed
qed (use assms in simp)

text \<open>The four widths of the trace format, as rules for the simplifier.\<close>

lemma from_le_to_le_widths [codec_simps]:
  "from_le (to_le 1 a) = (a :: u8)" "from_le (to_le 2 b) = (b :: u16)"
  "from_le (to_le 4 c) = (c :: u32)" "from_le (to_le 8 d) = (d :: u64)"
  by simp_all

section \<open>Readers over a cursor\<close>

text \<open>
  A reader takes the bytes after the cursor and returns a value and the bytes left.
  \<open>rd_bind\<close> runs one reader after another, as the fields of a struct are read.
\<close>

type_synonym ('e, 'a) rd = "byte list \<Rightarrow> 'e + ('a \<times> byte list)"

definition rd_return :: "'a \<Rightarrow> ('e, 'a) rd" where
  "rd_return x bs = Inr (x, bs)"

definition rd_bind :: "('e, 'a) rd \<Rightarrow> ('a \<Rightarrow> ('e, 'b) rd) \<Rightarrow> ('e, 'b) rd" where
  "rd_bind p f bs = try_bind (p bs) (\<lambda>(x, rest). f x rest)"

text \<open>Elements read one after the other: an array \<open>[T; n]\<close>, or a \<open>Vec\<close> with \<open>count = n\<close>.\<close>

primrec rd_count :: "nat \<Rightarrow> ('e, 'a) rd \<Rightarrow> ('e, 'a list) rd" where
  "rd_count 0 p = rd_return []"
| "rd_count (Suc n) p = rd_bind p (\<lambda>x. rd_bind (rd_count n p) (\<lambda>xs. rd_return (x # xs)))"

section \<open>The binrw primitives\<close>

text \<open>The readers of the crate's unsigned integers, in little-endian order.\<close>

record 'e binrw =
  br_u8 :: "('e, u8) rd"
  br_u16 :: "('e, u16) rd"
  br_u32 :: "('e, u32) rd"
  br_u64 :: "('e, u64) rd"

text \<open>
  Documented behaviour: where enough bytes are left, a primitive reads exactly its width in
  little-endian order and advances the cursor past it. Nothing is said of a short input.
\<close>

definition reads_le :: "nat \<Rightarrow> ('e, 'a::len word) rd \<Rightarrow> bool" where
  "reads_le n p \<longleftrightarrow> (\<forall>bs. n \<le> length bs \<longrightarrow> p bs = Inr (from_le (take n bs), drop n bs))"

definition binrw_le :: "'e binrw \<Rightarrow> bool" where
  "binrw_le br \<longleftrightarrow> reads_le 1 (br_u8 br) \<and> reads_le 2 (br_u16 br)
     \<and> reads_le 4 (br_u32 br) \<and> reads_le 8 (br_u64 br)"

lemma reads_leD: "reads_le n p \<Longrightarrow> n \<le> length bs \<Longrightarrow> p bs = Inr (from_le (take n bs), drop n bs)"
  by (simp add: reads_le_def)

lemma binrw_leD:
  assumes "binrw_le br"
  shows "1 \<le> length bs \<Longrightarrow> br_u8 br bs = Inr (from_le (take 1 bs), drop 1 bs)"
    and "2 \<le> length bs \<Longrightarrow> br_u16 br bs = Inr (from_le (take 2 bs), drop 2 bs)"
    and "4 \<le> length bs \<Longrightarrow> br_u32 br bs = Inr (from_le (take 4 bs), drop 4 bs)"
    and "8 \<le> length bs \<Longrightarrow> br_u64 br bs = Inr (from_le (take 8 bs), drop 8 bs)"
  using assms by (auto simp: binrw_le_def dest: reads_leD)

text \<open>
  A reader that takes \<open>n\<close> bytes and decodes them with \<open>f\<close>: the shape every struct reader has.
  The composition rules give the offsets of a struct's fields.
\<close>

definition reads :: "nat \<Rightarrow> (byte list \<Rightarrow> 'a) \<Rightarrow> ('e, 'a) rd \<Rightarrow> bool" where
  "reads n f p \<longleftrightarrow> (\<forall>bs. n \<le> length bs \<longrightarrow> p bs = Inr (f (take n bs), drop n bs))"

lemma readsD: "reads n f p \<Longrightarrow> n \<le> length bs \<Longrightarrow> p bs = Inr (f (take n bs), drop n bs)"
  by (simp add: reads_def)

lemma reads_return: "reads 0 (\<lambda>_. x) (rd_return x)"
  by (simp add: reads_def rd_return_def)

lemma reads_bind:
  assumes "reads m f p" and "\<And>x. reads n (g x) (q x)"
  shows "reads (m + n) (\<lambda>bs. g (f (take m bs)) (drop m bs)) (rd_bind p q)"
proof -
  have "rd_bind p q bs = Inr (g (f (take m (take (m + n) bs))) (drop m (take (m + n) bs)), drop (m + n) bs)"
    if "m + n \<le> length bs" for bs
    using readsD [OF assms(1), of bs] readsD [OF assms(2), of "drop m bs"] that
    by (simp add: rd_bind_def drop_take add.commute)
  then show ?thesis by (simp add: reads_def)
qed

fun chunks :: "nat \<Rightarrow> nat \<Rightarrow> byte list \<Rightarrow> byte list list" where
  "chunks w 0 bs = []"
| "chunks w (Suc n) bs = take w bs # chunks w n (drop w bs)"

lemma length_chunks [simp]: "length (chunks w n bs) = n"
  by (induction n arbitrary: bs) auto

lemma chunks_concat:
  "(\<And>x. x \<in> set xs \<Longrightarrow> length (enc x) = w) \<Longrightarrow>
     chunks w (length xs) (concat (map enc xs)) = map enc xs"
  by (induction xs) auto

lemma concat_chunks: "length bs = n * w \<Longrightarrow> concat (chunks w n bs) = bs"
  by (induction n arbitrary: bs) auto

lemma reads_count:
  assumes "reads w f p"
  shows "reads (n * w) (\<lambda>bs. map f (chunks w n bs)) (rd_count n p)"
proof (induction n)
  case 0
  show ?case using reads_return [of "[]"] by (simp add: reads_def rd_return_def)
next
  case (Suc n)
  have "rd_count (Suc n) p bs
      = Inr (map f (chunks w (Suc n) (take (Suc n * w) bs)), drop (Suc n * w) bs)"
    if "Suc n * w \<le> length bs" for bs
    using readsD [OF assms, of bs] readsD [OF Suc.IH, of "drop w bs"] that
    by (simp add: rd_bind_def rd_return_def drop_take add.commute)
  then show ?case by (simp add: reads_def)
qed

lemma binrw_reads:
  assumes "binrw_le br"
  shows "reads 1 from_le (br_u8 br)" "reads 2 from_le (br_u16 br)"
    "reads 4 from_le (br_u32 br)" "reads 8 from_le (br_u64 br)"
  using assms by (auto simp: binrw_le_def reads_le_def reads_def)

section \<open>An instance\<close>

text \<open>
  Readers with the documented behaviour, for evaluating the model on concrete bytes. A short
  input is an error with no further detail.
\<close>

definition le_reader :: "nat \<Rightarrow> (unit, 'a::len word) rd" where
  "le_reader n bs = (if n \<le> length bs then Inr (from_le (take n bs), drop n bs) else Inl ())"

definition le_binrw :: "unit binrw" where
  "le_binrw = \<lparr>br_u8 = le_reader 1, br_u16 = le_reader 2,
               br_u32 = le_reader 4, br_u64 = le_reader 8\<rparr>"

lemma binrw_le_le_binrw [simp]: "binrw_le le_binrw"
  by (simp add: binrw_le_def le_binrw_def reads_le_def le_reader_def)

end
