(* ===== verification/Rust_Text.thy ===== *)
theory Rust_Text
  imports Trace_Prelude
begin

text \<open>
  The string operations of Rust's standard library that the program uses: decimal and
  hexadecimal \<open>Display\<close>, \<open>str::parse\<close> of unsigned integers, prefixes and suffixes, trimming and
  splitting. A string is a list of characters (bytes; the program's own texts are ASCII, and
  white space is ASCII white space).
\<close>

section \<open>Digits\<close>

definition digit_char :: "nat \<Rightarrow> char" where
  "digit_char d = char_of (if d < 10 then 48 + d else 87 + d)"

definition is_digit :: "char \<Rightarrow> bool" where
  "is_digit c \<longleftrightarrow> 48 \<le> (of_char c :: nat) \<and> (of_char c :: nat) \<le> 57"

definition digit_val :: "char \<Rightarrow> nat" where
  "digit_val c = of_char c - 48"

lemma of_char_digit_char: "d < 16 \<Longrightarrow> (of_char (digit_char d) :: nat) = (if d < 10 then 48 + d else 87 + d)"
  by (simp add: digit_char_def of_char_of)

lemma is_digit_digit_char [simp]: "d < 10 \<Longrightarrow> is_digit (digit_char d)"
  by (simp add: is_digit_def of_char_digit_char)

lemma digit_val_digit_char [simp]: "d < 10 \<Longrightarrow> digit_val (digit_char d) = d"
  by (simp add: digit_val_def of_char_digit_char)

section \<open>Decimal and hexadecimal display\<close>

text \<open>\<open>{}\<close> of an unsigned integer.\<close>

fun show_nat :: "nat \<Rightarrow> string" where
  "show_nat n = (if n < 10 then [digit_char n] else show_nat (n div 10) @ [digit_char (n mod 10)])"

declare show_nat.simps [simp del]

text \<open>\<open>{:0wx}\<close>: lower-case hexadecimal, padded with zeros to \<open>w\<close> digits.\<close>

fun hex_digits :: "nat \<Rightarrow> string" where
  "hex_digits n = (if n < 16 then [digit_char n] else hex_digits (n div 16) @ [digit_char (n mod 16)])"

declare hex_digits.simps [simp del]

definition show_hex :: "nat \<Rightarrow> nat \<Rightarrow> string" where
  "show_hex w n = replicate (w - length (hex_digits n)) (digit_char 0) @ hex_digits n"

definition show_word :: "'a::len word \<Rightarrow> string" where
  "show_word w = show_nat (unat w)"

definition show_bool :: "bool \<Rightarrow> string" where
  "show_bool b = (if b then ''true'' else ''false'')"

text \<open>\<open>join\<close> of \<open>[String]\<close>.\<close>

fun join_with :: "string \<Rightarrow> string list \<Rightarrow> string" where
  "join_with sep [] = []"
| "join_with sep [x] = x"
| "join_with sep (x # y # ys) = x @ sep @ join_with sep (y # ys)"

section \<open>Parsing unsigned integers\<close>

primrec digits_val :: "string \<Rightarrow> nat \<Rightarrow> nat" where
  "digits_val [] acc = acc"
| "digits_val (c # cs) acc = digits_val cs (10 * acc + digit_val c)"

text \<open>
  \<open>str::parse\<close> of an unsigned type with largest value \<open>m\<close>: an optional \<open>+\<close>, then at least one
  digit and nothing else; a value above \<open>m\<close> is an error.
\<close>

definition parse_uint :: "nat \<Rightarrow> string \<Rightarrow> nat option" where
  "parse_uint m s =
     (let ds = (case s of c # cs \<Rightarrow> if c = CHR ''+'' then cs else s | [] \<Rightarrow> s)
      in if ds \<noteq> [] \<and> list_all is_digit ds \<and> digits_val ds 0 \<le> m
         then Some (digits_val ds 0) else None)"

lemma digits_val_append: "digits_val (xs @ ys) a = digits_val ys (digits_val xs a)"
  by (induction xs arbitrary: a) auto

lemma show_nat_digits: "list_all is_digit (show_nat n)"
proof (induction n rule: show_nat.induct)
  case (1 n)
  then show ?case by (subst show_nat.simps) auto
qed

lemma show_nat_nonempty [simp]: "show_nat n \<noteq> []"
  by (subst show_nat.simps) simp

lemma digits_val_show_nat [simp]: "digits_val (show_nat n) 0 = n"
proof (induction n rule: show_nat.induct)
  case (1 n)
  show ?case
  proof (cases "n < 10")
    case True
    then show ?thesis by (subst show_nat.simps) simp
  next
    case False
    with 1 have "digits_val (show_nat (n div 10)) 0 = n div 10" by simp
    with False show ?thesis
      by (subst show_nat.simps) (simp add: digits_val_append mult_div_mod_eq)
  qed
qed

lemma not_digit_plus: "is_digit c \<Longrightarrow> c \<noteq> CHR ''+''"
  by (auto simp: is_digit_def)

lemma parse_show_nat: "parse_uint m (show_nat n) = (if n \<le> m then Some n else None)"
  using show_nat_digits [of n] show_nat_nonempty [of n] digits_val_show_nat [of n]
  by (cases "show_nat n") (auto simp: parse_uint_def not_digit_plus simp del: digits_val_show_nat)

lemma show_nat_inject [simp]: "show_nat m = show_nat n \<longleftrightarrow> m = n"
  by (metis digits_val_show_nat)

section \<open>Prefixes, suffixes, trimming, splitting\<close>

fun strip_prefix :: "string \<Rightarrow> string \<Rightarrow> string option" where
  "strip_prefix [] s = Some s"
| "strip_prefix (p # ps) [] = None"
| "strip_prefix (p # ps) (c # cs) = (if p = c then strip_prefix ps cs else None)"

definition strip_suffix :: "string \<Rightarrow> string \<Rightarrow> string option" where
  "strip_suffix p s = map_option rev (strip_prefix (rev p) (rev s))"

definition starts_with :: "string \<Rightarrow> string \<Rightarrow> bool" where
  "starts_with p s \<longleftrightarrow> strip_prefix p s \<noteq> None"

definition is_space :: "char \<Rightarrow> bool" where
  "is_space c \<longleftrightarrow> (let n = (of_char c :: nat) in 9 \<le> n \<and> n \<le> 13 \<or> n = 32)"

definition trim :: "string \<Rightarrow> string" where
  "trim s = rev (dropWhile is_space (rev (dropWhile is_space s)))"

text \<open>\<open>str::split\<close> on a character: always at least one piece.\<close>

fun split_on :: "char \<Rightarrow> string \<Rightarrow> string list" where
  "split_on d [] = [[]]"
| "split_on d (c # cs) =
     (if c = d then [] # split_on d cs
      else (case split_on d cs of p # ps \<Rightarrow> (c # p) # ps | [] \<Rightarrow> [[c]]))"

text \<open>\<open>split_whitespace\<close>: the maximal runs of other characters.\<close>

definition split_whitespace :: "string \<Rightarrow> string list" where
  "split_whitespace s =
     filter (\<lambda>p. p \<noteq> []) (split_on (CHR '' '') (map (\<lambda>c. if is_space c then CHR '' '' else c) s))"

text \<open>
  \<open>str::lines\<close>: pieces between line feeds, each without a final carriage return; no line after
  the last line feed, and a last line without a line feed keeps its carriage return.
\<close>

definition drop_cr :: "string \<Rightarrow> string" where
  "drop_cr s = (if s \<noteq> [] \<and> last s = char_of (13 :: nat) then butlast s else s)"

definition lines :: "string \<Rightarrow> string list" where
  "lines s =
     (let ps = split_on (char_of (10 :: nat)) s
      in map drop_cr (butlast ps) @ (if last ps = [] then [] else [last ps]))"

lemma strip_prefix_Some [simp]: "strip_prefix p s = Some t \<longleftrightarrow> s = p @ t"
  by (induction p s rule: strip_prefix.induct) auto

lemma strip_suffix_Some [simp]: "strip_suffix p s = Some t \<longleftrightarrow> s = t @ p"
  by (auto simp: strip_suffix_def) (metis rev_append rev_rev_ident)+

lemma split_on_nonempty [simp]: "split_on d s \<noteq> []"
  by (cases s) (auto split: list.splits)

lemma split_on_none: "d \<notin> set s \<Longrightarrow> split_on d s = [s]"
  by (induction s) auto

lemma split_on_sep: "d \<notin> set s \<Longrightarrow> split_on d (s @ d # t) = s # split_on d t"
  by (induction s) auto

lemma split_on_last: "d \<notin> set t \<Longrightarrow> split_on d (s @ d # t) = split_on d s @ [t]"
proof (induction s)
  case Nil
  then show ?case by (simp add: split_on_none)
next
  case (Cons c s)
  then show ?case by (cases "split_on d s") auto
qed

lemma trim_inner: "\<not> is_space x \<Longrightarrow> \<not> is_space y \<Longrightarrow> trim (x # s @ [y]) = x # s @ [y]"
  by (simp add: trim_def)

lemma trim_space: "is_space c \<Longrightarrow> trim (c # s) = trim s"
  by (simp add: trim_def)

lemma dropWhile_keeps_last: "\<not> P c \<Longrightarrow> \<exists>u. dropWhile P (xs @ [c]) = u @ [c]"
  by (induction xs) auto

lemma trim_first:
  assumes "\<not> is_space c"
  shows "\<exists>t. trim (c # s) = c # t"
proof -
  obtain u where u: "dropWhile is_space (rev s @ [c]) = u @ [c]"
    by (atomize_elim) (rule dropWhile_keeps_last [of is_space c "rev s", OF assms])
  have "trim (c # s) = rev (dropWhile is_space (rev s @ [c]))"
    by (simp add: trim_def assms)
  also have "\<dots> = c # rev u" by (subst u) simp
  finally show ?thesis by (rule exI)
qed

lemma not_space_digit: "is_digit c \<Longrightarrow> \<not> is_space c"
  by (auto simp: is_digit_def is_space_def Let_def)

lemma trim_digits:
  assumes "list_all is_digit ds"
  shows "trim ds = ds"
proof (cases ds rule: rev_cases)
  case (snoc xs y)
  show ?thesis
  proof (cases xs)
    case Nil
    then show ?thesis using assms snoc by (simp add: trim_def not_space_digit)
  next
    case (Cons x zs)
    then show ?thesis using assms snoc trim_inner [of x y zs] by (simp add: not_space_digit)
  qed
qed (simp add: trim_def)

text \<open>The lines of a text of lines, each ended by a line feed and without a carriage return.\<close>

lemma split_on_lines:
  "\<forall>l \<in> set ls. d \<notin> set l \<Longrightarrow> split_on d (concat (map (\<lambda>l. l @ [d]) ls)) = ls @ [[]]"
  by (induction ls) (auto simp: split_on_sep)

lemma lines_of_lines:
  assumes "\<forall>l \<in> set ls. char_of (10 :: nat) \<notin> set l \<and> char_of (13 :: nat) \<notin> set l"
  shows "lines (concat (map (\<lambda>l. l @ [char_of (10 :: nat)]) ls)) = ls"
proof -
  have "drop_cr l = l" if "l \<in> set ls" for l
    using assms that last_in_set [of l] unfolding drop_cr_def by metis
  then have "map drop_cr ls = ls" by (simp add: map_idI)
  then show ?thesis using assms split_on_lines [of ls] by (simp add: lines_def)
qed

section \<open>Hexadecimal fields have their width and determine their value\<close>

lemma length_hex_digits: "n < 16 ^ w \<Longrightarrow> 0 < w \<Longrightarrow> length (hex_digits n) \<le> w"
proof (induction n arbitrary: w rule: hex_digits.induct)
  case (1 n)
  show ?case
  proof (cases "n < 16")
    case True
    then show ?thesis using "1.prems" by (subst hex_digits.simps) simp
  next
    case False
    obtain v where w: "w = Suc v" using "1.prems"(2) by (cases w) auto
    have "n div 16 < 16 ^ v" using "1.prems"(1) w by (simp add: less_mult_imp_div_less mult.commute)
    moreover have "0 < v" using False "1.prems"(1) w by (cases v) auto
    ultimately have "length (hex_digits (n div 16)) \<le> v" using "1.IH" False by blast
    then show ?thesis using False w by (subst hex_digits.simps) simp
  qed
qed

lemma length_show_hex: "n < 16 ^ w \<Longrightarrow> 0 < w \<Longrightarrow> length (show_hex w n) = w"
  using length_hex_digits [of n w] by (simp add: show_hex_def)

primrec hex_val :: "string \<Rightarrow> nat \<Rightarrow> nat" where
  "hex_val [] acc = acc"
| "hex_val (c # cs) acc =
     hex_val cs (16 * acc + (if is_digit c then of_char c - 48 else of_char c - 87))"

lemma hex_val_append: "hex_val (xs @ ys) a = hex_val ys (hex_val xs a)"
  by (induction xs arbitrary: a) auto

lemma hex_val_digit: "d < 16 \<Longrightarrow> hex_val [digit_char d] a = 16 * a + d"
  by (simp add: is_digit_def of_char_digit_char)

lemma hex_val_hex_digits: "hex_val (hex_digits n) 0 = n"
proof (induction n rule: hex_digits.induct)
  case (1 n)
  show ?case
  proof (cases "n < 16")
    case True
    then show ?thesis by (subst hex_digits.simps) (simp add: hex_val_digit del: hex_val.simps)
  next
    case False
    with 1 have "hex_val (hex_digits (n div 16)) 0 = n div 16" by simp
    with False show ?thesis
      by (subst hex_digits.simps)
        (simp add: hex_val_append hex_val_digit mult_div_mod_eq del: hex_val.simps)
  qed
qed

lemma hex_val_zeros: "hex_val (replicate k (digit_char 0)) 0 = 0"
  by (induction k) (auto simp: is_digit_def of_char_digit_char)

lemma hex_val_show_hex: "hex_val (show_hex w n) 0 = n"
  by (simp add: show_hex_def hex_val_append hex_val_zeros hex_val_hex_digits)

lemma show_hex_inject [simp]: "show_hex w m = show_hex w n \<longleftrightarrow> m = n"
  by (metis hex_val_show_hex)

end
