(* ===== verification/Trace_Format.thy ===== *)
theory Trace_Format
  imports Byte_Codec Rust_Text
begin

text \<open>
  The trace format of \<open>tracing/nvme-trace/src/lib.rs\<close>: its constants, errors, record structs and
  the parsers of one record. The readers of binrw are the parameter \<open>br\<close>; a struct's derived
  reader reads its fields in the order of the declaration. \<open>usize\<close> values are lengths of byte
  lists and are \<open>nat\<close>.
\<close>

section \<open>Constants\<close>

definition NVME_TRACE_MAGIC :: u32 where "NVME_TRACE_MAGIC = 0x4e564d45"
definition NVME_TRACE_VERSION :: u8 where "NVME_TRACE_VERSION = 1"
definition NVME_TRACE_SUBMIT :: u8 where "NVME_TRACE_SUBMIT = 0"
definition NVME_TRACE_COMPLETE :: u8 where "NVME_TRACE_COMPLETE = 1"
definition HEADER_LEN :: nat where "HEADER_LEN = 24"
definition SUBMIT_FIXED_LEN :: nat where "SUBMIT_FIXED_LEN = 100"
definition COMPLETE_LEN :: nat where "COMPLETE_LEN = 40"
definition SQE_LEN :: nat where "SQE_LEN = 64"
definition PRP_ENTRY_LEN :: nat where "PRP_ENTRY_LEN = 8"
definition SGL_DESC_LEN :: nat where "SGL_DESC_LEN = 16"

lemmas trace_consts = NVME_TRACE_MAGIC_def NVME_TRACE_VERSION_def NVME_TRACE_SUBMIT_def
  NVME_TRACE_COMPLETE_def
lemmas trace_lens [simp] = HEADER_LEN_def SUBMIT_FIXED_LEN_def COMPLETE_LEN_def SQE_LEN_def
  PRP_ENTRY_LEN_def SGL_DESC_LEN_def

section \<open>Errors\<close>

datatype io_kind = Interrupted | WouldBlock | OtherKind nat

datatype io_error = IoError (io_kind: io_kind) (io_text: string)

datatype 'e trace_error =
    Io io_error
  | Parse u64 'e
  | TruncatedHeader u64 nat
  | TruncatedPayload u64 nat nat
  | InvalidMagic u64 u32
  | UnsupportedVersion u64 u8
  | UnknownType u64 u8
  | InvalidLength u64 u8 nat string

text \<open>\<open>Display\<close>; the texts of I/O errors and of binrw's errors come from their own crates.\<close>

fun trace_error_text :: "('e \<Rightarrow> string) \<Rightarrow> 'e trace_error \<Rightarrow> string" where
  "trace_error_text etext (Io e) = io_text e"
| "trace_error_text etext (Parse offset err) =
     ''parse error at offset '' @ show_word offset @ '': '' @ etext err"
| "trace_error_text etext (TruncatedHeader offset got) =
     ''truncated header at offset '' @ show_word offset @ '': got '' @ show_nat got @ '' bytes''"
| "trace_error_text etext (TruncatedPayload offset expected got) =
     ''truncated payload at offset '' @ show_word offset @ '': expected '' @ show_nat expected
       @ '' bytes, got '' @ show_nat got"
| "trace_error_text etext (InvalidMagic offset magic) =
     ''bad magic at offset '' @ show_word offset @ '': 0x'' @ show_hex 8 (unat magic)"
| "trace_error_text etext (UnsupportedVersion offset version) =
     ''unsupported version at offset '' @ show_word offset @ '': '' @ show_word version"
| "trace_error_text etext (UnknownType offset record_type) =
     ''unknown record type at offset '' @ show_word offset @ '': '' @ show_word record_type"
| "trace_error_text etext (InvalidLength offset record_type len reason) =
     ''invalid record length at offset '' @ show_word offset @ '': type='' @ show_word record_type
       @ '' len='' @ show_nat len @ '': '' @ reason"

section \<open>Records\<close>

record header =
  h_magic :: u32
  h_version :: u8
  h_record_type :: u8
  h_len :: u16
  h_timestamp_ns :: u64
  h_seq :: u32
  h_ctrl_id :: u8
  h_qid :: u8
  h_cid :: u16

record sgl_desc =
  sgl_addr :: u64
  sgl_length :: u32
  sgl_reserved :: "byte list"
  sgl_desc_type :: u8

datatype submit_tail = Prp "u64 list" | Sgl "sgl_desc list"

fun tail_len :: "submit_tail \<Rightarrow> nat" where
  "tail_len (Prp entries) = length entries"
| "tail_len (Sgl entries) = length entries"

definition tail_is_empty :: "submit_tail \<Rightarrow> bool" where
  "tail_is_empty t \<longleftrightarrow> tail_len t = 0"

record submit_record =
  s_header :: header
  s_sqe :: "byte list"
  s_data_len :: u32
  s_meta_len :: u32
  s_use_sgl :: bool
  s_single_segment :: bool
  s_nr_entries :: u16
  s_tail :: submit_tail

record complete_record =
  c_header :: header
  c_result :: u64
  c_sq_head :: u16
  c_sq_id :: u16
  c_status :: u16
  c_retries :: u8

datatype trace_record = Submit submit_record | Complete complete_record

fun record_header :: "trace_record \<Rightarrow> header" where
  "record_header (Submit r) = s_header r"
| "record_header (Complete r) = c_header r"

record raw_record =
  raw_header :: header
  raw_record :: trace_record
  raw_bytes :: "byte list"
  raw_offset :: u64

section \<open>The readers of the structs\<close>

definition read_header :: "'e binrw \<Rightarrow> ('e, header) rd" where
  "read_header br =
     rd_bind (br_u32 br) (\<lambda>magic. rd_bind (br_u8 br) (\<lambda>version.
     rd_bind (br_u8 br) (\<lambda>record_type. rd_bind (br_u16 br) (\<lambda>len.
     rd_bind (br_u64 br) (\<lambda>timestamp_ns. rd_bind (br_u32 br) (\<lambda>seq.
     rd_bind (br_u8 br) (\<lambda>ctrl_id. rd_bind (br_u8 br) (\<lambda>qid.
     rd_bind (br_u16 br) (\<lambda>cid. rd_return
       \<lparr>h_magic = magic, h_version = version, h_record_type = record_type, h_len = len,
        h_timestamp_ns = timestamp_ns, h_seq = seq, h_ctrl_id = ctrl_id, h_qid = qid,
        h_cid = cid\<rparr>)))))))))"

definition read_sgl_desc :: "'e binrw \<Rightarrow> ('e, sgl_desc) rd" where
  "read_sgl_desc br =
     rd_bind (br_u64 br) (\<lambda>addr. rd_bind (br_u32 br) (\<lambda>length.
     rd_bind (rd_count 3 (br_u8 br)) (\<lambda>reserved. rd_bind (br_u8 br) (\<lambda>desc_type. rd_return
       \<lparr>sgl_addr = addr, sgl_length = length, sgl_reserved = reserved,
        sgl_desc_type = desc_type\<rparr>))))"

record submit_fixed =
  f_sqe :: "byte list"
  f_data_len :: u32
  f_meta_len :: u32
  f_use_sgl :: bool
  f_single_segment :: bool
  f_nr_entries :: u16

definition read_submit_fixed :: "'e binrw \<Rightarrow> ('e, submit_fixed) rd" where
  "read_submit_fixed br =
     rd_bind (rd_count SQE_LEN (br_u8 br)) (\<lambda>sqe. rd_bind (br_u32 br) (\<lambda>data_len.
     rd_bind (br_u32 br) (\<lambda>meta_len. rd_bind (br_u8 br) (\<lambda>use_sgl.
     rd_bind (br_u8 br) (\<lambda>single_segment. rd_bind (br_u16 br) (\<lambda>nr_entries. rd_return
       \<lparr>f_sqe = sqe, f_data_len = data_len, f_meta_len = meta_len, f_use_sgl = (use_sgl \<noteq> 0),
        f_single_segment = (single_segment \<noteq> 0), f_nr_entries = nr_entries\<rparr>))))))"

definition entry_len :: "submit_fixed \<Rightarrow> nat" where
  "entry_len f = (if f_use_sgl f then SGL_DESC_LEN else PRP_ENTRY_LEN)"

definition expected_tail_len :: "submit_fixed \<Rightarrow> nat" where
  "expected_tail_len f = unat (f_nr_entries f) * entry_len f"

definition submit_into_record :: "submit_fixed \<Rightarrow> header \<Rightarrow> submit_tail \<Rightarrow> submit_record" where
  "submit_into_record f h t =
     \<lparr>s_header = h, s_sqe = f_sqe f, s_data_len = f_data_len f, s_meta_len = f_meta_len f,
      s_use_sgl = f_use_sgl f, s_single_segment = f_single_segment f,
      s_nr_entries = f_nr_entries f, s_tail = t\<rparr>"

record submit_tail_payload =
  p_prp_entries :: "u64 list"
  p_sgl_entries :: "sgl_desc list"

definition read_submit_tail :: "'e binrw \<Rightarrow> bool \<Rightarrow> u16 \<Rightarrow> ('e, submit_tail_payload) rd" where
  "read_submit_tail br use_sgl nr_entries =
     rd_bind (rd_count (if use_sgl then 0 else unat nr_entries) (br_u64 br)) (\<lambda>prp.
     rd_bind (rd_count (if use_sgl then unat nr_entries else 0) (read_sgl_desc br)) (\<lambda>sgl.
     rd_return \<lparr>p_prp_entries = prp, p_sgl_entries = sgl\<rparr>))"

definition into_tail :: "submit_tail_payload \<Rightarrow> bool \<Rightarrow> submit_tail" where
  "into_tail p use_sgl = (if use_sgl then Sgl (p_sgl_entries p) else Prp (p_prp_entries p))"

record complete_payload =
  cp_result :: u64
  cp_sq_head :: u16
  cp_sq_id :: u16
  cp_status :: u16
  cp_retries :: u8
  cp_reserved :: u8

definition read_complete_payload :: "'e binrw \<Rightarrow> ('e, complete_payload) rd" where
  "read_complete_payload br =
     rd_bind (br_u64 br) (\<lambda>result. rd_bind (br_u16 br) (\<lambda>sq_head.
     rd_bind (br_u16 br) (\<lambda>sq_id. rd_bind (br_u16 br) (\<lambda>status.
     rd_bind (br_u8 br) (\<lambda>retries. rd_bind (br_u8 br) (\<lambda>reserved. rd_return
       \<lparr>cp_result = result, cp_sq_head = sq_head, cp_sq_id = sq_id, cp_status = status,
        cp_retries = retries, cp_reserved = reserved\<rparr>))))))"

definition complete_into_record :: "complete_payload \<Rightarrow> header \<Rightarrow> complete_record" where
  "complete_into_record p h =
     \<lparr>c_header = h, c_result = cp_result p, c_sq_head = cp_sq_head p, c_sq_id = cp_sq_id p,
      c_status = cp_status p, c_retries = cp_retries p\<rparr>"

section \<open>Parsing one record\<close>

definition read_bin :: "('e, 'a) rd \<Rightarrow> byte list \<Rightarrow> u64 \<Rightarrow> 'e trace_error + 'a" where
  "read_bin p bytes offset = (case p bytes of Inl err \<Rightarrow> Inl (Parse offset err) | Inr (x, _) \<Rightarrow> Inr x)"

definition parse_header :: "'e binrw \<Rightarrow> byte list \<Rightarrow> u64 \<Rightarrow> 'e trace_error + header" where
  "parse_header br bytes offset =
     try_bind (read_bin (read_header br) bytes offset) (\<lambda>header.
       if h_magic header \<noteq> NVME_TRACE_MAGIC then Inl (InvalidMagic offset (h_magic header))
       else if h_version header \<noteq> NVME_TRACE_VERSION
       then Inl (UnsupportedVersion offset (h_version header))
       else Inr header)"

definition parse_submit ::
  "'e binrw \<Rightarrow> header \<Rightarrow> byte list \<Rightarrow> u64 \<Rightarrow> 'e trace_error + submit_record" where
  "parse_submit br header bytes offset =
     (if length bytes < SUBMIT_FIXED_LEN
      then Inl (InvalidLength offset (h_record_type header) (length bytes)
        ''submit record is smaller than the fixed struct'')
      else try_bind (read_bin (read_submit_fixed br) (slice bytes HEADER_LEN SUBMIT_FIXED_LEN) offset)
        (\<lambda>fixed.
          if length bytes - SUBMIT_FIXED_LEN \<noteq> expected_tail_len fixed
          then Inl (InvalidLength offset (h_record_type header) (length bytes)
            ''submit tail length does not match nr_entries'')
          else try_bind
            (read_bin (read_submit_tail br (f_use_sgl fixed) (f_nr_entries fixed))
              (drop SUBMIT_FIXED_LEN bytes) offset)
            (\<lambda>tail. Inr (submit_into_record fixed header (into_tail tail (f_use_sgl fixed))))))"

definition parse_complete ::
  "'e binrw \<Rightarrow> header \<Rightarrow> byte list \<Rightarrow> u64 \<Rightarrow> 'e trace_error + complete_record" where
  "parse_complete br header bytes offset =
     (if length bytes \<noteq> COMPLETE_LEN
      then Inl (InvalidLength offset (h_record_type header) (length bytes)
        ''completion record must be exactly the fixed struct size'')
      else try_bind (read_bin (read_complete_payload br) (drop HEADER_LEN bytes) offset)
        (\<lambda>payload. Inr (complete_into_record payload header)))"

definition parse_record_bytes ::
  "'e binrw \<Rightarrow> byte list \<Rightarrow> u64 \<Rightarrow> 'e trace_error + raw_record" where
  "parse_record_bytes br bytes offset =
     (if length bytes < HEADER_LEN then Inl (TruncatedHeader offset (length bytes))
      else try_bind (parse_header br (take HEADER_LEN bytes) offset) (\<lambda>header.
        let len = unat (h_len header) in
        if len \<noteq> length bytes
        then Inl (InvalidLength offset (h_record_type header) len
          ''header length does not match byte slice length'')
        else try_bind
          (if h_record_type header = NVME_TRACE_SUBMIT
           then try_bind (parse_submit br header bytes offset) (\<lambda>r. Inr (Submit r))
           else if h_record_type header = NVME_TRACE_COMPLETE
           then try_bind (parse_complete br header bytes offset) (\<lambda>r. Inr (Complete r))
           else Inl (UnknownType offset (h_record_type header)))
          (\<lambda>record. Inr \<lparr>raw_header = header, raw_record = record, raw_bytes = bytes,
                       raw_offset = offset\<rparr>)))"

section \<open>The layout the readers implement\<close>

text \<open>
  Each struct's fields at their byte offsets. Under the documented behaviour of binrw, the
  readers decode exactly these fields.
\<close>

definition header_of :: "byte list \<Rightarrow> header" where
  "header_of bs =
     \<lparr>h_magic = from_le (slice bs 0 4), h_version = from_le (slice bs 4 5),
      h_record_type = from_le (slice bs 5 6), h_len = from_le (slice bs 6 8),
      h_timestamp_ns = from_le (slice bs 8 16), h_seq = from_le (slice bs 16 20),
      h_ctrl_id = from_le (slice bs 20 21), h_qid = from_le (slice bs 21 22),
      h_cid = from_le (slice bs 22 24)\<rparr>"

definition sgl_desc_of :: "byte list \<Rightarrow> sgl_desc" where
  "sgl_desc_of bs =
     \<lparr>sgl_addr = from_le (slice bs 0 8), sgl_length = from_le (slice bs 8 12),
      sgl_reserved = slice bs 12 15, sgl_desc_type = from_le (slice bs 15 16)\<rparr>"

definition submit_fixed_of :: "byte list \<Rightarrow> submit_fixed" where
  "submit_fixed_of bs =
     \<lparr>f_sqe = take 64 bs, f_data_len = from_le (slice bs 64 68), f_meta_len = from_le (slice bs 68 72),
      f_use_sgl = ((from_le (slice bs 72 73) :: u8) \<noteq> 0),
      f_single_segment = ((from_le (slice bs 73 74) :: u8) \<noteq> 0),
      f_nr_entries = from_le (slice bs 74 76)\<rparr>"

definition complete_payload_of :: "byte list \<Rightarrow> complete_payload" where
  "complete_payload_of bs =
     \<lparr>cp_result = from_le (slice bs 0 8), cp_sq_head = from_le (slice bs 8 10),
      cp_sq_id = from_le (slice bs 10 12), cp_status = from_le (slice bs 12 14),
      cp_retries = from_le (slice bs 14 15), cp_reserved = from_le (slice bs 15 16)\<rparr>"

definition tail_of :: "bool \<Rightarrow> nat \<Rightarrow> byte list \<Rightarrow> submit_tail" where
  "tail_of use_sgl n bs =
     (if use_sgl then Sgl (map sgl_desc_of (chunks 16 n bs)) else Prp (map from_le (chunks 8 n bs)))"

lemma from_le_singleton [simp]: "from_le [b] = (b :: u8)"
  by simp

lemma map_from_le_chunks [simp]: "length bs = n \<Longrightarrow> map from_le (chunks (Suc 0) n bs) = bs"
proof (induction n arbitrary: bs)
  case (Suc n)
  then show ?case by (cases bs) auto
qed simp

lemma reads_header:
  assumes "binrw_le br"
  shows "reads 24 header_of (read_header br)"
  using assms
  by (simp add: reads_def read_header_def rd_bind_def rd_return_def binrw_leD header_of_def
      slice_def min_def drop_take)

lemma reads_bytes: "binrw_le br \<Longrightarrow> n \<le> length bs \<Longrightarrow> rd_count n (br_u8 br) bs = Inr (take n bs, drop n bs)"
  using readsD [OF reads_count [OF binrw_reads(1)], of br n bs] by (simp add: min_def)

lemma reads_sgl_desc:
  assumes "binrw_le br"
  shows "reads 16 sgl_desc_of (read_sgl_desc br)"
  using assms
  by (simp add: reads_def read_sgl_desc_def rd_bind_def rd_return_def binrw_leD reads_bytes
      sgl_desc_of_def slice_def min_def drop_take)

lemma reads_submit_fixed:
  assumes "binrw_le br"
  shows "reads 76 submit_fixed_of (read_submit_fixed br)"
  using assms
  by (simp add: reads_def read_submit_fixed_def rd_bind_def rd_return_def binrw_leD reads_bytes
      submit_fixed_of_def slice_def min_def drop_take)

lemma reads_complete_payload:
  assumes "binrw_le br"
  shows "reads 16 complete_payload_of (read_complete_payload br)"
  using assms
  by (simp add: reads_def read_complete_payload_def rd_bind_def rd_return_def binrw_leD
      complete_payload_of_def slice_def min_def drop_take)

end
