(* ===== verification/Trace_Parse.thy ===== *)
theory Trace_Parse
  imports Trace_Format
begin

text \<open>
  What \<open>parse_record_bytes\<close> guarantees: which byte strings it accepts and with which error it
  rejects the others, the well-formedness of what it returns, and that it inverts the wire
  encoding of the documented layout.
\<close>

section \<open>The parser as a decision on the layout\<close>

definition record_of :: "byte list \<Rightarrow> trace_record" where
  "record_of bs =
     (let h = header_of bs; f = submit_fixed_of (slice bs 24 100) in
      if h_record_type h = NVME_TRACE_SUBMIT
      then Submit (submit_into_record f h
             (tail_of (f_use_sgl f) (unat (f_nr_entries f)) (drop 100 bs)))
      else Complete (complete_into_record (complete_payload_of (drop 24 bs)) h))"

definition raw_of :: "byte list \<Rightarrow> u64 \<Rightarrow> raw_record" where
  "raw_of bs offset =
     \<lparr>raw_header = header_of bs, raw_record = record_of bs, raw_bytes = bs, raw_offset = offset\<rparr>"

text \<open>The checks of the parser in the order it makes them, as one function of the bytes.\<close>

definition record_fault :: "byte list \<Rightarrow> u64 \<Rightarrow> 'e trace_error option" where
  "record_fault bs offset =
     (let h = header_of bs; n = length bs; f = submit_fixed_of (slice bs 24 100) in
      if n < 24 then Some (TruncatedHeader offset n)
      else if h_magic h \<noteq> NVME_TRACE_MAGIC then Some (InvalidMagic offset (h_magic h))
      else if h_version h \<noteq> NVME_TRACE_VERSION then Some (UnsupportedVersion offset (h_version h))
      else if unat (h_len h) \<noteq> n
      then Some (InvalidLength offset (h_record_type h) (unat (h_len h))
        ''header length does not match byte slice length'')
      else if h_record_type h = NVME_TRACE_SUBMIT then
        if n < 100 then Some (InvalidLength offset (h_record_type h) n
          ''submit record is smaller than the fixed struct'')
        else if n - 100 \<noteq> expected_tail_len f
        then Some (InvalidLength offset (h_record_type h) n
          ''submit tail length does not match nr_entries'')
        else None
      else if h_record_type h = NVME_TRACE_COMPLETE then
        if n \<noteq> 40 then Some (InvalidLength offset (h_record_type h) n
          ''completion record must be exactly the fixed struct size'')
        else None
      else Some (UnknownType offset (h_record_type h)))"

lemma header_of_take: "24 \<le> n \<Longrightarrow> header_of (take n bs) = header_of bs"
  by (simp add: header_of_def slice_def drop_take min_def)

lemma parse_header_eq:
  assumes "binrw_le br" and "24 \<le> length bs"
  shows "parse_header br (take 24 bs) offset =
    (if h_magic (header_of bs) \<noteq> NVME_TRACE_MAGIC
     then Inl (InvalidMagic offset (h_magic (header_of bs)))
     else if h_version (header_of bs) \<noteq> NVME_TRACE_VERSION
     then Inl (UnsupportedVersion offset (h_version (header_of bs)))
     else Inr (header_of bs))"
  using readsD [OF reads_header [OF assms(1)], of "take 24 bs"] assms(2)
  by (simp add: parse_header_def read_bin_def header_of_take)

lemma read_tail_eq:
  assumes br: "binrw_le br"
    and len: "length bs = unat n * (if u then 16 else 8)"
  shows "\<exists>p. read_submit_tail br u n bs = Inr (p, []) \<and> into_tail p u = tail_of u (unat n) bs"
proof (cases u)
  case True
  then show ?thesis
    using readsD [OF reads_count [OF reads_sgl_desc [OF br]], of "unat n" bs] len
    by (simp add: read_submit_tail_def rd_bind_def rd_return_def into_tail_def tail_of_def)
next
  case False
  then show ?thesis
    using readsD [OF reads_count [OF binrw_reads(4) [OF br]], of "unat n" bs] len
    by (simp add: read_submit_tail_def rd_bind_def rd_return_def into_tail_def tail_of_def)
qed

lemma parse_submit_eq:
  assumes br: "binrw_le br" and len: "100 \<le> length bs"
  shows "parse_submit br h bs offset =
    (let f = submit_fixed_of (slice bs 24 100) in
     if length bs - 100 \<noteq> expected_tail_len f
     then Inl (InvalidLength offset (h_record_type h) (length bs)
       ''submit tail length does not match nr_entries'')
     else Inr (submit_into_record f h
       (tail_of (f_use_sgl f) (unat (f_nr_entries f)) (drop 100 bs))))"
proof -
  let ?f = "submit_fixed_of (slice bs 24 100)"
  have rf: "read_submit_fixed br (slice bs 24 100) = Inr (?f, [])"
    using readsD [OF reads_submit_fixed [OF br], of "slice bs 24 100"] len by simp
  show ?thesis
  proof (cases "length bs - 100 = expected_tail_len ?f")
    case True
    then have "length (drop 100 bs) = unat (f_nr_entries ?f) * (if f_use_sgl ?f then 16 else 8)"
      by (simp add: expected_tail_len_def entry_len_def)
    from read_tail_eq [OF br this] show ?thesis
      using rf True len by (auto simp: parse_submit_def read_bin_def Let_def)
  next
    case False
    then show ?thesis using rf len by (simp add: parse_submit_def read_bin_def Let_def)
  qed
qed

lemma parse_complete_eq:
  assumes br: "binrw_le br" and len: "length bs = 40"
  shows "parse_complete br h bs offset = Inr (complete_into_record (complete_payload_of (drop 24 bs)) h)"
  using readsD [OF reads_complete_payload [OF br], of "drop 24 bs"] len
  by (simp add: parse_complete_def read_bin_def)

lemma parse_record_bytes_eq:
  assumes "binrw_le br"
  shows "parse_record_bytes br bs offset =
    (case record_fault bs offset of None \<Rightarrow> Inr (raw_of bs offset) | Some e \<Rightarrow> Inl e)"
proof (cases "24 \<le> length bs")
  case False
  then show ?thesis by (simp add: parse_record_bytes_def record_fault_def Let_def)
next
  case True
  note ph = parse_header_eq [OF assms True]
  show ?thesis
  proof (cases "h_record_type (header_of bs) = NVME_TRACE_SUBMIT")
    case sub: True
    show ?thesis
    proof (cases "100 \<le> length bs")
      case True
      then show ?thesis
        using parse_submit_eq [OF assms True] sub \<open>24 \<le> length bs\<close>
        by (simp add: parse_record_bytes_def ph record_fault_def raw_of_def record_of_def Let_def)
    next
      case False
      then show ?thesis
        using sub \<open>24 \<le> length bs\<close>
        by (simp add: parse_record_bytes_def ph record_fault_def parse_submit_def Let_def)
    qed
  next
    case nsub: False
    show ?thesis
    proof (cases "length bs = 40")
      case True
      then show ?thesis
        using parse_complete_eq [OF assms True] nsub
        by (simp add: parse_record_bytes_def ph record_fault_def raw_of_def record_of_def Let_def)
    next
      case False
      then show ?thesis
        using nsub \<open>24 \<le> length bs\<close>
        by (simp add: parse_record_bytes_def ph record_fault_def parse_complete_def Let_def)
    qed
  qed
qed

lemma record_fault_offset: "record_fault bs off1 = None \<longleftrightarrow> record_fault bs off2 = None"
  by (auto simp: record_fault_def Let_def)

text \<open>A byte string that is one record.\<close>

definition valid_record :: "byte list \<Rightarrow> bool" where
  "valid_record bs \<longleftrightarrow> record_fault bs 0 = (None :: unit trace_error option)"

lemma record_fault_None: "record_fault bs offset = (None :: 'e trace_error option) \<longleftrightarrow> valid_record bs"
  by (auto simp: valid_record_def record_fault_def Let_def)

lemma valid_record_header:
  assumes "valid_record bs"
  shows "24 \<le> length bs" "h_magic (header_of bs) = NVME_TRACE_MAGIC"
    "h_version (header_of bs) = NVME_TRACE_VERSION" "unat (h_len (header_of bs)) = length bs"
  using assms by (auto simp: valid_record_def record_fault_def Let_def split: if_splits)

lemma valid_record_fault [simp]: "valid_record bs \<Longrightarrow> record_fault bs offset = None"
  by (simp add: record_fault_None)

lemma parse_valid:
  "binrw_le br \<Longrightarrow> valid_record bs \<Longrightarrow> parse_record_bytes br bs offset = Inr (raw_of bs offset)"
  by (simp add: parse_record_bytes_eq)

lemma parse_Inr_iff:
  "binrw_le br \<Longrightarrow> parse_record_bytes br bs offset = Inr r \<longleftrightarrow> valid_record bs \<and> r = raw_of bs offset"
  by (auto simp: parse_record_bytes_eq record_fault_None split: option.splits)

end
