(* ===== verification/Trace_Wire.thy ===== *)
theory Trace_Wire
  imports Trace_Parse
begin

text \<open>
  The wire encoding of a record, the specification the parser is checked against: the packed
  little-endian layout the trace format documents (\<open>docs/nvme-pci-relay-tracing.md\<close>). The
  parser inverts it, and on canonical bytes it inverts the parser.
\<close>

section \<open>Encoding\<close>

definition wire_header :: "header \<Rightarrow> byte list" where
  "wire_header h = to_le 4 (h_magic h) @ [h_version h, h_record_type h] @ to_le 2 (h_len h)
     @ to_le 8 (h_timestamp_ns h) @ to_le 4 (h_seq h) @ [h_ctrl_id h, h_qid h] @ to_le 2 (h_cid h)"

definition wire_sgl :: "sgl_desc \<Rightarrow> byte list" where
  "wire_sgl d = to_le 8 (sgl_addr d) @ to_le 4 (sgl_length d) @ sgl_reserved d @ [sgl_desc_type d]"

fun wire_tail :: "submit_tail \<Rightarrow> byte list" where
  "wire_tail (Prp es) = concat (map (to_le 8) es)"
| "wire_tail (Sgl ds) = concat (map wire_sgl ds)"

definition wire_submit_fixed :: "submit_record \<Rightarrow> byte list" where
  "wire_submit_fixed s = s_sqe s @ to_le 4 (s_data_len s) @ to_le 4 (s_meta_len s)
     @ [of_bool (s_use_sgl s), of_bool (s_single_segment s)] @ to_le 2 (s_nr_entries s)"

definition wire_complete_payload :: "complete_record \<Rightarrow> byte list" where
  "wire_complete_payload c = to_le 8 (c_result c) @ to_le 2 (c_sq_head c) @ to_le 2 (c_sq_id c)
     @ to_le 2 (c_status c) @ [c_retries c, 0]"

fun wire_record :: "trace_record \<Rightarrow> byte list" where
  "wire_record (Submit s) = wire_header (s_header s) @ wire_submit_fixed s @ wire_tail (s_tail s)"
| "wire_record (Complete c) = wire_header (c_header c) @ wire_complete_payload c"

text \<open>What a record must satisfy for its encoding to be one record of the format.\<close>

fun wf_tail :: "bool \<Rightarrow> submit_tail \<Rightarrow> bool" where
  "wf_tail use_sgl (Prp es) \<longleftrightarrow> \<not> use_sgl"
| "wf_tail use_sgl (Sgl ds) \<longleftrightarrow> use_sgl \<and> (\<forall>d \<in> set ds. length (sgl_reserved d) = 3)"

fun wf_record :: "trace_record \<Rightarrow> bool" where
  "wf_record (Submit s) \<longleftrightarrow> h_record_type (s_header s) = NVME_TRACE_SUBMIT \<and> length (s_sqe s) = SQE_LEN
     \<and> wf_tail (s_use_sgl s) (s_tail s) \<and> unat (s_nr_entries s) = tail_len (s_tail s)"
| "wf_record (Complete c) \<longleftrightarrow> h_record_type (c_header c) = NVME_TRACE_COMPLETE"

definition wf_header :: "header \<Rightarrow> nat \<Rightarrow> bool" where
  "wf_header h n \<longleftrightarrow> h_magic h = NVME_TRACE_MAGIC \<and> h_version h = NVME_TRACE_VERSION
     \<and> unat (h_len h) = n"

section \<open>Decoding an encoding\<close>

lemma length_wire_header [simp]: "length (wire_header h) = 24"
  by (simp add: wire_header_def)

lemma length_wire_sgl [simp]: "length (sgl_reserved d) = 3 \<Longrightarrow> length (wire_sgl d) = 16"
  by (simp add: wire_sgl_def)

lemma length_wire_submit_fixed [simp]: "length (s_sqe s) = 64 \<Longrightarrow> length (wire_submit_fixed s) = 76"
  by (simp add: wire_submit_fixed_def)

lemma length_wire_complete_payload [simp]: "length (wire_complete_payload c) = 16"
  by (simp add: wire_complete_payload_def)

lemma length_concat_const:
  "(\<And>x. x \<in> set xs \<Longrightarrow> length (f x) = w) \<Longrightarrow> length (concat (map f xs)) = length xs * w"
  by (induction xs) auto

lemma length_wire_tail:
  "wf_tail u t \<Longrightarrow> length (wire_tail t) = tail_len t * (if u then 16 else 8)"
  by (cases t) (auto simp: length_concat_const [where w = 16] length_concat_const [where w = 8])

lemma header_of_wire [simp]: "header_of (wire_header h @ rest) = h"
  by (simp add: header_of_def wire_header_def slice_def del: to_le.simps from_le.simps)

lemma sgl_desc_of_wire [simp]:
  "length (sgl_reserved d) = 3 \<Longrightarrow> sgl_desc_of (wire_sgl d) = d"
  by (simp add: sgl_desc_of_def wire_sgl_def slice_def del: to_le.simps from_le.simps)

lemma of_bool_ne_0 [simp]: "(of_bool b :: 'a::len word) \<noteq> 0 \<longleftrightarrow> b"
  by (cases b) auto

lemma submit_fixed_of_wire:
  "length (s_sqe s) = 64 \<Longrightarrow> submit_fixed_of (wire_submit_fixed s) =
     \<lparr>f_sqe = s_sqe s, f_data_len = s_data_len s, f_meta_len = s_meta_len s,
      f_use_sgl = s_use_sgl s, f_single_segment = s_single_segment s,
      f_nr_entries = s_nr_entries s\<rparr>"
  by (simp add: submit_fixed_of_def wire_submit_fixed_def slice_def del: to_le.simps)

lemma complete_payload_of_wire:
  "complete_payload_of (wire_complete_payload c) =
     \<lparr>cp_result = c_result c, cp_sq_head = c_sq_head c, cp_sq_id = c_sq_id c,
      cp_status = c_status c, cp_retries = c_retries c, cp_reserved = 0\<rparr>"
  by (simp add: complete_payload_of_def wire_complete_payload_def slice_def del: to_le.simps)

lemma tail_of_wire:
  assumes "wf_tail u t"
  shows "tail_of u (tail_len t) (wire_tail t) = t"
proof (cases t)
  case (Prp es)
  then show ?thesis
    using assms chunks_concat [of es "to_le 8" 8] by (simp add: tail_of_def comp_def)
next
  case (Sgl ds)
  then have r: "\<forall>d \<in> set ds. length (sgl_reserved d) = 3" and "u" using assms by auto
  then have "chunks 16 (length ds) (concat (map wire_sgl ds)) = map wire_sgl ds"
    by (intro chunks_concat) simp
  then show ?thesis
    using r \<open>u\<close> Sgl by (simp add: tail_of_def comp_def map_idI)
qed

lemma record_of_wire:
  assumes "wf_record r"
  shows "record_of (wire_record r) = r"
proof (cases r)
  case (Submit s)
  then have "length (s_sqe s) = 64" using assms by simp
  then show ?thesis
    using Submit assms
    by (simp add: record_of_def Let_def submit_fixed_of_wire slice_append_right
        slice_append_left tail_of_wire submit_into_record_def)
next
  case (Complete c)
  then show ?thesis
    using assms
    by (simp add: record_of_def Let_def complete_payload_of_wire complete_into_record_def trace_consts)
qed

lemma header_of_wire_record [simp]: "header_of (wire_record r) = record_header r"
  by (cases r) simp_all

lemma valid_wire:
  assumes "wf_record r" and "wf_header (record_header r) (length (wire_record r))"
  shows "valid_record (wire_record r)"
proof (cases r)
  case (Submit s)
  then have sqe: "length (s_sqe s) = 64" using assms by simp
  then show ?thesis
    using Submit assms length_wire_tail [of "s_use_sgl s" "s_tail s"]
    by (auto simp: valid_record_def record_fault_def Let_def wf_header_def slice_append_right
        slice_append_left submit_fixed_of_wire expected_tail_len_def entry_len_def)
next
  case (Complete c)
  then show ?thesis
    using assms by (auto simp: valid_record_def record_fault_def Let_def wf_header_def trace_consts)
qed

section \<open>Encoding a decoding\<close>

lemma slices_glue:
  "i \<le> j \<Longrightarrow> j \<le> k \<Longrightarrow> slice bs i j @ slice bs j k = slice bs i k"
  using take_add [of "j - i" "k - j" "drop i bs"] by (simp add: slice_def)

lemma slice_drop_glue: "i \<le> j \<Longrightarrow> slice bs i j @ drop j bs = drop i bs"
  using append_take_drop_id [of "j - i" "drop i bs"] by (simp add: slice_def)

lemma slice_one: "i < length bs \<Longrightarrow> slice bs i (Suc i) = [bs ! i]"
  by (simp add: slice_def take_Suc_conv_app_nth Cons_nth_drop_Suc [symmetric])

lemma wire_header_of_header:
  assumes "24 \<le> length bs"
  shows "wire_header (header_of bs) = take 24 bs"
proof -
  have one: "[from_le (slice bs i j) :: u8] = slice bs i j" if "j = Suc i" "j \<le> length bs" for i j
    using that slice_one [of i bs] by simp
  have "wire_header (header_of bs) = slice bs 0 4 @ slice bs 4 5 @ slice bs 5 6 @ slice bs 6 8
     @ slice bs 8 16 @ slice bs 16 20 @ slice bs 20 21 @ slice bs 21 22 @ slice bs 22 24"
    using assms one [of 5 4] one [of 6 5] one [of 21 20] one [of 22 21]
    by (simp add: wire_header_def header_of_def del: to_le.simps from_le.simps from_le_singleton)
  also have "\<dots> = slice bs 0 24"
    by (simp only: slices_glue append_assoc [symmetric])
  finally show ?thesis by simp
qed

lemma wire_sgl_of:
  assumes "length bs = 16"
  shows "wire_sgl (sgl_desc_of bs) = bs"
proof -
  have "wire_sgl (sgl_desc_of bs) = slice bs 0 8 @ slice bs 8 12 @ slice bs 12 15 @ slice bs 15 16"
    using assms slice_one [of 15 bs]
    by (simp add: wire_sgl_def sgl_desc_of_def del: to_le.simps)
  also have "\<dots> = slice bs 0 16"
    by (simp only: slices_glue append_assoc [symmetric])
  finally show ?thesis using assms by simp
qed

lemma length_of_chunks: "length bs = n * w \<Longrightarrow> x \<in> set (chunks w n bs) \<Longrightarrow> length x = w"
proof (induction n arbitrary: bs)
  case (Suc n)
  then show ?case using Suc.IH [of "drop w bs"] by auto
qed simp

lemma wf_tail_of: "length bs = n * (if u then 16 else 8) \<Longrightarrow> wf_tail u (tail_of u n bs)"
  by (auto simp: tail_of_def sgl_desc_of_def dest!: length_of_chunks)

lemma tail_len_tail_of [simp]: "tail_len (tail_of u n bs) = n"
  by (simp add: tail_of_def)

lemma wire_tail_of:
  assumes "length bs = n * (if u then 16 else 8)"
  shows "wire_tail (tail_of u n bs) = bs"
proof (cases u)
  case True
  then have "map (\<lambda>c. wire_sgl (sgl_desc_of c)) (chunks 16 n bs) = chunks 16 n bs"
    using assms by (auto intro!: map_idI wire_sgl_of dest: length_of_chunks)
  then show ?thesis
    using True assms concat_chunks [of bs n 16] by (simp add: tail_of_def comp_def)
next
  case False
  then have "map (\<lambda>c. to_le 8 (from_le c :: u64)) (chunks 8 n bs) = chunks 8 n bs"
    using assms by (auto intro!: map_idI to_le_from_le dest: length_of_chunks)
  then show ?thesis
    using False assms concat_chunks [of bs n 8] by (simp add: tail_of_def comp_def)
qed

lemma valid_submit_tail:
  assumes "valid_record bs" and "h_record_type (header_of bs) = NVME_TRACE_SUBMIT"
  shows "100 \<le> length bs"
    "length (drop 100 bs) = unat (f_nr_entries (submit_fixed_of (slice bs 24 100)))
       * (if f_use_sgl (submit_fixed_of (slice bs 24 100)) then 16 else 8)"
  using assms
  by (auto simp: valid_record_def record_fault_def Let_def expected_tail_len_def entry_len_def
      split: if_splits)

lemma valid_complete:
  assumes "valid_record bs" and "h_record_type (header_of bs) \<noteq> NVME_TRACE_SUBMIT"
  shows "length bs = 40" "h_record_type (header_of bs) = NVME_TRACE_COMPLETE"
  using assms by (auto simp: valid_record_def record_fault_def Let_def split: if_splits)

lemma record_header_record_of [simp]: "record_header (record_of bs) = header_of bs"
  by (simp add: record_of_def Let_def submit_into_record_def complete_into_record_def)

lemma wf_record_of:
  assumes "valid_record bs"
  shows "wf_record (record_of bs)"
proof (cases "h_record_type (header_of bs) = NVME_TRACE_SUBMIT")
  case True
  note vt = valid_submit_tail [OF assms True]
  from wf_tail_of [OF vt(2)] True vt(1) show ?thesis
    by (simp add: record_of_def Let_def submit_into_record_def) (simp add: submit_fixed_of_def)
next
  case False
  then show ?thesis
    using valid_complete [OF assms False]
    by (simp add: record_of_def Let_def complete_into_record_def)
qed

text \<open>
  The bytes the record structs do not keep: the two flag bytes as other than 0 or 1, and the
  reserved byte of a completion.
\<close>

definition canonical :: "byte list \<Rightarrow> bool" where
  "canonical bs \<longleftrightarrow>
     (if h_record_type (header_of bs) = NVME_TRACE_SUBMIT
      then bs ! 96 \<in> {0, 1} \<and> bs ! 97 \<in> {0, 1} else bs ! 39 = 0)"

lemma of_bool_flag: "x \<in> {0, 1} \<Longrightarrow> of_bool (x \<noteq> 0) = (x :: byte)"
  by auto

lemma wire_submit_fixed_into:
  assumes "length bs = 76" and "bs ! 72 \<in> {0, 1}" and "bs ! 73 \<in> {0, 1}"
  shows "wire_submit_fixed (submit_into_record (submit_fixed_of bs) h t) = bs"
proof -
  have "wire_submit_fixed (submit_into_record (submit_fixed_of bs) h t)
      = slice bs 0 64 @ slice bs 64 68 @ slice bs 68 72 @ slice bs 72 73 @ slice bs 73 74 @ slice bs 74 76"
    using assms slice_one [of 72 bs] slice_one [of 73 bs]
      of_bool_flag [OF assms(2)] of_bool_flag [OF assms(3)]
    by (simp add: wire_submit_fixed_def submit_into_record_def submit_fixed_of_def
        del: to_le.simps insert_iff singleton_iff)
  also have "\<dots> = slice bs 0 76"
    by (simp only: slices_glue append_assoc [symmetric])
  finally show ?thesis using assms by simp
qed

lemma wire_complete_payload_into:
  assumes "length bs = 16" and "bs ! 15 = 0"
  shows "wire_complete_payload (complete_into_record (complete_payload_of bs) h) = bs"
proof -
  have "wire_complete_payload (complete_into_record (complete_payload_of bs) h)
      = slice bs 0 8 @ slice bs 8 10 @ slice bs 10 12 @ slice bs 12 14 @ slice bs 14 15 @ slice bs 15 16"
    using assms slice_one [of 14 bs] slice_one [of 15 bs]
    by (simp add: wire_complete_payload_def complete_into_record_def complete_payload_of_def
        del: to_le.simps)
  also have "\<dots> = slice bs 0 16"
    by (simp only: slices_glue append_assoc [symmetric])
  finally show ?thesis using assms by simp
qed

lemma wire_record_of:
  assumes v: "valid_record bs" and c: "canonical bs"
  shows "wire_record (record_of bs) = bs"
proof (cases "h_record_type (header_of bs) = NVME_TRACE_SUBMIT")
  case True
  note vt = valid_submit_tail [OF v True]
  have flags: "slice bs 24 100 ! 72 \<in> {0, 1}" "slice bs 24 100 ! 73 \<in> {0, 1}"
    using c True vt(1) by (auto simp: canonical_def slice_def)
  have "wire_record (record_of bs) = take 24 bs @ slice bs 24 100 @ drop 100 bs"
    using True vt wire_header_of_header [of bs] wire_submit_fixed_into [OF _ flags] wire_tail_of [OF vt(2)]
    by (simp add: record_of_def Let_def)  (simp add: submit_into_record_def)
  also have "\<dots> = bs"
    by (simp add: slice_drop_glue)
  finally show ?thesis .
next
  case False
  note vc = valid_complete [OF v False]
  have "wire_record (record_of bs) = take 24 bs @ drop 24 bs"
    using False vc c wire_header_of_header [of bs] wire_complete_payload_into [of "drop 24 bs"]
    by (simp add: record_of_def Let_def canonical_def) (simp add: complete_into_record_def)
  then show ?thesis by simp
qed

section \<open>A family of records\<close>

text \<open>Completion records with given header fields, on which the model is evaluated.\<close>

definition sample_header :: "u64 \<Rightarrow> u32 \<Rightarrow> u8 \<Rightarrow> u8 \<Rightarrow> u16 \<Rightarrow> header" where
  "sample_header ts seq ctrl qid cid =
     \<lparr>h_magic = NVME_TRACE_MAGIC, h_version = NVME_TRACE_VERSION,
      h_record_type = NVME_TRACE_COMPLETE, h_len = 40, h_timestamp_ns = ts, h_seq = seq,
      h_ctrl_id = ctrl, h_qid = qid, h_cid = cid\<rparr>"

definition sample_complete :: "header \<Rightarrow> trace_record" where
  "sample_complete h = Complete \<lparr>c_header = h, c_result = 0, c_sq_head = 0, c_sq_id = 0, c_status = 0,
     c_retries = 0\<rparr>"

definition sample_bytes :: "header \<Rightarrow> byte list" where
  "sample_bytes h = wire_record (sample_complete h)"

lemma header_of_sample [simp]: "header_of (sample_bytes h) = h"
  by (simp add: sample_bytes_def sample_complete_def)

lemma length_sample [simp]: "length (sample_bytes h) = 40"
  by (simp add: sample_bytes_def sample_complete_def)

lemma valid_sample [simp]: "valid_record (sample_bytes (sample_header ts seq ctrl qid cid))"
  unfolding sample_bytes_def
  by (rule valid_wire) (simp_all add: sample_complete_def sample_header_def wf_header_def)

lemma sample_header_sel [simp]:
  "h_timestamp_ns (sample_header ts seq ctrl qid cid) = ts" "h_seq (sample_header ts seq ctrl qid cid) = seq"
  "h_ctrl_id (sample_header ts seq ctrl qid cid) = ctrl" "h_qid (sample_header ts seq ctrl qid cid) = qid"
  "h_cid (sample_header ts seq ctrl qid cid) = cid"
  by (simp_all add: sample_header_def)

text \<open>A submit record with two PRP entries.\<close>

definition sample_submit :: submit_record where
  "sample_submit =
     \<lparr>s_header = (sample_header 5 1 0 1 3)\<lparr>h_record_type := NVME_TRACE_SUBMIT, h_len := 116\<rparr>,
      s_sqe = replicate 64 2, s_data_len = 8192, s_meta_len = 0, s_use_sgl = False,
      s_single_segment = True, s_nr_entries = 2, s_tail = Prp [0x1000, 0x2000]\<rparr>"

lemma sample_submit_wf:
  "wf_record (Submit sample_submit)"
  "wf_header (record_header (Submit sample_submit)) (length (wire_record (Submit sample_submit)))"
  by (simp_all add: sample_submit_def wf_header_def sample_header_def wire_submit_fixed_def)

section \<open>Properties\<close>

text \<open>
  C8. Round trip: \<open>parse\_record\_bytes\<close> of the documented encoding of a well-formed record
  returns this record, with its header, its bytes and the offset it was given.
\<close>

theorem parse_wire_record:
  assumes "binrw_le br" and "wf_record r" and "wf_header (record_header r) (length (wire_record r))"
  shows "parse_record_bytes br (wire_record r) offset =
    Inr \<lparr>raw_header = record_header r, raw_record = r, raw_bytes = wire_record r, raw_offset = offset\<rparr>"
  using parse_valid [OF assms(1) valid_wire [OF assms(2,3)]] record_of_wire [OF assms(2)]
  by (simp add: raw_of_def)

lemma parse_wire_record_witness:
  "parse_record_bytes le_binrw (wire_record (Submit sample_submit)) 7 =
    Inr \<lparr>raw_header = s_header sample_submit, raw_record = Submit sample_submit,
         raw_bytes = wire_record (Submit sample_submit), raw_offset = 7\<rparr>"
  using parse_wire_record [OF binrw_le_le_binrw sample_submit_wf, of 7] by simp

text \<open>
  C34. What a successful parse returns: a well-formed record under the header of the bytes, whose
  length field is the number of bytes; and re-encoding it gives the bytes back, up to the flag
  and reserved bytes the structs do not keep.
\<close>

theorem parse_result_well_formed:
  assumes "binrw_le br" and "parse_record_bytes br bs offset = Inr raw"
  shows "wf_record (raw_record raw) \<and> wf_header (raw_header raw) (length bs)
    \<and> record_header (raw_record raw) = raw_header raw \<and> raw_bytes raw = bs \<and> raw_offset raw = offset
    \<and> (canonical bs \<longrightarrow> wire_record (raw_record raw) = bs)"
proof -
  have v: "valid_record bs" and raw: "raw = raw_of bs offset"
    using assms parse_Inr_iff by blast+
  then show ?thesis
    using wf_record_of [OF v] wire_record_of [OF v] valid_record_header [OF v]
    by (simp add: raw_of_def wf_header_def)
qed

lemma parse_result_well_formed_witness:
  "wf_record (sample_complete (sample_header 9 4 1 2 3)) \<and> canonical (sample_bytes (sample_header 9 4 1 2 3))"
proof -
  let ?bs = "sample_bytes (sample_header 9 4 1 2 3)"
  have "parse_record_bytes le_binrw ?bs 0 = Inr (raw_of ?bs 0)"
    by (simp add: parse_valid)
  moreover have "raw_record (raw_of ?bs 0) = sample_complete (sample_header 9 4 1 2 3)"
    using record_of_wire [of "sample_complete (sample_header 9 4 1 2 3)"]
    by (simp add: raw_of_def sample_bytes_def) (simp add: sample_complete_def sample_header_def)
  moreover have "canonical ?bs" by code_simp
  ultimately show ?thesis
    using parse_result_well_formed [OF binrw_le_le_binrw, of ?bs 0] by auto
qed

text \<open>
  C7. The parser decides by the layout alone, with one error per fault, in the order of its checks:
  length, magic, version, declared length, then the record type's own length rules. It never
  reaches binrw's own errors (\<open>Parse\<close>), so no malformed input surfaces as one.
\<close>

theorem parse_decides_by_layout:
  assumes "binrw_le br"
  shows "parse_record_bytes br bs offset =
      (case record_fault bs offset of None \<Rightarrow> Inr (raw_of bs offset) | Some e \<Rightarrow> Inl e)
    \<and> (\<forall>off err. parse_record_bytes br bs offset \<noteq> Inl (Parse off err))"
  unfolding parse_record_bytes_eq [OF assms]
  by (auto simp: record_fault_def Let_def split: if_splits)

lemma parse_decides_by_layout_witness:
  "parse_record_bytes le_binrw [1, 2, 3] 4 = Inl (TruncatedHeader 4 3)"
  using parse_decides_by_layout [OF binrw_le_le_binrw, of "[1, 2, 3]" 4]
  by (simp add: record_fault_def)

end
