(* ===== verification/Record_Reader.thy ===== *)
theory Record_Reader
  imports Trace_Wire
begin

text \<open>
  \<open>RecordReader\<close> of \<open>lib.rs\<close> over any \<open>Read\<close>. A source is a script of what its successive
  \<open>read\<close> calls deliver, so short reads, interrupted calls and I/O errors are all inputs of the
  model. The abstract counterpart, \<open>parse_stream\<close>, splits the byte string itself.
\<close>

section \<open>Sources\<close>

text \<open>
  \<open>Data c\<close>: bytes that are ready (a call takes as many as its buffer holds; \<open>Data []\<close> is a call
  that returns \<open>Ok(0)\<close>); \<open>Fails e\<close>: a call that returns \<open>Err(e)\<close>. After the script, end of file.
\<close>

datatype read_event = Data "byte list" | Fails io_error

type_synonym source = "read_event list"

fun read_call :: "source \<Rightarrow> nat \<Rightarrow> (io_error + byte list) \<times> source" where
  "read_call [] n = (Inr [], [])"
| "read_call (Fails e # s) n = (Inl e, s)"
| "read_call (Data c # s) n =
     (if length c \<le> n then (Inr c, s) else (Inr (take n c), Data (drop n c) # s))"

primrec event_size :: "read_event \<Rightarrow> nat" where
  "event_size (Data c) = Suc (length c)"
| "event_size (Fails e) = 1"

definition source_size :: "source \<Rightarrow> nat" where
  "source_size s = sum_list (map event_size s)"

lemma source_size_simps [simp]:
  "source_size [] = 0" "source_size (ev # s) = event_size ev + source_size s"
  by (simp_all add: source_size_def)

lemma read_call_Inl_size: "read_call s n = (Inl e, s') \<Longrightarrow> source_size s' < source_size s"
  by (induction s n rule: read_call.induct) (auto split: if_splits)

lemma read_call_Inr_size:
  "read_call s n = (Inr bs, s') \<Longrightarrow> source_size s' \<le> source_size s - length bs \<and> length bs \<le> source_size s"
  by (induction s n rule: read_call.induct) (auto split: if_splits)

section \<open>read\_exact\_or\_eof\<close>

text \<open>
  The loop fills a buffer of \<open>n\<close> bytes; the model returns the filled part, whose length is the
  value the code returns.
\<close>

function read_exact_or_eof :: "source \<Rightarrow> nat \<Rightarrow> (io_error + byte list) \<times> source" where
  "read_exact_or_eof s n =
     (if n = 0 then (Inr [], s)
      else case read_call s n of
        (Inr bs, s') \<Rightarrow>
          if bs = [] then (Inr [], s')
          else (case read_exact_or_eof s' (n - length bs) of
              (Inr rest, s'') \<Rightarrow> (Inr (bs @ rest), s'')
            | (Inl e, s'') \<Rightarrow> (Inl e, s''))
      | (Inl e, s') \<Rightarrow>
          if io_kind e = Interrupted then read_exact_or_eof s' n else (Inl e, s'))"
  by pat_completeness auto
termination
  by (relation "measure (\<lambda>(s, n). source_size s)")
    (auto simp: neq_Nil_conv dest!: read_call_Inl_size [OF sym] read_call_Inr_size [OF sym])

declare read_exact_or_eof.simps [simp del]

lemma read_exact_size:
  "read_exact_or_eof s n = (res, s') \<Longrightarrow>
     source_size s' \<le> source_size s \<and> (\<forall>bs. res = Inr bs \<and> bs \<noteq> [] \<longrightarrow> source_size s' < source_size s)"
proof (induction s n arbitrary: res s' rule: read_exact_or_eof.induct)
  case (1 s n)
  show ?case
  proof (cases "n = 0")
    case True
    with "1.prems" show ?thesis by (subst (asm) read_exact_or_eof.simps) auto
  next
    case False
    obtain r s1 where rc: "read_call s n = (r, s1)" by (cases "read_call s n")
    show ?thesis
    proof (cases r)
      case (Inl e)
      show ?thesis
      proof (cases "io_kind e = Interrupted")
        case True
        then have "read_exact_or_eof s1 n = (res, s')"
          using "1.prems" False rc Inl by (subst (asm) read_exact_or_eof.simps) simp
        from "1.IH"(1) [OF False rc [symmetric] Inl True this] show ?thesis
          using read_call_Inl_size [of s n e s1] rc Inl by auto
      next
        case no_retry: False
        then show ?thesis
          using "1.prems" False rc Inl read_call_Inl_size [of s n e s1]
          by (subst (asm) read_exact_or_eof.simps) auto
      qed
    next
      case (Inr bs)
      show ?thesis
      proof (cases "bs = []")
        case True
        with "1.prems" False rc Inr read_call_Inr_size [of s n bs s1] show ?thesis
          by (subst (asm) read_exact_or_eof.simps) auto
      next
        case nonempty: False
        obtain r2 s2 where rec: "read_exact_or_eof s1 (n - length bs) = (r2, s2)"
          by (cases "read_exact_or_eof s1 (n - length bs)")
        from "1.IH"(2) [OF False rc [symmetric] Inr nonempty rec]
        have "source_size s2 \<le> source_size s1" by blast
        moreover have "source_size s1 < source_size s"
          using read_call_Inr_size [of s n bs s1] rc Inr nonempty by (cases bs) auto
        moreover have "s' = s2"
          using "1.prems" False rc Inr nonempty rec
          by (subst (asm) read_exact_or_eof.simps) (auto split: sum.splits)
        ultimately show ?thesis by simp
      qed
    qed
  qed
qed

section \<open>RecordReader\<close>

record reader =
  r_inner :: source
  r_offset :: u64

definition reader_new :: "source \<Rightarrow> reader" where
  "reader_new inner = \<lparr>r_inner = inner, r_offset = 0\<rparr>"

definition next_record ::
  "'e binrw \<Rightarrow> reader \<Rightarrow> ('e trace_error + raw_record option) \<times> reader" where
  "next_record br r =
     (let offset = r_offset r in
      case read_exact_or_eof (r_inner r) HEADER_LEN of
        (Inl e, s) \<Rightarrow> (Inl (Io e), r\<lparr>r_inner := s\<rparr>)
      | (Inr header_bytes, s) \<Rightarrow>
        let got = length header_bytes in
        if got = 0 then (Inr None, r\<lparr>r_inner := s\<rparr>)
        else if got \<noteq> HEADER_LEN
        then (Inl (TruncatedHeader offset got), r\<lparr>r_inner := s, r_offset := offset + of_nat got\<rparr>)
        else case parse_header br header_bytes offset of
          Inl e \<Rightarrow> (Inl e, r\<lparr>r_inner := s\<rparr>)
        | Inr header \<Rightarrow>
          let len = unat (h_len header) in
          if len < HEADER_LEN
          then (Inl (InvalidLength offset (h_record_type header) len
                  ''record length is smaller than the header''), r\<lparr>r_inner := s\<rparr>)
          else let payload_len = len - HEADER_LEN in
            case read_exact_or_eof s payload_len of
              (Inl e, s2) \<Rightarrow> (Inl (Io e), r\<lparr>r_inner := s2\<rparr>)
            | (Inr payload, s2) \<Rightarrow>
              if length payload \<noteq> payload_len
              then (Inl (TruncatedPayload offset payload_len (length payload)),
                    r\<lparr>r_inner := s2,
                      r_offset := offset + (of_nat HEADER_LEN + of_nat (length payload))\<rparr>)
              else case parse_record_bytes br (header_bytes @ payload) offset of
                Inl e \<Rightarrow> (Inl e, r\<lparr>r_inner := s2\<rparr>)
              | Inr record \<Rightarrow>
                  (Inr (Some record), r\<lparr>r_inner := s2, r_offset := offset + of_nat len\<rparr>))"

lemma next_record_size:
  assumes "next_record br r = (Inr (Some raw), r')"
  shows "source_size (r_inner r') < source_size (r_inner r)"
proof -
  obtain res s where h: "read_exact_or_eof (r_inner r) 24 = (res, s)"
    by (cases "read_exact_or_eof (r_inner r) 24")
  then obtain hb where hb: "res = Inr hb" "hb \<noteq> []"
    using assms by (cases res) (auto simp: next_record_def Let_def split: if_splits)
  then obtain hd where hd: "parse_header br hb (r_offset r) = Inr hd"
    using assms h by (auto simp: next_record_def Let_def split: if_splits sum.splits)
  obtain res2 s2 where p: "read_exact_or_eof s (unat (h_len hd) - 24) = (res2, s2)"
    by (cases "read_exact_or_eof s (unat (h_len hd) - 24)")
  have "r_inner r' = s2"
    using assms h hb hd p
    by (auto simp: next_record_def Let_def split: if_splits sum.splits)
  then show ?thesis
    using read_exact_size [OF h] read_exact_size [OF p] hb by fastforce
qed

text \<open>
  The loop \<open>while let Some(raw) = reader.next\_record()?\<close>: the records read before the end or the
  first error, that error, and the reader left.
\<close>

function drain_records ::
  "'e binrw \<Rightarrow> reader \<Rightarrow> raw_record list \<times> 'e trace_error option \<times> reader" where
  "drain_records br r =
     (case next_record br r of
        (Inl e, r') \<Rightarrow> ([], Some e, r')
      | (Inr None, r') \<Rightarrow> ([], None, r')
      | (Inr (Some raw), r') \<Rightarrow>
          let (raws, e, r'') = drain_records br r' in (raw # raws, e, r''))"
  by pat_completeness auto
termination
  by (relation "measure (\<lambda>(br, r). source_size (r_inner r))") (auto dest: next_record_size [OF sym])

declare drain_records.simps [simp del]

end
