(* ===== verification/Input_Paths.thy ===== *)
theory Input_Paths
  imports Record_Reader "HOL-Library.Option_ord" "HOL-Library.Product_Lexorder"
    "HOL-Library.List_Lexorder" "HOL-Library.Char_ord"
begin

text \<open>
  The input files of a command (\<open>main.rs\<close>): arguments that are directories are expanded to the
  per-CPU captures in them, and all files are sorted by CPU number, then by path. A path is its
  text; the file system is given by what its queries answer.
\<close>

section \<open>Paths and the file system\<close>

type_synonym path = string

text \<open>
  \<open>Path::components\<close> without the root: repeated separators and \<open>.\<close> are skipped. \<open>file\_name\<close> is
  the last component unless it is \<open>..\<close>.
\<close>

definition path_components :: "path \<Rightarrow> string list" where
  "path_components p = filter (\<lambda>c. c \<noteq> [] \<and> c \<noteq> ''.'') (split_on (CHR ''/'') p)"

definition file_name :: "path \<Rightarrow> string option" where
  "file_name p =
     (let cs = path_components p in if cs = [] \<or> last cs = ''..'' then None else Some (last cs))"

text \<open>\<open>entry?\<close> in a directory may fail, so a listing is a list of results.\<close>

record file_system =
  fs_is_dir :: "path \<Rightarrow> bool"
  fs_is_file :: "path \<Rightarrow> bool"
  fs_read_dir :: "path \<Rightarrow> io_error + (io_error + path) list"
  fs_open :: "path \<Rightarrow> io_error + source"

datatype 'e command_error =
    Reading path io_error
  | Entry io_error
  | NoInputFiles
  | Opening path io_error
  | Parsing path "'e trace_error"
  | Writing io_error
  | CreatingDir path io_error
  | Creating path io_error
  | Flushing path io_error
  | Splicing "'e trace_error"

section \<open>CPU numbers in file names\<close>

definition parse_cpu_bin :: "string \<Rightarrow> nat option" where
  "parse_cpu_bin name =
     Option.bind (strip_prefix ''cpu'' name) (\<lambda>rest.
     Option.bind (strip_suffix ''.bin'' rest) (\<lambda>suffix.
       if suffix = [] \<or> \<not> list_all is_digit suffix then None
       else parse_uint (2 ^ 32 - 1) suffix))"

definition sort_input_path :: "path \<Rightarrow> nat option \<times> string" where
  "sort_input_path p = (parse_cpu_bin (case file_name p of None \<Rightarrow> [] | Some n \<Rightarrow> n), p)"

section \<open>Expansion\<close>

fun collect_entries :: "file_system \<Rightarrow> (io_error + path) list \<Rightarrow> 'e command_error + path list" where
  "collect_entries fs [] = Inr []"
| "collect_entries fs (Inl e # es) = Inl (Entry e)"
| "collect_entries fs (Inr p # es) =
     (let keep = (fs_is_file fs p \<and> (case file_name p of None \<Rightarrow> False | Some n \<Rightarrow> parse_cpu_bin n \<noteq> None))
      in try_bind (collect_entries fs es) (\<lambda>files. Inr (if keep then p # files else files)))"

definition expand_trace_dir :: "file_system \<Rightarrow> path \<Rightarrow> 'e command_error + path list" where
  "expand_trace_dir fs dir =
     (case fs_read_dir fs dir of
        Inl e \<Rightarrow> Inl (Reading dir e)
      | Inr entries \<Rightarrow> try_bind (collect_entries fs entries) (\<lambda>files. Inr (sort_key sort_input_path files)))"

fun expand_inputs :: "file_system \<Rightarrow> path list \<Rightarrow> 'e command_error + path list" where
  "expand_inputs fs [] = Inr []"
| "expand_inputs fs (input # inputs) =
     try_bind (if fs_is_dir fs input then expand_trace_dir fs input else Inr [input]) (\<lambda>files.
     try_bind (expand_inputs fs inputs) (\<lambda>rest. Inr (files @ rest)))"

definition expand_input_paths :: "file_system \<Rightarrow> path list \<Rightarrow> 'e command_error + path list" where
  "expand_input_paths fs inputs =
     try_bind (expand_inputs fs inputs) (\<lambda>files. Inr (sort_key sort_input_path files))"

section \<open>Facts\<close>

lemma strip_suffix_append [simp]: "strip_suffix p (s @ p) = Some s"
  by simp

text \<open>The names the capture gives its outputs.\<close>

definition cpu_bin_name :: "nat \<Rightarrow> string" where
  "cpu_bin_name cpu = ''cpu'' @ show_nat cpu @ ''.bin''"

lemma parse_cpu_bin_name: "parse_cpu_bin (cpu_bin_name n) = (if n < 2 ^ 32 then Some n else None)"
  using show_nat_digits [of n] strip_suffix_append [of "''.bin''" "show_nat n"]
  by (simp add: parse_cpu_bin_def cpu_bin_name_def parse_show_nat del: strip_suffix_append strip_suffix_Some)

lemma parse_cpu_bin_iff:
  "parse_cpu_bin name = Some n \<longleftrightarrow>
     (\<exists>ds. name = ''cpu'' @ ds @ ''.bin'' \<and> ds \<noteq> [] \<and> list_all is_digit ds \<and> digits_val ds 0 = n \<and> n < 2 ^ 32)"
proof -
  have num: "parse_uint (2 ^ 32 - 1) ds = Some n \<longleftrightarrow> digits_val ds 0 = n \<and> n < 2 ^ 32"
    if "ds \<noteq> []" "list_all is_digit ds" for ds
    using that by (cases ds) (auto simp: parse_uint_def not_digit_plus)
  show ?thesis
  proof
    assume "parse_cpu_bin name = Some n"
    then obtain ds where "name = ''cpu'' @ ds @ ''.bin''" "ds \<noteq> []" "list_all is_digit ds"
      "parse_uint (2 ^ 32 - 1) ds = Some n"
      by (auto simp: parse_cpu_bin_def bind_eq_Some_conv split: if_splits)
    then show "\<exists>ds. name = ''cpu'' @ ds @ ''.bin'' \<and> ds \<noteq> [] \<and> list_all is_digit ds \<and> digits_val ds 0 = n \<and> n < 2 ^ 32"
      using num by blast
  next
    assume "\<exists>ds. name = ''cpu'' @ ds @ ''.bin'' \<and> ds \<noteq> [] \<and> list_all is_digit ds \<and> digits_val ds 0 = n \<and> n < 2 ^ 32"
    then obtain ds where ds: "name = ''cpu'' @ ds @ ''.bin''" "ds \<noteq> []" "list_all is_digit ds"
      "digits_val ds 0 = n" "n < 2 ^ 32" by blast
    have "strip_suffix ''.bin'' (ds @ ''.bin'') = Some ds" by (rule strip_suffix_append)
    then show "parse_cpu_bin name = Some n"
      using num ds by (simp add: parse_cpu_bin_def del: strip_suffix_append strip_suffix_Some)
  qed
qed

text \<open>A file in a directory is known by its own name.\<close>

lemma file_name_join:
  assumes "CHR ''/'' \<notin> set n" and "n \<noteq> []" and "n \<noteq> ''.''" and "n \<noteq> ''..''"
  shows "file_name (d @ ''/'' @ n) = Some n"
  using assms split_on_last [of _ n d] by (simp add: file_name_def path_components_def)

lemma digits_no_slash: "list_all is_digit ds \<Longrightarrow> CHR ''/'' \<notin> set ds"
  by (auto simp: list_all_iff is_digit_def)

lemma collect_entries_result:
  "collect_entries fs es = Inr files \<longleftrightarrow>
     (\<forall>e \<in> set es. \<not> isl e) \<and> files = filter (\<lambda>p. fs_is_file fs p
        \<and> (case file_name p of None \<Rightarrow> False | Some n \<Rightarrow> parse_cpu_bin n \<noteq> None)) (map projr es)"
proof (induction es arbitrary: files)
  case (Cons e es)
  show ?case
  proof (cases e)
    case (Inr p)
    then show ?thesis
      using Cons by (auto simp: Let_def try_bind_Inr)
  qed simp
qed auto

section \<open>Properties\<close>

text \<open>
  A file in a directory is taken as the capture of CPU \<open>n\<close> exactly when its name is \<open>cpu\<close>,
  decimal digits of the value \<open>n\<close> below \<open>2 ^ 32\<close>, and \<open>.bin\<close>; the names the capture writes are
  among them, for every CPU.
\<close>

theorem cpu_bin_names_recognised:
  "(parse_cpu_bin name = Some n \<longleftrightarrow>
     (\<exists>ds. name = ''cpu'' @ ds @ ''.bin'' \<and> ds \<noteq> [] \<and> list_all is_digit ds \<and> digits_val ds 0 = n \<and> n < 2 ^ 32))
   \<and> parse_cpu_bin (cpu_bin_name cpu) = (if cpu < 2 ^ 32 then Some cpu else None)"
  using parse_cpu_bin_iff parse_cpu_bin_name by blast

text \<open>
  C38. Expanding a directory gives exactly its regular files with such names, each once, in the
  order of their CPU numbers as numbers.
\<close>

theorem expand_dir_sorts_by_cpu:
  assumes "expand_trace_dir fs dir = Inr files"
  shows "\<exists>entries. fs_read_dir fs dir = Inr (map Inr entries)
    \<and> mset files = mset (filter (\<lambda>p. fs_is_file fs p
         \<and> (\<exists>n cpu. file_name p = Some n \<and> parse_cpu_bin n = Some cpu)) entries)
    \<and> sorted (map (\<lambda>p. the (parse_cpu_bin (the (file_name p)))) files)"
proof -
  obtain es fs0 where es: "fs_read_dir fs dir = Inr es" and c: "collect_entries fs es = (Inr fs0 :: 'a command_error + path list)"
    and files: "files = sort_key sort_input_path fs0"
    using assms by (auto simp: expand_trace_dir_def try_bind_Inr split: sum.splits)
  have ok: "\<forall>e \<in> set es. \<not> isl e"
    and fs0: "fs0 = filter (\<lambda>p. fs_is_file fs p
        \<and> (case file_name p of None \<Rightarrow> False | Some n \<Rightarrow> parse_cpu_bin n \<noteq> None)) (map projr es)"
    using c by (auto simp: collect_entries_result)
  have "es = map Inr (map projr es)"
    using ok by (auto simp: map_idI sum.collapse(2))
  have known: "\<forall>p \<in> set files. \<exists>n cpu. file_name p = Some n \<and> parse_cpu_bin n = Some cpu"
    by (auto simp: files fs0 split: option.splits)
  have "sorted (map sort_input_path files)" by (simp add: files)
  then have "sorted (map (\<lambda>p. the (parse_cpu_bin (the (file_name p)))) files)"
    unfolding sorted_map
  proof (rule sorted_wrt_mono_rel [rotated])
    fix p q assume "p \<in> set files" "q \<in> set files" and le: "sort_input_path p \<le> sort_input_path q"
    then obtain np cp nq cq where "file_name p = Some np" "parse_cpu_bin np = Some cp"
      "file_name q = Some nq" "parse_cpu_bin nq = Some cq" using known by meson
    then show "the (parse_cpu_bin (the (file_name p))) \<le> the (parse_cpu_bin (the (file_name q)))"
      using le by (auto simp: sort_input_path_def less_eq_prod_def)
  qed
  moreover have "mset files = mset (filter (\<lambda>p. fs_is_file fs p
         \<and> (\<exists>n cpu. file_name p = Some n \<and> parse_cpu_bin n = Some cpu)) (map projr es))"
    unfolding files fs0 mset_sort by (intro arg_cong [where f = mset] filter_cong) (auto split: option.splits)
  ultimately show ?thesis
    using es \<open>es = map Inr (map projr es)\<close> by (intro exI [of _ "map projr es"]) simp
qed

definition two_cpu_fs :: file_system where
  "two_cpu_fs = \<lparr>fs_is_dir = (\<lambda>p. p = ''d''), fs_is_file = (\<lambda>p. p \<noteq> ''d''),
     fs_read_dir = (\<lambda>p. Inr [Inr ''d/cpu10.bin'', Inr ''d/notes'', Inr ''d/cpu2.bin'']),
     fs_open = (\<lambda>p. Inr [])\<rparr>"

lemma expand_two_cpus: "expand_trace_dir two_cpu_fs ''d'' = (Inr [''d/cpu2.bin'', ''d/cpu10.bin''] :: unit command_error + path list)"
proof -
  have names: "file_name ''d/cpu10.bin'' = Some ''cpu10.bin''" "file_name ''d/cpu2.bin'' = Some ''cpu2.bin''"
    "file_name ''d/notes'' = Some ''notes''" by code_simp+
  have "cpu_bin_name 10 = ''cpu10.bin''" "cpu_bin_name 2 = ''cpu2.bin''" by code_simp+
  then have cpus: "parse_cpu_bin ''cpu10.bin'' = Some 10" "parse_cpu_bin ''cpu2.bin'' = Some 2"
    using parse_cpu_bin_name [of 10] parse_cpu_bin_name [of 2] by simp_all
  have "parse_cpu_bin ''notes'' = None" by (simp add: parse_cpu_bin_def)
  note cpus = cpus this
  show ?thesis
    by (simp add: expand_trace_dir_def two_cpu_fs_def names cpus sort_input_path_def Let_def)
qed

lemma expand_dir_sorts_by_cpu_witness:
  "mset [''d/cpu2.bin'', ''d/cpu10.bin''] \<subseteq># mset [''d/cpu10.bin'', ''d/notes'', ''d/cpu2.bin'']
   \<and> sorted (map (\<lambda>p. the (parse_cpu_bin (the (file_name p)))) [''d/cpu2.bin'', ''d/cpu10.bin''])"
  using expand_dir_sorts_by_cpu [OF expand_two_cpus] by (auto simp: two_cpu_fs_def)

end
