(* ===== verification/Ftrace_Format.thy ===== *)
theory Ftrace_Format
  imports Input_Paths
begin

text \<open>
  The format files of ftrace events (\<open>ftrace.rs\<close>): the offset of a field in the data of an event,
  as declared in the text of the file, and the offset tables of the two NVMe events.
\<close>

section \<open>Offset tables\<close>

record submit_format =
  sf_ctrl_id :: nat
  sf_qid :: nat
  sf_cid :: nat
  sf_data_len :: nat
  sf_meta_len :: nat
  sf_use_sgl :: nat
  sf_single_segment :: nat
  sf_sqe :: nat
  sf_descriptors_dataloc :: nat

record complete_format =
  cf_ctrl_id :: nat
  cf_qid :: nat
  cf_cid :: nat
  cf_result :: nat
  cf_sq_head :: nat
  cf_sq_id :: nat
  cf_status :: nat
  cf_retries :: nat

section \<open>The offset of a field\<close>

text \<open>The first part that is an offset, with its text; \<open>usize\<close> has 64 bits.\<close>

fun find_offset :: "string list \<Rightarrow> string option" where
  "find_offset [] = None"
| "find_offset (part # parts) =
     (case strip_prefix ''offset:'' (trim part) of Some v \<Rightarrow> Some v | None \<Rightarrow> find_offset parts)"

text \<open>
  The loop over the lines. A line that begins with \<open>field:\<close> but has no last word ends the search
  without a result, as the operator \<open>?\<close> does; so does an offset that is no number.
\<close>

fun field_offset_in :: "string \<Rightarrow> string list \<Rightarrow> nat option" where
  "field_offset_in field_name [] = None"
| "field_offset_in field_name (raw # rest) =
     (let line = trim raw in
      if \<not> starts_with ''field:'' line then field_offset_in field_name rest
      else Option.bind (strip_prefix ''field:'' (hd (split_on (CHR '';'') line))) (\<lambda>decl.
        let words = split_whitespace decl in
        if words = [] then None
        else if hd (split_on (CHR ''['') (last words)) \<noteq> field_name then field_offset_in field_name rest
        else (case find_offset (split_on (CHR '';'') line) of
                Some v \<Rightarrow> parse_uint (2 ^ 64 - 1) (trim v)
              | None \<Rightarrow> field_offset_in field_name rest)))"

definition format_field_offset :: "string \<Rightarrow> string \<Rightarrow> nat option" where
  "format_field_offset content field_name = field_offset_in field_name (lines content)"

section \<open>The tables of the two events\<close>

datatype format_error = FieldNotFound string string

definition require_offset :: "string \<Rightarrow> string \<Rightarrow> string \<Rightarrow> format_error + nat" where
  "require_offset content field event =
     (case format_field_offset content field of
        Some n \<Rightarrow> Inr n | None \<Rightarrow> Inl (FieldNotFound field event))"

definition submit_format_of :: "string \<Rightarrow> format_error + submit_format" where
  "submit_format_of c =
     (let ev = ''nvme_pci_submit'' in
      try_bind (require_offset c ''ctrl_id'' ev) (\<lambda>ctrl_id.
      try_bind (require_offset c ''qid'' ev) (\<lambda>qid.
      try_bind (require_offset c ''cid'' ev) (\<lambda>cid.
      try_bind (require_offset c ''data_len'' ev) (\<lambda>data_len.
      try_bind (require_offset c ''meta_len'' ev) (\<lambda>meta_len.
      try_bind (require_offset c ''use_sgl'' ev) (\<lambda>use_sgl.
      try_bind (require_offset c ''single_segment'' ev) (\<lambda>single_segment.
      try_bind (require_offset c ''sqe'' ev) (\<lambda>sqe.
      try_bind (require_offset c ''descriptors'' ev) (\<lambda>descriptors_dataloc.
        Inr \<lparr>sf_ctrl_id = ctrl_id, sf_qid = qid, sf_cid = cid, sf_data_len = data_len,
             sf_meta_len = meta_len, sf_use_sgl = use_sgl, sf_single_segment = single_segment,
             sf_sqe = sqe, sf_descriptors_dataloc = descriptors_dataloc\<rparr>))))))))))"

definition complete_format_of :: "string \<Rightarrow> format_error + complete_format" where
  "complete_format_of c =
     (let ev = ''nvme_pci_complete'' in
      try_bind (require_offset c ''ctrl_id'' ev) (\<lambda>ctrl_id.
      try_bind (require_offset c ''qid'' ev) (\<lambda>qid.
      try_bind (require_offset c ''cid'' ev) (\<lambda>cid.
      try_bind (require_offset c ''result'' ev) (\<lambda>result.
      try_bind (require_offset c ''sq_head'' ev) (\<lambda>sq_head.
      try_bind (require_offset c ''sq_id'' ev) (\<lambda>sq_id.
      try_bind (require_offset c ''status'' ev) (\<lambda>status.
      try_bind (require_offset c ''retries'' ev) (\<lambda>retries.
        Inr \<lparr>cf_ctrl_id = ctrl_id, cf_qid = qid, cf_cid = cid, cf_result = result,
             cf_sq_head = sq_head, cf_sq_id = sq_id, cf_status = status, cf_retries = retries\<rparr>)))))))))"

section \<open>The files as ftrace writes them\<close>

text \<open>
  A line that declares a field: its type, name, array bounds, offset and the rest; and a file:
  field lines among other lines.
\<close>

record format_field =
  ff_type :: string
  ff_name :: string
  ff_bounds :: string
  ff_offset :: nat
  ff_rest :: string

abbreviation tab_char :: char where "tab_char \<equiv> char_of (9 :: nat)"
abbreviation newline_char :: char where "newline_char \<equiv> char_of (10 :: nat)"

definition field_decl :: "format_field \<Rightarrow> string" where
  "field_decl f = ff_type f @ '' '' @ ff_name f @ ff_bounds f"

definition field_line :: "format_field \<Rightarrow> string" where
  "field_line f = tab_char # ''field:'' @ field_decl f @ '';'' @ tab_char # ''offset:'' @ show_nat (ff_offset f)
     @ '';'' @ ff_rest f @ '';''"

definition plain :: "string \<Rightarrow> bool" where
  "plain s \<longleftrightarrow> newline_char \<notin> set s \<and> char_of (13 :: nat) \<notin> set s"

definition wf_field :: "format_field \<Rightarrow> bool" where
  "wf_field f \<longleftrightarrow> plain (ff_type f) \<and> CHR '';'' \<notin> set (ff_type f) \<and> plain (ff_rest f)
     \<and> ff_name f \<noteq> [] \<and> (\<forall>c \<in> set (ff_name f). \<not> is_space c \<and> c \<noteq> CHR '';'' \<and> c \<noteq> CHR ''['')
     \<and> (\<forall>c \<in> set (ff_bounds f). \<not> is_space c \<and> c \<noteq> CHR '';'')
     \<and> (ff_bounds f = [] \<or> hd (ff_bounds f) = CHR ''['')
     \<and> ff_offset f < 2 ^ 64"

definition other_line :: "string \<Rightarrow> bool" where
  "other_line s \<longleftrightarrow> plain s \<and> \<not> starts_with ''field:'' (trim s)"

fun line_text :: "string + format_field \<Rightarrow> string" where
  "line_text (Inl s) = s"
| "line_text (Inr f) = field_line f"

fun wf_line :: "string + format_field \<Rightarrow> bool" where
  "wf_line (Inl s) = other_line s"
| "wf_line (Inr f) = wf_field f"

definition format_text :: "(string + format_field) list \<Rightarrow> string" where
  "format_text ls = concat (map (\<lambda>l. line_text l @ [newline_char]) ls)"

fun declared_offset :: "string \<Rightarrow> (string + format_field) list \<Rightarrow> nat option" where
  "declared_offset name [] = None"
| "declared_offset name (Inl s # ls) = declared_offset name ls"
| "declared_offset name (Inr f # ls) = (if ff_name f = name then Some (ff_offset f) else declared_offset name ls)"

lemma spaces: "is_space tab_char" "\<not> is_space (CHR ''f'')" "\<not> is_space (CHR '';'')" "is_space (CHR '' '')"
  "\<not> is_space (CHR ''o'')"
  by (simp_all add: is_space_def)

lemma semicolon_not_tab: "CHR '';'' \<noteq> tab_char"
  using spaces(1,3) by metis

lemma trim_field_line:
  "trim (field_line f) = ''field:'' @ field_decl f @ '';'' @ tab_char # ''offset:'' @ show_nat (ff_offset f)
     @ '';'' @ ff_rest f @ '';''"
proof -
  have "trim (CHR ''f'' # (''ield:'' @ field_decl f @ '';'' @ tab_char # ''offset:'' @ show_nat (ff_offset f)
     @ '';'' @ ff_rest f) @ [CHR '';'']) = CHR ''f'' # (''ield:'' @ field_decl f @ '';'' @ tab_char # ''offset:''
     @ show_nat (ff_offset f) @ '';'' @ ff_rest f) @ [CHR '';'']"
    by (rule trim_inner) (rule spaces)+
  then show ?thesis by (simp add: field_line_def trim_space spaces)
qed

lemma show_nat_plain: "c \<in> set (show_nat n) \<Longrightarrow> is_digit c"
  using show_nat_digits [of n] by (auto simp: list_all_iff)

lemma split_field_line:
  assumes "wf_field f"
  shows "\<exists>parts. split_on (CHR '';'') (trim (field_line f))
    = (''field:'' @ field_decl f) # (tab_char # ''offset:'' @ show_nat (ff_offset f)) # parts"
proof -
  have d: "CHR '';'' \<notin> set (''field:'' @ field_decl f)"
    using assms by (auto simp: field_decl_def wf_field_def)
  have o: "CHR '';'' \<notin> set (tab_char # ''offset:'' @ show_nat (ff_offset f))"
    using semicolon_not_tab by (auto dest: show_nat_plain simp: is_digit_def)
  have "trim (field_line f) = (''field:'' @ field_decl f) @ CHR '';'' # ((tab_char # ''offset:'' @ show_nat (ff_offset f))
      @ CHR '';'' # (ff_rest f @ '';''))"
    by (simp add: trim_field_line)
  then show ?thesis by (simp only: split_on_sep [OF d] split_on_sep [OF o]) simp
qed

lemma last_word_of_decl:
  assumes "wf_field f"
  shows "split_whitespace (field_decl f) \<noteq> []" "last (split_whitespace (field_decl f)) = ff_name f @ ff_bounds f"
proof -
  let ?sp = "\<lambda>c. if is_space c then CHR '' '' else c"
  let ?w = "ff_name f @ ff_bounds f"
  have ns: "\<not> is_space c" if "c \<in> set ?w" for c
    using assms that unfolding wf_field_def by auto
  have w: "map ?sp ?w = ?w" by (rule map_idI) (simp only: ns if_False)
  have sp: "CHR '' '' \<notin> set ?w" using ns spaces(4) by blast
  have ne: "?w \<noteq> []" using assms by (simp add: wf_field_def)
  have "map ?sp (field_decl f) = map ?sp (ff_type f) @ CHR '' '' # ?w"
    using w by (simp add: field_decl_def spaces)
  then have "split_whitespace (field_decl f)
      = filter (\<lambda>p. p \<noteq> []) (split_on (CHR '' '') (map ?sp (ff_type f))) @ [?w]"
    using ne split_on_last [OF sp, of "map ?sp (ff_type f)"] by (simp add: split_whitespace_def)
  then show "split_whitespace (field_decl f) \<noteq> []" "last (split_whitespace (field_decl f)) = ?w"
    by simp_all
qed

lemma name_of_word:
  assumes "wf_field f"
  shows "hd (split_on (CHR ''['') (ff_name f @ ff_bounds f)) = ff_name f"
proof -
  have n: "CHR ''['' \<notin> set (ff_name f)" using assms by (auto simp: wf_field_def)
  show ?thesis
  proof (cases "ff_bounds f")
    case Nil
    then show ?thesis using n by (simp add: split_on_none)
  next
    case (Cons c cs)
    then have "c = CHR ''[''" using assms by (simp add: wf_field_def)
    then show ?thesis using n Cons by (simp add: split_on_sep)
  qed
qed

lemma field_offset_in_format:
  "\<forall>l \<in> set ls. wf_line l \<Longrightarrow> field_offset_in name (map line_text ls) = declared_offset name ls"
proof (induction ls)
  case (Cons l ls)
  show ?case
  proof (cases l)
    case (Inl s)
    then show ?thesis using Cons by (simp add: other_line_def)
  next
    case (Inr f)
    then have f: "wf_field f" using Cons.prems by simp
    obtain parts where parts: "split_on (CHR '';'') (trim (field_line f))
        = (''field:'' @ field_decl f) # (tab_char # ''offset:'' @ show_nat (ff_offset f)) # parts"
      using split_field_line [OF f] by blast
    have fo: "find_offset (split_on (CHR '';'') (trim (field_line f))) = Some (show_nat (ff_offset f))"
    proof -
      have a: "strip_prefix ''offset:'' (trim (''field:'' @ field_decl f)) = None"
      proof -
        obtain t where "trim (CHR ''f'' # ''ield:'' @ field_decl f) = CHR ''f'' # t"
          using trim_first [OF spaces(2)] by blast
        then show ?thesis by simp
      qed
      obtain ds d where ds: "show_nat (ff_offset f) = ds @ [d]" by (cases "show_nat (ff_offset f)" rule: rev_cases) auto
      then have "\<not> is_space d" using show_nat_plain [of d "ff_offset f"] by (simp add: not_space_digit)
      then have "trim (CHR ''o'' # (''ffset:'' @ ds) @ [d]) = CHR ''o'' # (''ffset:'' @ ds) @ [d]"
        using spaces by (intro trim_inner)
      then have "trim (tab_char # ''offset:'' @ show_nat (ff_offset f)) = ''offset:'' @ show_nat (ff_offset f)"
        by (simp add: trim_space spaces ds)
      then show ?thesis using a by (simp add: parts)
    qed
    have "starts_with ''field:'' (trim (field_line f))"
      by (simp add: starts_with_def trim_field_line)
    moreover have "parse_uint (2 ^ 64 - 1) (trim (show_nat (ff_offset f))) = Some (ff_offset f)"
      using f by (simp only: trim_digits [OF show_nat_digits] parse_show_nat) (simp add: wf_field_def)
    ultimately show ?thesis
      using Cons fo parts last_word_of_decl [OF f] name_of_word [OF f] Inr
      by (simp add: Let_def)
  qed
qed simp

lemma plain_line: "wf_line l \<Longrightarrow> plain (line_text l)"
proof (cases l)
  case (Inr f)
  have "is_space newline_char" "is_space (char_of (13 :: nat))" by (simp_all add: is_space_def)
  moreover have "\<not> is_digit newline_char" "\<not> is_digit (char_of (13 :: nat))" by (simp_all add: is_digit_def)
  moreover assume "wf_line l"
  moreover have "newline_char \<notin> set (CHR '';'' # tab_char # ''field:offset: '')"
    "char_of (13 :: nat) \<notin> set (CHR '';'' # tab_char # ''field:offset: '')" by code_simp+
  ultimately show ?thesis
    using Inr show_nat_plain [of _ "ff_offset f"]
    by (auto simp: plain_def field_line_def field_decl_def wf_field_def)
qed (simp add: other_line_def)

lemma format_text_offset:
  assumes "\<forall>l \<in> set ls. wf_line l"
  shows "format_field_offset (format_text ls) name = declared_offset name ls"
proof -
  have "lines (format_text ls) = map line_text ls"
    using assms lines_of_lines [of "map line_text ls"] plain_line
    by (simp add: format_text_def plain_def comp_def)
  then show ?thesis
    using field_offset_in_format [OF assms] by (simp add: format_field_offset_def)
qed

section \<open>Properties\<close>

text \<open>
  C27. \<open>format\_field\_offset\<close> on a format file as ftrace writes it, field lines of any types, array
  bounds and sizes among other lines: the declared offset of the first field of that name, and
  no result exactly when no field has the name.
\<close>

theorem format_offset_declared:
  assumes "\<forall>l \<in> set ls. wf_line l"
  shows "format_field_offset (format_text ls) name = declared_offset name ls"
  by (rule format_text_offset [OF assms])

definition doc_fields :: "(string + format_field) list" where
  "doc_fields = [Inl ''name: nvme_pci_submit'', Inl [],
     Inr \<lparr>ff_type = ''int'', ff_name = ''ctrl_id'', ff_bounds = [], ff_offset = 8, ff_rest = ''size:4;signed:1''\<rparr>,
     Inr \<lparr>ff_type = ''u8'', ff_name = ''sqe'', ff_bounds = ''[64]'', ff_offset = 30, ff_rest = ''size:64;signed:0''\<rparr>,
     Inr \<lparr>ff_type = ''__data_loc u8[]'', ff_name = ''descriptors'', ff_bounds = [], ff_offset = 98,
          ff_rest = ''size:4;signed:0''\<rparr>,
     Inl ''print fmt: ctrl_id=%d'']"

lemma doc_fields_wf: "\<forall>l \<in> set doc_fields. wf_line l"
proof -
  have nl: "newline_char = CHR 0x0A" "char_of (13 :: nat) = CHR 0x0D" by code_simp+
  show ?thesis
    by (simp add: doc_fields_def wf_field_def other_line_def plain_def nl is_space_def starts_with_def trim_def)
qed

lemma format_offset_declared_witness:
  "map (format_field_offset (format_text doc_fields)) [''ctrl_id'', ''sqe'', ''descriptors'', ''qid'']
     = [Some 8, Some 30, Some 98, None]"
  unfolding list.map format_offset_declared [OF doc_fields_wf] by (simp add: doc_fields_def)

end
