(* ===== verification/Ftrace_Page.thy ===== *)
theory Ftrace_Page
  imports Ftrace_Format Trace_Wire
begin

text \<open>
  The pages of the ftrace ring buffer (\<open>ftrace.rs\<close>): the walk over the packed events of a page,
  and the conversion of the two NVMe events to trace records. An index or slice out of range is
  the outcome \<open>Panic\<close>; offsets and lengths are \<open>usize\<close> values of a page and are \<open>nat\<close>.
\<close>

section \<open>Constants\<close>

definition PAGE_SIZE :: nat where "PAGE_SIZE = 4096"
definition PAGE_DATA_OFFSET :: nat where "PAGE_DATA_OFFSET = 16"
definition RINGBUF_TYPE_TIME_EXTEND :: u8 where "RINGBUF_TYPE_TIME_EXTEND = 29"
definition RINGBUF_TYPE_TIME_STAMP :: u8 where "RINGBUF_TYPE_TIME_STAMP = 30"
definition RINGBUF_TYPE_PADDING :: u8 where "RINGBUF_TYPE_PADDING = 31"

lemmas ring_types = RINGBUF_TYPE_TIME_EXTEND_def RINGBUF_TYPE_TIME_STAMP_def RINGBUF_TYPE_PADDING_def
lemmas page_sizes [simp] = PAGE_SIZE_def PAGE_DATA_OFFSET_def

section \<open>Event to record\<close>

text \<open>
  \<open>from_le_bytes(data[off..off + n].try_into().ok()?)\<close>: the conversion to an array of the
  slice's own length always succeeds. A signed field narrowed to \<open>u8\<close> keeps its low byte.
\<close>

definition read_field :: "byte list \<Rightarrow> nat \<Rightarrow> nat \<Rightarrow> 'a::len word outcome" where
  "read_field data off n = out_bind (slice_at data off (off + n)) (\<lambda>bs. Ret (from_le bs))"

definition encode_submit :: "byte list \<Rightarrow> u64 \<Rightarrow> submit_format \<Rightarrow> byte list option outcome" where
  "encode_submit data timestamp_ns fmt =
     (if \<not> sf_descriptors_dataloc fmt + 4 \<le> length data then Ret None
      else if \<not> sf_sqe fmt + 64 \<le> length data then Ret None
      else
        out_bind (read_field data (sf_ctrl_id fmt) 4) (\<lambda>ctrl_id :: u32.
        out_bind (read_field data (sf_qid fmt) 4) (\<lambda>qid :: u32.
        out_bind (read_field data (sf_cid fmt) 2) (\<lambda>cid :: u16.
        out_bind (read_field data (sf_data_len fmt) 4) (\<lambda>data_len :: u32.
        out_bind (read_field data (sf_meta_len fmt) 4) (\<lambda>meta_len :: u32.
        out_bind (index_at data (sf_use_sgl fmt)) (\<lambda>use_sgl_byte.
        out_bind (index_at data (sf_single_segment fmt)) (\<lambda>single_segment_byte.
        out_bind (slice_at data (sf_sqe fmt) (sf_sqe fmt + 64)) (\<lambda>sqe.
        out_bind (read_field data (sf_descriptors_dataloc fmt) 4) (\<lambda>dataloc :: u32.
          let use_sgl = (use_sgl_byte \<noteq> 0);
              single_segment = (single_segment_byte \<noteq> 0);
              desc_off = unat (dataloc AND 0xffff);
              desc_len = unat (drop_bit 16 dataloc)
          in
          out_bind (if desc_len > 0 \<and> desc_off + desc_len \<le> length data
                       then slice_at data desc_off (desc_off + desc_len) else Ret []) (\<lambda>descriptors.
          let nr_entries = (if use_sgl then of_nat (length descriptors div 16)
                            else of_nat (length descriptors div 8) :: u16);
              total_len = SUBMIT_FIXED_LEN + length descriptors
          in Ret (Some (
               to_le 4 NVME_TRACE_MAGIC @ [NVME_TRACE_VERSION] @ [NVME_TRACE_SUBMIT]
               @ to_le 2 (of_nat total_len :: u16) @ to_le 8 timestamp_ns @ to_le 4 (0 :: u32)
               @ [ucast ctrl_id] @ [ucast qid] @ to_le 2 cid
               @ sqe @ to_le 4 data_len @ to_le 4 meta_len
               @ [of_bool use_sgl] @ [of_bool single_segment] @ to_le 2 nr_entries
               @ descriptors)))))))))))))"

definition encode_complete :: "byte list \<Rightarrow> u64 \<Rightarrow> complete_format \<Rightarrow> byte list option outcome" where
  "encode_complete data timestamp_ns fmt =
     (if \<not> cf_retries fmt + 1 \<le> length data then Ret None
      else
        out_bind (read_field data (cf_ctrl_id fmt) 4) (\<lambda>ctrl_id :: u32.
        out_bind (read_field data (cf_qid fmt) 4) (\<lambda>qid :: u32.
        out_bind (read_field data (cf_cid fmt) 2) (\<lambda>cid :: u16.
        out_bind (read_field data (cf_result fmt) 8) (\<lambda>result :: u64.
        out_bind (read_field data (cf_sq_head fmt) 2) (\<lambda>sq_head :: u16.
        out_bind (read_field data (cf_sq_id fmt) 2) (\<lambda>sq_id :: u16.
        out_bind (read_field data (cf_status fmt) 2) (\<lambda>status :: u16.
        out_bind (index_at data (cf_retries fmt)) (\<lambda>retries.
          Ret (Some (
            to_le 4 NVME_TRACE_MAGIC @ [NVME_TRACE_VERSION] @ [NVME_TRACE_COMPLETE]
            @ to_le 2 (of_nat COMPLETE_LEN :: u16) @ to_le 8 timestamp_ns @ to_le 4 (0 :: u32)
            @ [ucast ctrl_id] @ [ucast qid] @ to_le 2 cid
            @ to_le 8 result @ to_le 2 sq_head @ to_le 2 sq_id @ to_le 2 status @ [retries] @ [0])))))))))))"

text \<open>The number of records appended, and the output.\<close>

definition dispatch_event ::
  "byte list \<Rightarrow> u64 \<Rightarrow> u16 \<Rightarrow> u16 \<Rightarrow> submit_format \<Rightarrow> complete_format \<Rightarrow> byte list \<Rightarrow> (nat \<times> byte list) outcome" where
  "dispatch_event event_data timestamp_ns submit_id complete_id submit_fmt complete_fmt out =
     (if length event_data < 2 then Ret (0, out)
      else out_bind (read_field event_data 0 2) (\<lambda>event_type :: u16.
        if event_type = submit_id then
          out_bind (encode_submit event_data timestamp_ns submit_fmt) (\<lambda>res.
            case res of Some rec \<Rightarrow> Ret (1, out @ rec) | None \<Rightarrow> Ret (0, out))
        else if event_type = complete_id then
          out_bind (encode_complete event_data timestamp_ns complete_fmt) (\<lambda>res.
            case res of Some rec \<Rightarrow> Ret (1, out @ rec) | None \<Rightarrow> Ret (0, out))
        else Ret (0, out)))"

section \<open>The walk over a page\<close>

text \<open>
  The loop, on \<open>data\<close> with its variables \<open>pos\<close>, \<open>ts\<close>, \<open>count\<close> and \<open>out\<close>. Every slice of \<open>data\<close> is one
  that panics out of range.
\<close>

function page_loop ::
  "u16 \<Rightarrow> u16 \<Rightarrow> submit_format \<Rightarrow> complete_format \<Rightarrow> byte list \<Rightarrow> nat \<Rightarrow> u64 \<Rightarrow> nat \<Rightarrow> byte list \<Rightarrow>
     (nat \<times> byte list) outcome" where
  "page_loop submit_id complete_id submit_fmt complete_fmt data pos ts cnt out =
     (if \<not> pos + 4 \<le> length data then Ret (cnt, out)
      else (case read_field data pos 4 of Panic \<Rightarrow> Panic | Ret (hdr :: u32) \<Rightarrow>
        let type_len = ucast (hdr AND 0x1f) :: u8;
            time_delta = ucast (drop_bit 5 hdr) :: u64;
            p = pos + 4
        in
          if type_len = RINGBUF_TYPE_PADDING then Ret (cnt, out)
          else if type_len = RINGBUF_TYPE_TIME_STAMP then
            if p + 8 > length data then Ret (cnt, out)
            else (case read_field data p 8 of Panic \<Rightarrow> Panic | Ret stamp \<Rightarrow>
              page_loop submit_id complete_id submit_fmt complete_fmt data (p + 8) stamp cnt out)
          else if type_len = RINGBUF_TYPE_TIME_EXTEND then
            if p + 4 > length data then Ret (cnt, out)
            else (case read_field data p 4 of Panic \<Rightarrow> Panic | Ret (w :: u32) \<Rightarrow>
              let upper = ucast w :: u64 in
              page_loop submit_id complete_id submit_fmt complete_fmt data (p + 4)
                (ts + (push_bit 27 upper OR time_delta)) cnt out)
          else if type_len = 0 then
            if p + 4 > length data then Ret (cnt, out)
            else (case read_field data p 4 of Panic \<Rightarrow> Panic | Ret (w :: u32) \<Rightarrow>
              let event_len = unat w;
                  q = p + 4;
                  ts' = ts + time_delta
              in if event_len = 0 \<or> q + event_len > length data then Ret (cnt, out)
                 else (case slice_at data q (q + event_len) of Panic \<Rightarrow> Panic | Ret event \<Rightarrow>
                   (case dispatch_event event ts' submit_id complete_id submit_fmt complete_fmt out of
                      Panic \<Rightarrow> Panic
                    | Ret (n, out') \<Rightarrow>
                        page_loop submit_id complete_id submit_fmt complete_fmt data (q + event_len)
                          ts' (cnt + n) out')))
          else
            let event_len = unat type_len * 4;
                ts' = ts + time_delta
            in if p + event_len > length data then Ret (cnt, out)
               else (case slice_at data p (p + event_len) of Panic \<Rightarrow> Panic | Ret event \<Rightarrow>
                 (case dispatch_event event ts' submit_id complete_id submit_fmt complete_fmt out of
                    Panic \<Rightarrow> Panic
                  | Ret (n, out') \<Rightarrow>
                      page_loop submit_id complete_id submit_fmt complete_fmt data (p + event_len)
                        ts' (cnt + n) out'))))"
  by pat_completeness auto
termination
  by (relation "measure (\<lambda>(a, b, c, d, data, pos, rest). length data - pos)") auto

declare page_loop.simps [simp del]

text \<open>\<open>page\<close> has \<open>PAGE_SIZE\<close> bytes by its type, which a list does not tell: its slices may panic too.\<close>

definition parse_page_events ::
  "byte list \<Rightarrow> u16 \<Rightarrow> u16 \<Rightarrow> submit_format \<Rightarrow> complete_format \<Rightarrow> byte list \<Rightarrow> (nat \<times> byte list) outcome" where
  "parse_page_events page submit_id complete_id submit_fmt complete_fmt out =
     out_bind (read_field page 0 8) (\<lambda>page_ts :: u64.
     out_bind (read_field page 8 4) (\<lambda>commit_word :: u32.
       let commit = unat commit_word
       in if commit = 0 \<or> commit > PAGE_SIZE - PAGE_DATA_OFFSET then Ret (0, out)
          else out_bind (slice_at page PAGE_DATA_OFFSET (PAGE_DATA_OFFSET + commit)) (\<lambda>data.
            page_loop submit_id complete_id submit_fmt complete_fmt data 0 page_ts 0 out)))"

section \<open>What the encoders compute\<close>

text \<open>All fields the encoder reads lie in the data.\<close>

definition submit_fits :: "submit_format \<Rightarrow> nat \<Rightarrow> bool" where
  "submit_fits fmt n \<longleftrightarrow> sf_ctrl_id fmt + 4 \<le> n \<and> sf_qid fmt + 4 \<le> n \<and> sf_cid fmt + 2 \<le> n
     \<and> sf_data_len fmt + 4 \<le> n \<and> sf_meta_len fmt + 4 \<le> n \<and> sf_use_sgl fmt < n \<and> sf_single_segment fmt < n
     \<and> sf_sqe fmt + 64 \<le> n \<and> sf_descriptors_dataloc fmt + 4 \<le> n"

definition complete_fits :: "complete_format \<Rightarrow> nat \<Rightarrow> bool" where
  "complete_fits fmt n \<longleftrightarrow> cf_ctrl_id fmt + 4 \<le> n \<and> cf_qid fmt + 4 \<le> n \<and> cf_cid fmt + 2 \<le> n
     \<and> cf_result fmt + 8 \<le> n \<and> cf_sq_head fmt + 2 \<le> n \<and> cf_sq_id fmt + 2 \<le> n \<and> cf_status fmt + 2 \<le> n
     \<and> cf_retries fmt < n"

text \<open>The records that the fields of an event describe.\<close>

definition field_of :: "byte list \<Rightarrow> nat \<Rightarrow> nat \<Rightarrow> 'a::len word" where
  "field_of data off n = from_le (slice data off (off + n))"

lemma read_field_eq:
  "read_field data off n = (if off + n \<le> length data then Ret (field_of data off n) else Panic)"
  by (simp add: read_field_def slice_at_def field_of_def)

definition event_header :: "u8 \<Rightarrow> nat \<Rightarrow> u64 \<Rightarrow> u32 \<Rightarrow> u32 \<Rightarrow> u16 \<Rightarrow> header" where
  "event_header record_type len ts ctrl_id qid cid =
     \<lparr>h_magic = NVME_TRACE_MAGIC, h_version = NVME_TRACE_VERSION, h_record_type = record_type,
      h_len = of_nat len, h_timestamp_ns = ts, h_seq = 0, h_ctrl_id = ucast ctrl_id, h_qid = ucast qid,
      h_cid = cid\<rparr>"

definition complete_event :: "byte list \<Rightarrow> u64 \<Rightarrow> complete_format \<Rightarrow> complete_record" where
  "complete_event data ts fmt =
     \<lparr>c_header = event_header NVME_TRACE_COMPLETE 40 ts (field_of data (cf_ctrl_id fmt) 4)
        (field_of data (cf_qid fmt) 4) (field_of data (cf_cid fmt) 2),
      c_result = field_of data (cf_result fmt) 8, c_sq_head = field_of data (cf_sq_head fmt) 2,
      c_sq_id = field_of data (cf_sq_id fmt) 2, c_status = field_of data (cf_status fmt) 2,
      c_retries = data ! cf_retries fmt\<rparr>"

text \<open>The bytes the \<open>\_\_data\_loc\<close> word points at, none when it points outside the event.\<close>

definition descriptors_of :: "byte list \<Rightarrow> submit_format \<Rightarrow> byte list" where
  "descriptors_of data fmt =
     (let dataloc = field_of data (sf_descriptors_dataloc fmt) 4 :: u32;
          off = unat dataloc mod 2 ^ 16; n = unat dataloc div 2 ^ 16
      in if off + n \<le> length data then slice data off (off + n) else [])"

definition event_entry_len :: "byte list \<Rightarrow> submit_format \<Rightarrow> nat" where
  "event_entry_len data fmt = (if data ! sf_use_sgl fmt \<noteq> 0 then 16 else 8)"

definition submit_event :: "byte list \<Rightarrow> u64 \<Rightarrow> submit_format \<Rightarrow> submit_record" where
  "submit_event data ts fmt =
     (let ds = descriptors_of data fmt;
          use_sgl = (data ! sf_use_sgl fmt \<noteq> 0);
          n = length ds div event_entry_len data fmt
      in \<lparr>s_header = event_header NVME_TRACE_SUBMIT (100 + length ds) ts (field_of data (sf_ctrl_id fmt) 4)
            (field_of data (sf_qid fmt) 4) (field_of data (sf_cid fmt) 2),
          s_sqe = slice data (sf_sqe fmt) (sf_sqe fmt + 64),
          s_data_len = field_of data (sf_data_len fmt) 4, s_meta_len = field_of data (sf_meta_len fmt) 4,
          s_use_sgl = use_sgl, s_single_segment = (data ! sf_single_segment fmt \<noteq> 0),
          s_nr_entries = of_nat n, s_tail = tail_of use_sgl n ds\<rparr>)"

definition submit_bytes :: "byte list \<Rightarrow> u64 \<Rightarrow> submit_format \<Rightarrow> byte list" where
  "submit_bytes data ts fmt =
     wire_header (s_header (submit_event data ts fmt)) @ wire_submit_fixed (submit_event data ts fmt)
       @ descriptors_of data fmt"

lemma and_ffff: "unat (w AND 0xffff :: u32) = unat w mod 2 ^ 16"
proof -
  have "w AND 0xffff = take_bit 16 w" by (simp add: take_bit_eq_mask mask_eq_exp_minus_1)
  then have "unat (w AND 0xffff) = take_bit 16 (unat w)" by (simp only: unsigned_take_bit_eq)
  then show ?thesis by (simp only: take_bit_eq_mod)
qed

lemma unat_drop_16: "unat (drop_bit 16 w :: u32) = unat w div 2 ^ 16"
  by (subst unat_drop_bit_eq) (rule drop_bit_eq_div)

lemma descriptors_slice:
  fixes dataloc :: u32
  assumes "dataloc = field_of data (sf_descriptors_dataloc fmt) 4"
  shows "(if unat (drop_bit 16 dataloc) > 0 \<and> unat (dataloc AND 0xffff) + unat (drop_bit 16 dataloc) \<le> length data
      then slice_at data (unat (dataloc AND 0xffff)) (unat (dataloc AND 0xffff) + unat (drop_bit 16 dataloc)) else Ret [])
    = Ret (descriptors_of data fmt)"
  using assms
  by (simp only: descriptors_of_def Let_def and_ffff unat_drop_16 slice_at_def) (auto simp: slice_def)

lemma encode_complete_eq:
  "encode_complete data ts fmt =
     (if \<not> cf_retries fmt < length data then Ret None
      else if complete_fits fmt (length data) then Ret (Some (wire_record (Complete (complete_event data ts fmt))))
      else Panic)"
  by (simp add: encode_complete_def complete_fits_def read_field_eq index_at_def complete_event_def
      wire_header_def wire_complete_payload_def event_header_def Suc_le_eq del: to_le.simps)

lemma encode_submit_eq:
  "encode_submit data ts fmt =
     (if \<not> (sf_descriptors_dataloc fmt + 4 \<le> length data \<and> sf_sqe fmt + 64 \<le> length data) then Ret None
      else if submit_fits fmt (length data) then Ret (Some (submit_bytes data ts fmt))
      else Panic)"
proof (cases "sf_descriptors_dataloc fmt + 4 \<le> length data \<and> sf_sqe fmt + 64 \<le> length data")
  case guard: True
  show ?thesis
  proof (cases "submit_fits fmt (length data)")
    case True
    then show ?thesis
      using guard
      by (simp only: encode_submit_def submit_fits_def read_field_eq index_at_def slice_at_def [of _ "sf_sqe fmt"]
          out_bind.simps if_True if_False simp_thms le_add1 Let_def descriptors_slice)
        (simp add: submit_bytes_def submit_event_def wire_header_def wire_submit_fixed_def event_header_def
          event_entry_len_def Let_def del: to_le.simps)
  next
    case False
    then show ?thesis
      using guard by (auto simp: encode_submit_def submit_fits_def read_field_eq index_at_def slice_at_def)
  qed
qed (simp add: encode_submit_def)

section \<open>The records are records of the format\<close>

lemma complete_event_valid: "valid_record (wire_record (Complete (complete_event data ts fmt)))"
  by (rule valid_wire) (simp_all add: complete_event_def event_header_def wf_header_def)

lemma length_descriptors: "length (descriptors_of data fmt) < 2 ^ 16"
proof -
  have "unat w div 2 ^ 16 < 2 ^ 16" for w :: u32
    using unat_bound [of w] by (simp add: less_mult_imp_div_less)
  then show ?thesis by (auto simp: descriptors_of_def Let_def min_def intro: le_less_trans)
qed

lemma unat_of_nat_u16: "n < 2 ^ 16 \<Longrightarrow> unat (of_nat n :: u16) = n"
  by (simp add: unat_of_nat)

lemma submit_event_sqe: "submit_fits fmt (length data) \<Longrightarrow> length (s_sqe (submit_event data ts fmt)) = 64"
  by (simp add: submit_event_def Let_def submit_fits_def min_def) linarith

lemma submit_event_wire:
  assumes "submit_fits fmt (length data)" and "event_entry_len data fmt dvd length (descriptors_of data fmt)"
  shows "submit_bytes data ts fmt = wire_record (Submit (submit_event data ts fmt))"
    "wf_record (Submit (submit_event data ts fmt))"
proof -
  let ?ds = "descriptors_of data fmt" and ?u = "data ! sf_use_sgl fmt \<noteq> 0"
  have len: "length ?ds = (length ?ds div event_entry_len data fmt) * (if ?u then 16 else 8)"
    using assms(2) by (simp add: event_entry_len_def)
  have "length ?ds div event_entry_len data fmt \<le> length ?ds" by simp
  then have n: "length ?ds div event_entry_len data fmt < 2 ^ 16"
    using length_descriptors [of data fmt] by linarith
  show "submit_bytes data ts fmt = wire_record (Submit (submit_event data ts fmt))"
    using wire_tail_of [OF len] by (simp add: submit_bytes_def) (simp add: submit_event_def Let_def)
  show "wf_record (Submit (submit_event data ts fmt))"
    using wf_tail_of [OF len] submit_event_sqe [OF assms(1), of ts] unat_of_nat_u16 [OF n]
    by (simp add: submit_event_def Let_def event_header_def)
qed

text \<open>
  The encoded submit is a record of the format exactly when the descriptors are whole entries and
  the length fits its field.
\<close>

lemma submit_bytes_valid:
  assumes "submit_fits fmt (length data)"
  shows "valid_record (submit_bytes data ts fmt) \<longleftrightarrow>
    event_entry_len data fmt dvd length (descriptors_of data fmt)
    \<and> 100 + length (descriptors_of data fmt) < 2 ^ 16"
proof
  let ?b = "submit_bytes data ts fmt" and ?s = "submit_event data ts fmt" and ?ds = "descriptors_of data fmt"
  note sqe = submit_event_sqe [OF assms, of ts]
  have b: "header_of ?b = s_header ?s" "length ?b = 100 + length ?ds"
    using sqe by (simp_all add: submit_bytes_def)
  have htype: "h_record_type (s_header ?s) = NVME_TRACE_SUBMIT"
    by (simp add: submit_event_def Let_def event_header_def)
  assume v: "valid_record ?b"
  have "unat (h_len (s_header ?s)) = 100 + length ?ds" using valid_record_header(4) [OF v] b by simp
  then have "100 + length ?ds < 2 ^ 16" using unat_bound [of "h_len (s_header ?s)"] by simp
  moreover have fixed: "slice ?b 24 100 = wire_submit_fixed ?s"
    using sqe by (simp add: submit_bytes_def slice_append_right slice_append_left)
  have "length ?ds = unat (s_nr_entries ?s) * event_entry_len data fmt"
    using valid_submit_tail(2) [OF v] b(1) htype fixed b(2)
    by (simp add: submit_fixed_of_wire [OF sqe]) (simp add: submit_event_def Let_def event_entry_len_def)
  then have "event_entry_len data fmt dvd length ?ds" by simp
  ultimately show "event_entry_len data fmt dvd length ?ds \<and> 100 + length ?ds < 2 ^ 16" by blast
next
  let ?s = "submit_event data ts fmt" and ?ds = "descriptors_of data fmt"
  assume a: "event_entry_len data fmt dvd length ?ds \<and> 100 + length ?ds < 2 ^ 16"
  note w = submit_event_wire [OF assms conjunct1 [OF a], of ts]
  have "length (wire_record (Submit ?s)) = 100 + length ?ds"
    using w(1) submit_event_sqe [OF assms, of ts] by (simp flip: w(1)) (simp add: submit_bytes_def)
  then have "wf_header (record_header (Submit ?s)) (length (wire_record (Submit ?s)))"
    using a unat_of_nat_u16 [of "100 + length ?ds"]
    by (simp only: wf_header_def) (simp add: submit_event_def Let_def event_header_def)
  then show "valid_record (submit_bytes data ts fmt)" unfolding w(1) by (rule valid_wire [OF w(2)])
qed

section \<open>The events of a page\<close>

text \<open>
  The layout the code documents, as a decoder that consumes the bytes: the events with their
  timestamps, up to the first padding or truncated entry.
\<close>

function ring_decode :: "u64 \<Rightarrow> byte list \<Rightarrow> (u64 \<times> byte list) list" where
  "ring_decode ts bs =
     (if length bs < 4 then []
      else
        let hdr = from_le (take 4 bs) :: u32; k = unat hdr mod 32; delta = of_nat (unat hdr div 32);
            rest = drop 4 bs
        in if k = 31 then []
           else if k = 30 then (if length rest < 8 then [] else ring_decode (from_le (take 8 rest)) (drop 8 rest))
           else if k = 29 then
             (if length rest < 4 then []
              else ring_decode (ts + of_nat (unat (from_le (take 4 rest) :: u32)) * 2 ^ 27 + delta) (drop 4 rest))
           else if k = 0 then
             (if length rest < 4 then []
              else let n = unat (from_le (take 4 rest) :: u32); body = drop 4 rest
                in if n = 0 \<or> length body < n then []
                   else (ts + delta, take n body) # ring_decode (ts + delta) (drop n body))
           else
             (if length rest < 4 * k then []
              else (ts + delta, take (4 * k) rest) # ring_decode (ts + delta) (drop (4 * k) rest)))"
  by pat_completeness auto
termination by (relation "measure (\<lambda>(ts, bs). length bs)") auto

declare ring_decode.simps [simp del]

fun dispatch_all ::
  "u16 \<Rightarrow> u16 \<Rightarrow> submit_format \<Rightarrow> complete_format \<Rightarrow> (u64 \<times> byte list) list \<Rightarrow> nat \<Rightarrow> byte list \<Rightarrow>
     (nat \<times> byte list) outcome" where
  "dispatch_all sid cid sf cf [] n out = Ret (n, out)"
| "dispatch_all sid cid sf cf ((ts, data) # es) n out =
     (case dispatch_event data ts sid cid sf cf out of
        Panic \<Rightarrow> Panic
      | Ret (k, out') \<Rightarrow> dispatch_all sid cid sf cf es (n + k) out')"

lemma slice_take: "slice xs i (i + n) = take n (drop i xs)"
  by (simp add: slice_def)

lemma type_len_nat: "unat (ucast (hdr AND 0x1f :: u32) :: u8) = unat hdr mod 32"
proof -
  have "hdr AND 0x1f = take_bit 5 hdr" by (simp add: take_bit_eq_mask mask_eq_exp_minus_1)
  then have "unat (hdr AND 0x1f) = take_bit 5 (unat hdr)" by (simp only: unsigned_take_bit_eq)
  then have u: "unat (hdr AND 0x1f) = unat hdr mod 32" by (simp add: take_bit_eq_mod)
  have "unat (ucast (hdr AND 0x1f) :: u8) = take_bit 8 (unat (hdr AND 0x1f))" by (simp add: unsigned_ucast_eq)
  also have "\<dots> = unat hdr mod 32" unfolding u by (simp add: take_bit_eq_mod)
  finally show ?thesis .
qed

lemma time_delta_nat: "ucast (drop_bit 5 hdr :: u32) = (of_nat (unat hdr div 32) :: u64)"
proof -
  have "unat (drop_bit 5 hdr) = unat hdr div 32" by (subst unat_drop_bit_eq) (simp add: drop_bit_eq_div)
  then show ?thesis by (metis of_nat_unat)
qed

lemma extend_nat:
  "push_bit 27 (ucast (upper :: u32)) OR (ucast (drop_bit 5 (hdr :: u32)) :: u64)
     = of_nat (unat upper) * 2 ^ 27 + of_nat (unat hdr div 32)"
proof -
  have "push_bit 27 (ucast upper) AND (ucast (drop_bit 5 hdr) :: u64) = 0"
    by (rule bit_word_eqI) (auto simp: bit_and_iff bit_push_bit_iff bit_ucast_iff bit_drop_bit_eq dest: bit_imp_le_length)
  then have "push_bit 27 (ucast upper) OR (ucast (drop_bit 5 hdr) :: u64)
      = push_bit 27 (ucast upper) + ucast (drop_bit 5 hdr)"
    by (simp only: disjunctive_add_eq_or)
  also have "\<dots> = ucast upper * 2 ^ 27 + of_nat (unat hdr div 32)"
    by (simp only: time_delta_nat push_bit_eq_mult)
  finally show ?thesis by simp
qed

text \<open>One step of the walk against one step of the decoder, with the entry's fields abstracted.\<close>

lemma walk_cases:
  fixes k :: nat
  assumes "\<not> n < 4" "\<not> (\<not> in_range)" and big: "\<not> m < 4 \<Longrightarrow> big \<longleftrightarrow> m' < e"
  shows "(if \<not> in_range then Ret (cnt, out)
      else if k = 31 then Ret (cnt, out)
      else if k = 30 then if m < 8 then Ret (cnt, out) else dispatch_all sid cid sf cf d30 cnt out
      else if k = 29 then if m < 4 then Ret (cnt, out) else dispatch_all sid cid sf cf d29 cnt out
      else if k = 0 then
        if m < 4 then Ret (cnt, out)
        else if e = 0 \<or> big then Ret (cnt, out)
             else (case dispatch_event x0 ts' sid cid sf cf out of Panic \<Rightarrow> Panic
                   | Ret (n, out') \<Rightarrow> dispatch_all sid cid sf cf d0 (cnt + n) out')
      else if m < k * 4 then Ret (cnt, out)
           else (case dispatch_event (xk (k * 4)) ts' sid cid sf cf out of Panic \<Rightarrow> Panic
                 | Ret (n, out') \<Rightarrow> dispatch_all sid cid sf cf (dk (k * 4)) (cnt + n) out'))
    = dispatch_all sid cid sf cf
        (if n < 4 then []
         else if k = 31 then []
         else if k = 30 then if m < 8 then [] else d30
         else if k = 29 then if m < 4 then [] else d29
         else if k = 0 then if m < 4 then [] else if e = 0 \<or> m' < e then [] else (ts', x0) # d0
         else if m < 4 * k then [] else (ts', xk (4 * k)) # dk (4 * k)) cnt out"
  using assms by (simp add: mult.commute split: outcome.split)

text \<open>Under the guards of the loop, its slices are in range.\<close>

lemma in_range:
  "off + n \<le> length data \<Longrightarrow> read_field data off n = Ret (from_le (slice data off (off + n)))"
  "off + n \<le> length data \<Longrightarrow> slice_at data off (off + n) = Ret (slice data off (off + n))"
  by (simp_all add: read_field_def slice_at_def)

lemma page_loop_in_range:
  "page_loop sid cid sf cf data pos ts cnt out =
     (if \<not> pos + 4 \<le> length data then Ret (cnt, out)
      else
        let hdr = from_le (slice data pos (pos + 4)) :: u32;
            type_len = ucast (hdr AND 0x1f) :: u8;
            time_delta = ucast (drop_bit 5 hdr) :: u64;
            p = pos + 4
        in
          if type_len = RINGBUF_TYPE_PADDING then Ret (cnt, out)
          else if type_len = RINGBUF_TYPE_TIME_STAMP then
            if p + 8 > length data then Ret (cnt, out)
            else page_loop sid cid sf cf data (p + 8) (from_le (slice data p (p + 8))) cnt out
          else if type_len = RINGBUF_TYPE_TIME_EXTEND then
            if p + 4 > length data then Ret (cnt, out)
            else let upper = ucast (from_le (slice data p (p + 4)) :: u32) :: u64 in
              page_loop sid cid sf cf data (p + 4) (ts + (push_bit 27 upper OR time_delta)) cnt out
          else if type_len = 0 then
            if p + 4 > length data then Ret (cnt, out)
            else let event_len = unat (from_le (slice data p (p + 4)) :: u32);
                     q = p + 4;
                     ts' = ts + time_delta
              in if event_len = 0 \<or> q + event_len > length data then Ret (cnt, out)
                 else (case dispatch_event (slice data q (q + event_len)) ts' sid cid sf cf out of
                         Panic \<Rightarrow> Panic
                       | Ret (n, out') \<Rightarrow> page_loop sid cid sf cf data (q + event_len) ts' (cnt + n) out')
          else
            let event_len = unat type_len * 4;
                ts' = ts + time_delta
            in if p + event_len > length data then Ret (cnt, out)
               else (case dispatch_event (slice data p (p + event_len)) ts' sid cid sf cf out of
                       Panic \<Rightarrow> Panic
                     | Ret (n, out') \<Rightarrow> page_loop sid cid sf cf data (p + event_len) ts' (cnt + n) out'))"
  by (subst page_loop.simps) (cases "pos + 4 \<le> length data"; simp add: Let_def not_less in_range)

lemma page_loop_decodes:
  "page_loop sid cid sf cf data pos ts cnt out = dispatch_all sid cid sf cf (ring_decode ts (drop pos data)) cnt out"
proof (induction "length data - pos" arbitrary: pos ts cnt out rule: less_induct)
  case less
  show ?case
  proof (cases "pos + 4 \<le> length data")
    case False
    then show ?thesis by (simp add: page_loop_in_range [of _ _ _ _ _ pos] ring_decode.simps [of _ "drop pos data"])
  next
    case True
    define hdr :: u32 where "hdr = from_le (take 4 (drop pos data))"
    have IH: "page_loop sid cid sf cf data (pos + 4 + n) ts' cnt' out'
        = dispatch_all sid cid sf cf (ring_decode ts' (drop n (drop 4 (drop pos data)))) cnt' out'" for n ts' cnt' out'
      using less [of "pos + 4 + n"] True by (simp add: add.commute add.left_commute)
    have tl: "ucast (hdr AND 0x1f) = (w :: u8) \<longleftrightarrow> unat hdr mod 32 = unat w" for w
      by (simp only: word_unat_eq_iff type_len_nat)
    let ?rest = "drop 4 (drop pos data)"
    have tls: "ucast (hdr AND 0x1f) = (31 :: u8) \<longleftrightarrow> unat hdr mod 32 = 31"
      "ucast (hdr AND 0x1f) = (30 :: u8) \<longleftrightarrow> unat hdr mod 32 = 30"
      "ucast (hdr AND 0x1f) = (29 :: u8) \<longleftrightarrow> unat hdr mod 32 = 29"
      "ucast (hdr AND 0x1f) = (0 :: u8) \<longleftrightarrow> unat hdr mod 32 = 0"
      using tl [of 31] tl [of 30] tl [of 29] tl [of 0] by simp_all
    have h: "from_le (slice data pos (pos + 4)) = hdr" by (simp only: hdr_def slice_take)
    have dd: "drop (pos + 4) data = ?rest" "drop (pos + 4 + 4) data = drop 4 ?rest"
      by (simp_all add: add.commute add.left_commute)
    have over: "pos + 4 + n > length data \<longleftrightarrow> length ?rest < n" for n
      using True by auto
    have over2: "\<not> length ?rest < 4 \<Longrightarrow> pos + 4 + 4 + n > length data \<longleftrightarrow> length (drop 4 ?rest) < n" for n
      by auto
    have IH2: "page_loop sid cid sf cf data (pos + 4 + 4 + n) ts' cnt' out'
        = dispatch_all sid cid sf cf (ring_decode ts' (drop n (drop 4 ?rest))) cnt' out'" for n ts' cnt' out'
      using IH [of "4 + n"] by (simp add: add.commute add.left_commute)
    note loop = page_loop_in_range [of sid cid sf cf data pos ts cnt out, unfolded Let_def h tls ring_types
        type_len_nat, unfolded time_delta_nat [symmetric] extend_nat]
    note dec = ring_decode.simps [of ts "drop pos data", unfolded Let_def, folded hdr_def]
    show ?thesis
      unfolding loop dec time_delta_nat slice_take dd IH IH2 over add.assoc [symmetric]
      by (rule walk_cases) (use True over2 in \<open>simp_all only: not_less length_drop simp_thms\<close>)
  qed
qed

section \<open>Events and their records\<close>

definition event_type :: "byte list \<Rightarrow> u16" where
  "event_type data = from_le (take 2 data)"

text \<open>The record of an event, and the events whose fields lie in their data.\<close>

definition event_record ::
  "u16 \<Rightarrow> u16 \<Rightarrow> submit_format \<Rightarrow> complete_format \<Rightarrow> u64 \<times> byte list \<Rightarrow> byte list option" where
  "event_record sid cid sf cf = (\<lambda>(ts, data).
     if length data < 2 then None
     else if event_type data = sid then
       (if sf_descriptors_dataloc sf + 4 \<le> length data \<and> sf_sqe sf + 64 \<le> length data
        then Some (submit_bytes data ts sf) else None)
     else if event_type data = cid then
       (if cf_retries cf < length data then Some (wire_record (Complete (complete_event data ts cf))) else None)
     else None)"

definition event_safe :: "u16 \<Rightarrow> u16 \<Rightarrow> submit_format \<Rightarrow> complete_format \<Rightarrow> u64 \<times> byte list \<Rightarrow> bool" where
  "event_safe sid cid sf cf = (\<lambda>(ts, data).
     if length data < 2 then True
     else if event_type data = sid then
       sf_descriptors_dataloc sf + 4 \<le> length data \<and> sf_sqe sf + 64 \<le> length data
         \<longrightarrow> submit_fits sf (length data)
     else if event_type data = cid then cf_retries cf < length data \<longrightarrow> complete_fits cf (length data)
     else True)"

definition page_records ::
  "u16 \<Rightarrow> u16 \<Rightarrow> submit_format \<Rightarrow> complete_format \<Rightarrow> (u64 \<times> byte list) list \<Rightarrow> byte list list" where
  "page_records sid cid sf cf es = concat (map (\<lambda>e. case event_record sid cid sf cf e of None \<Rightarrow> [] | Some b \<Rightarrow> [b]) es)"

definition page_events :: "byte list \<Rightarrow> (u64 \<times> byte list) list" where
  "page_events page =
     (let commit = unat (from_le (slice page 8 12) :: u32)
      in if commit = 0 \<or> 4080 < commit then [] else ring_decode (from_le (slice page 0 8)) (slice page 16 (16 + commit)))"

lemma dispatch_event_eq:
  "dispatch_event data ts sid cid sf cf out =
     (if event_safe sid cid sf cf (ts, data)
      then Ret (case event_record sid cid sf cf (ts, data) of None \<Rightarrow> (0, out) | Some b \<Rightarrow> (1, out @ b))
      else Panic)"
proof (cases "length data < 2")
  case False
  then have "read_field data 0 2 = Ret (event_type data)" by (simp add: read_field_eq field_of_def event_type_def slice_def numeral_2_eq_2)
  then show ?thesis
    using False by (simp add: dispatch_event_def event_safe_def event_record_def encode_submit_eq encode_complete_eq)
qed (simp add: dispatch_event_def event_safe_def event_record_def)

lemma dispatch_all_eq:
  "dispatch_all sid cid sf cf es n out =
     (if list_all (event_safe sid cid sf cf) es
      then Ret (n + length (page_records sid cid sf cf es), out @ concat (page_records sid cid sf cf es))
      else Panic)"
proof (induction es arbitrary: n out)
  case (Cons e es)
  obtain ts data where e: "e = (ts, data)" by (cases e)
  show ?case
    using Cons by (auto simp: e dispatch_event_eq page_records_def split: option.splits)
qed (simp add: page_records_def)

lemma parse_page_eq:
  assumes "12 \<le> length page" and "unat (from_le (slice page 8 12) :: u32) \<le> 4080 \<Longrightarrow>
      16 + unat (from_le (slice page 8 12) :: u32) \<le> length page"
  shows "parse_page_events page sid cid sf cf out =
     (if list_all (event_safe sid cid sf cf) (page_events page)
      then Ret (length (page_records sid cid sf cf (page_events page)),
                out @ concat (page_records sid cid sf cf (page_events page)))
      else Panic)"
proof -
  let ?c = "unat (from_le (slice page 8 12) :: u32)"
  have "read_field page 0 8 = Ret (from_le (slice page 0 8) :: u64)"
    "read_field page 8 4 = Ret (from_le (slice page 8 12) :: u32)"
    using assms(1) by (simp_all add: read_field_eq field_of_def)
  then show ?thesis
    using assms(2)
    by (auto simp: parse_page_events_def page_events_def page_loop_decodes dispatch_all_eq Let_def page_records_def
        slice_at_def)
qed

text \<open>Tables in which every field ends no later than the field whose end the encoder checks.\<close>

definition submit_layout :: "submit_format \<Rightarrow> bool" where
  "submit_layout fmt \<longleftrightarrow> submit_fits fmt (max (sf_descriptors_dataloc fmt + 4) (sf_sqe fmt + 64))"

definition complete_layout :: "complete_format \<Rightarrow> bool" where
  "complete_layout fmt \<longleftrightarrow> complete_fits fmt (cf_retries fmt + 1)"

lemma layout_fits:
  "submit_layout sf \<Longrightarrow> sf_descriptors_dataloc sf + 4 \<le> n \<Longrightarrow> sf_sqe sf + 64 \<le> n \<Longrightarrow> submit_fits sf n"
  "complete_layout cf \<Longrightarrow> cf_retries cf < n \<Longrightarrow> complete_fits cf n"
  unfolding submit_layout_def submit_fits_def complete_layout_def complete_fits_def by linarith+

lemma layout_safe: "submit_layout sf \<Longrightarrow> complete_layout cf \<Longrightarrow> event_safe sid cid sf cf e"
  by (cases e) (simp add: event_safe_def layout_fits)

lemma ring_decode_lengths: "(t, d) \<in> set (ring_decode ts bs) \<Longrightarrow> length d \<le> length bs"
proof (induction "length bs" arbitrary: ts bs rule: less_induct)
  case less
  have sub: "length d \<le> length bs" if "(t, d) \<in> set (ring_decode ts' (drop m bs))" "0 < m" "\<not> length bs < 4" for ts' m
  proof -
    have "length (drop m bs) < length bs" using that(2,3) by auto
    then show ?thesis using less(1) [OF _ that(1)] by simp
  qed
  show ?case
    using less(2) by (subst (asm) ring_decode.simps) (auto simp: Let_def split: if_splits dest: sub)
qed

lemma page_event_length:
  assumes "(t, d) \<in> set (page_events page)"
  shows "length d \<le> 4080"
proof -
  let ?c = "unat (from_le (slice page 8 12) :: u32)"
  have "?c \<le> 4080" "(t, d) \<in> set (ring_decode (from_le (slice page 0 8)) (slice page 16 (16 + ?c)))"
    using assms by (auto simp: page_events_def Let_def split: if_splits)
  then show ?thesis using ring_decode_lengths [of t d _ "slice page 16 (16 + ?c)"] by fastforce
qed

text \<open>In a page, a record is malformed only when its descriptors are no whole entries.\<close>

definition whole_descriptors :: "u16 \<Rightarrow> submit_format \<Rightarrow> u64 \<times> byte list \<Rightarrow> bool" where
  "whole_descriptors sid sf = (\<lambda>(ts, data).
     event_type data = sid \<longrightarrow> event_entry_len data sf dvd length (descriptors_of data sf))"

lemma descriptors_within: "length (descriptors_of data fmt) \<le> length data"
  by (simp add: descriptors_of_def Let_def)

lemma event_record_valid:
  assumes "submit_layout sf" and "length data \<le> 4080" and "event_record sid cid sf cf (ts, data) = Some b"
  shows "valid_record b \<longleftrightarrow> whole_descriptors sid sf (ts, data)"
proof (cases "event_type data = sid")
  case True
  then have "submit_fits sf (length data)" "b = submit_bytes data ts sf"
    using assms by (auto simp: event_record_def layout_fits split: if_splits)
  then show ?thesis
    using submit_bytes_valid [of sf data ts] descriptors_within [of data sf] assms(2) True
    by (auto simp: whole_descriptors_def)
next
  case False
  then show ?thesis
    using assms complete_event_valid by (auto simp: event_record_def whole_descriptors_def split: if_splits)
qed

lemma page_records_valid:
  assumes "submit_layout sf" and w: "list_all (whole_descriptors sid sf) (page_events page)"
  shows "list_all valid_record (page_records sid cid sf cf (page_events page))"
proof -
  have "valid_record b" if "(t, d) \<in> set (page_events page)" "event_record sid cid sf cf (t, d) = Some b" for t d b
    using event_record_valid [OF assms(1) page_event_length [OF that(1)] that(2)] w that(1)
    by (auto simp: list_all_iff)
  then show ?thesis by (auto simp: list_all_iff page_records_def split: option.splits)
qed

section \<open>Encoding a page\<close>

text \<open>The entries of a page as the kernel packs them, by the layout documented at \<open>parse\_page\_events\<close>.\<close>

datatype ring_entry =
    SmallEvent nat "byte list"
  | LargeEvent nat "byte list"
  | TimeExtend nat u32
  | TimeStamp nat u64

fun wf_entry :: "ring_entry \<Rightarrow> bool" where
  "wf_entry (SmallEvent delta bs) \<longleftrightarrow> delta < 2 ^ 27 \<and> 4 dvd length bs \<and> bs \<noteq> [] \<and> length bs \<le> 112"
| "wf_entry (LargeEvent delta bs) \<longleftrightarrow> delta < 2 ^ 27 \<and> bs \<noteq> [] \<and> length bs < 2 ^ 32"
| "wf_entry (TimeExtend delta upper) \<longleftrightarrow> delta < 2 ^ 27"
| "wf_entry (TimeStamp delta ts) \<longleftrightarrow> delta < 2 ^ 27"

definition ring_header :: "nat \<Rightarrow> nat \<Rightarrow> byte list" where
  "ring_header type_len delta = to_le 4 (of_nat (delta * 32 + type_len) :: u32)"

fun ring_bytes :: "ring_entry \<Rightarrow> byte list" where
  "ring_bytes (SmallEvent delta bs) = ring_header (length bs div 4) delta @ bs"
| "ring_bytes (LargeEvent delta bs) = ring_header 0 delta @ to_le 4 (of_nat (length bs) :: u32) @ bs"
| "ring_bytes (TimeExtend delta upper) = ring_header 29 delta @ to_le 4 upper"
| "ring_bytes (TimeStamp delta ts) = ring_header 30 delta @ to_le 8 ts"

fun ring_events :: "u64 \<Rightarrow> ring_entry list \<Rightarrow> (u64 \<times> byte list) list" where
  "ring_events ts [] = []"
| "ring_events ts (SmallEvent delta bs # es) = (ts + of_nat delta, bs) # ring_events (ts + of_nat delta) es"
| "ring_events ts (LargeEvent delta bs # es) = (ts + of_nat delta, bs) # ring_events (ts + of_nat delta) es"
| "ring_events ts (TimeExtend delta upper # es) = ring_events (ts + of_nat (unat upper * 2 ^ 27 + delta)) es"
| "ring_events ts (TimeStamp delta t # es) = ring_events t es"

definition ring_page :: "u64 \<Rightarrow> ring_entry list \<Rightarrow> byte list \<Rightarrow> byte list" where
  "ring_page ts es rest =
     to_le 8 ts @ to_le 8 (of_nat (length (concat (map ring_bytes es))) :: u64) @ concat (map ring_bytes es) @ rest"

lemma unat_of_nat_u32: "n < 2 ^ 32 \<Longrightarrow> unat (of_nat n :: u32) = n"
  by (simp add: unat_of_nat)

lemma ring_header_simps:
  assumes "k < 32" and "delta < 2 ^ 27"
  shows "length (ring_header k delta) = 4"
    "unat (from_le (ring_header k delta) :: u32) mod 32 = k" "unat (from_le (ring_header k delta) :: u32) div 32 = delta"
proof -
  have "delta * 32 + k < 2 ^ 32" using assms by simp
  then have "unat (of_nat (delta * 32 + k) :: u32) = delta * 32 + k" by (rule unat_of_nat_u32)
  then have u: "unat (from_le (ring_header k delta) :: u32) = delta * 32 + k"
    by (simp only: ring_header_def) (simp add: codec_simps)
  show "length (ring_header k delta) = 4" by (simp add: ring_header_def)
  show "unat (from_le (ring_header k delta) :: u32) mod 32 = k" "unat (from_le (ring_header k delta) :: u32) div 32 = delta"
    unfolding u using assms(1) by simp_all
qed

lemma ring_decode_entry:
  assumes "wf_entry e"
  shows "ring_decode ts (ring_bytes e @ rest) =
    (case e of
       SmallEvent delta bs \<Rightarrow> (ts + of_nat delta, bs) # ring_decode (ts + of_nat delta) rest
     | LargeEvent delta bs \<Rightarrow> (ts + of_nat delta, bs) # ring_decode (ts + of_nat delta) rest
     | TimeExtend delta upper \<Rightarrow> ring_decode (ts + of_nat (unat upper * 2 ^ 27 + delta)) rest
     | TimeStamp delta t \<Rightarrow> ring_decode t rest)"
proof (cases e)
  case (SmallEvent delta bs)
  then obtain j where j: "length bs = 4 * j" "j \<le> 28" "bs \<noteq> []"
    using assms by (auto elim!: dvdE)
  then have "j \<noteq> 0" by (metis length_0_conv mult_0_right)
  with j have k: "length bs div 4 < 32" "length bs div 4 \<noteq> 0" "length bs div 4 < 29" "4 * (length bs div 4) = length bs"
    by simp_all
  then show ?thesis
    using SmallEvent assms ring_header_simps [OF k(1), of delta]
    by (subst ring_decode.simps) (simp add: Let_def)
next
  case (LargeEvent delta bs)
  then have "unat (of_nat (length bs) :: u32) = length bs" using assms by (simp add: unat_of_nat)
  then show ?thesis
    using LargeEvent assms ring_header_simps [of 0 delta]
    by (subst ring_decode.simps) (simp add: Let_def codec_simps del: to_le.simps)
next
  case (TimeExtend delta upper)
  then show ?thesis
    using assms ring_header_simps [of 29 delta]
    by (subst ring_decode.simps) (simp add: Let_def codec_simps add.assoc del: to_le.simps)
next
  case (TimeStamp delta t)
  then show ?thesis
    using assms ring_header_simps [of 30 delta]
    by (subst ring_decode.simps) (simp add: Let_def codec_simps del: to_le.simps)
qed

lemma ring_decode_entries:
  "\<forall>e \<in> set es. wf_entry e \<Longrightarrow> ring_decode ts (concat (map ring_bytes es)) = ring_events ts es"
proof (induction es arbitrary: ts)
  case Nil
  then show ?case by (simp add: ring_decode.simps)
next
  case (Cons e es)
  then show ?case by (simp add: ring_decode_entry split: ring_entry.split)
qed

lemma ring_page_commit:
  assumes "length (concat (map ring_bytes es)) \<le> 4080"
  shows "unat (from_le (slice (ring_page ts es rest) 8 12) :: u32) = length (concat (map ring_bytes es))"
proof -
  let ?d = "concat (map ring_bytes es)"
  have u64: "unat (of_nat (length ?d) :: u64) = length ?d" using assms by (simp add: unat_of_nat del: length_concat)
  have split8: "to_le 8 w = to_le 4 w @ to_le 4 (drop_bit 32 w)" for w :: u64
    by (simp add: numeral_eq_Suc drop_bit_drop_bit)
  have "from_le (to_le 4 w) = (ucast w :: u32)" for w :: u64
    by (rule bit_word_eqI) (auto simp: bit_from_le nth_to_le bit_ucast_iff bit_drop_bit_eq less_mult_imp_div_less mult.commute)
  then show ?thesis
    using assms u64
    by (simp add: ring_page_def slice_def split8 unsigned_ucast_eq take_bit_nat_eq_self del: to_le.simps length_concat)
qed

lemma ring_page_length:
  assumes "length (concat (map ring_bytes es)) \<le> 4080"
  shows "12 \<le> length (ring_page ts es rest)"
    and "16 + unat (from_le (slice (ring_page ts es rest) 8 12) :: u32) \<le> length (ring_page ts es rest)"
  unfolding ring_page_commit [OF assms] by (simp_all add: ring_page_def del: length_concat)

lemma page_events_ring_page:
  assumes "\<forall>e \<in> set es. wf_entry e" and "es \<noteq> []" and "length (concat (map ring_bytes es)) \<le> 4080"
  shows "page_events (ring_page ts es rest) = ring_events ts es"
proof -
  let ?d = "concat (map ring_bytes es)" and ?page = "ring_page ts es rest"
  have "ring_header k d \<noteq> []" for k d
    unfolding ring_header_def by (metis length_to_le list.size(3) zero_neq_numeral)
  then have "ring_bytes e \<noteq> []" for e by (cases e) simp_all
  then have pos: "0 < length ?d" using assms(2) by (cases es) auto
  note commit = ring_page_commit [OF assms(3), of ts rest]
  have "slice ?page 16 (16 + length ?d) = ?d" "slice ?page 0 8 = to_le 8 ts"
    by (simp_all add: ring_page_def slice_def del: to_le.simps length_concat)
  moreover have "\<not> (length ?d = 0 \<or> 4080 < length ?d)" using pos assms(3) by linarith
  ultimately show ?thesis
    by (simp only: page_events_def Let_def commit if_False ring_decode_entries [OF assms(1)] from_le_to_le_widths)
qed

lemma submit_panic_iff:
  "encode_submit data ts sf = Panic \<longleftrightarrow>
     sf_descriptors_dataloc sf + 4 \<le> length data \<and> sf_sqe sf + 64 \<le> length data \<and> \<not> submit_fits sf (length data)"
  unfolding encode_submit_eq by (cases "submit_fits sf (length data)") simp_all

lemma complete_panic_iff:
  "encode_complete data ts cf = Panic \<longleftrightarrow> cf_retries cf < length data \<and> \<not> complete_fits cf (length data)"
  unfolding encode_complete_eq by (cases "complete_fits cf (length data)") (simp_all del: wire_record.simps)

lemma submit_layout_iff: "submit_layout sf \<longleftrightarrow> (\<nexists>d t. encode_submit d t sf = Panic)"
proof
  assume "submit_layout sf"
  then show "\<nexists>d t. encode_submit d t sf = Panic" unfolding submit_panic_iff using layout_fits(1) by blast
next
  assume a: "\<nexists>d t. encode_submit d t sf = Panic"
  let ?n = "max (sf_descriptors_dataloc sf + 4) (sf_sqe sf + 64)"
  have "encode_submit (replicate ?n 0) 0 sf \<noteq> Panic" using a by blast
  then show "submit_layout sf" unfolding submit_panic_iff submit_layout_def by simp
qed

lemma complete_layout_iff: "complete_layout cf \<longleftrightarrow> (\<nexists>d t. encode_complete d t cf = Panic)"
proof
  assume "complete_layout cf"
  then show "\<nexists>d t. encode_complete d t cf = Panic" unfolding complete_panic_iff using layout_fits(2) by blast
next
  assume a: "\<nexists>d t. encode_complete d t cf = Panic"
  have "encode_complete (replicate (cf_retries cf + 1) 0) 0 cf \<noteq> Panic" using a by blast
  then show "complete_layout cf" unfolding complete_panic_iff complete_layout_def by simp
qed

section \<open>Properties\<close>

text \<open>
  \<open>encode\_complete\<close> on any event data: no result when the last byte it checks is missing;
  otherwise the completion record with the fields at the offsets of the table, which is a valid
  record of the format, if all fields lie in the data, and a panic if one of them does not.
\<close>

theorem encode_complete_decides:
  "encode_complete data ts fmt =
     (if \<not> cf_retries fmt < length data then Ret None
      else if complete_fits fmt (length data) then Ret (Some (wire_record (Complete (complete_event data ts fmt))))
      else Panic)
   \<and> valid_record (wire_record (Complete (complete_event data ts fmt)))"
  by (rule conjI [OF encode_complete_eq complete_event_valid])

text \<open>
  C25. \<open>encode\_submit\<close> on event data that holds all its fields: bytes with the header of the event,
  which are a record of the format, the one with the fields at the offsets of the table, exactly
  when the descriptor array consists of whole entries and the length fits 16 bits. The parser of
  the crate rejects the others.
\<close>

theorem encode_submit_record:
  assumes "submit_fits fmt (length data)"
  shows "\<exists>b. encode_submit data ts fmt = Ret (Some b)
    \<and> (valid_record b \<longleftrightarrow> event_entry_len data fmt dvd length (descriptors_of data fmt)
         \<and> 100 + length (descriptors_of data fmt) < 2 ^ 16)
    \<and> (valid_record b \<longrightarrow> b = wire_record (Submit (submit_event data ts fmt))
         \<and> wf_record (Submit (submit_event data ts fmt)))"
proof -
  have "encode_submit data ts fmt = Ret (Some (submit_bytes data ts fmt))"
    using assms by (simp add: encode_submit_eq submit_fits_def)
  then show ?thesis
    using submit_bytes_valid [OF assms, of ts] submit_event_wire [OF assms, of ts]
    by (intro exI [of _ "submit_bytes data ts fmt"]) blast
qed

text \<open>
  C36. Where the encoders panic: exactly on events that pass the length checks and still lack a
  field, which a table with another field behind the checked ones allows; never with a table
  whose checked fields end last.
\<close>

theorem encoders_panic_iff:
  "(encode_submit data ts sf = Panic \<longleftrightarrow>
      sf_descriptors_dataloc sf + 4 \<le> length data \<and> sf_sqe sf + 64 \<le> length data \<and> \<not> submit_fits sf (length data))
   \<and> (encode_complete data ts cf = Panic \<longleftrightarrow> cf_retries cf < length data \<and> \<not> complete_fits cf (length data))
   \<and> (submit_layout sf \<longleftrightarrow> (\<nexists>d t. encode_submit d t sf = Panic))
   \<and> (complete_layout cf \<longleftrightarrow> (\<nexists>d t. encode_complete d t cf = Panic))"
  using submit_panic_iff complete_panic_iff submit_layout_iff complete_layout_iff by simp

text \<open>
  C24. Any page of 4096 bytes, well-formed or garbage, with any tables: no access of the walk is out
  of range. \<open>parse\_page\_events\<close> appends the records of the events that the documented layout finds,
  in order, and counts them, unless an event of the page passes an encoder's length checks and still
  lacks one of its fields: then, and only then, it panics. With a table whose checked fields end
  last, each record is one of the format unless its descriptor array is no sequence of whole entries.
\<close>

theorem parse_page_appends_records:
  fixes page :: "byte list"
  assumes "length page = PAGE_SIZE"
  shows "let recs = page_records sid cid sf cf (page_events page) in
    parse_page_events page sid cid sf cf out =
      (if list_all (event_safe sid cid sf cf) (page_events page) then Ret (length recs, out @ concat recs) else Panic)
    \<and> (submit_layout sf \<and> complete_layout cf \<longrightarrow> list_all (event_safe sid cid sf cf) (page_events page))
    \<and> (submit_layout sf \<and> list_all (whole_descriptors sid sf) (page_events page) \<longrightarrow> list_all valid_record recs)"
  using parse_page_eq [of page sid cid sf cf out] page_records_valid [of sf sid page cid cf] layout_safe assms
  by (auto simp: list_all_iff Let_def)

text \<open>
  C6. \<open>parse\_page\_events\<close> on a page packed by the documented layout, events of both lengths,
  time extensions and absolute time stamps: the records of its events, in order, each with the
  time the deltas add up to.
\<close>

theorem parse_page_of_layout:
  assumes "\<forall>e \<in> set es. wf_entry e" and "es \<noteq> []" and "length (concat (map ring_bytes es)) \<le> 4080"
    and "submit_layout sf" and "complete_layout cf"
  shows "parse_page_events (ring_page ts es rest) sid cid sf cf out =
    Ret (length (page_records sid cid sf cf (ring_events ts es)),
         out @ concat (page_records sid cid sf cf (ring_events ts es)))"
  using page_events_ring_page [OF assms(1-3)] layout_safe [OF assms(4,5)] parse_page_eq [OF ring_page_length [OF assms(3)]]
  by (simp add: list_all_iff)

text \<open>A table of the completion event as the kernel lays it out, and a page with one completion.\<close>

definition sample_complete_format :: complete_format where
  "sample_complete_format = \<lparr>cf_ctrl_id = 8, cf_qid = 12, cf_cid = 16, cf_result = 24, cf_sq_head = 32,
     cf_sq_id = 34, cf_status = 36, cf_retries = 38\<rparr>"

definition sample_submit_format :: submit_format where
  "sample_submit_format = \<lparr>sf_ctrl_id = 8, sf_qid = 12, sf_cid = 16, sf_data_len = 20, sf_meta_len = 24,
     sf_use_sgl = 28, sf_single_segment = 29, sf_sqe = 30, sf_descriptors_dataloc = 96\<rparr>"

definition sample_event :: "byte list" where
  "sample_event = [8, 0] @ replicate 6 0 @ [1, 0, 0, 0, 3, 0, 0, 0, 7, 0] @ replicate 22 5"

lemma sample_layouts: "submit_layout sample_submit_format" "complete_layout sample_complete_format"
  by (simp_all add: submit_layout_def complete_layout_def submit_fits_def complete_fits_def
      sample_submit_format_def sample_complete_format_def)

lemma sample_entries:
  "\<forall>e \<in> set [TimeStamp 0 1000, SmallEvent 5 sample_event]. wf_entry e"
  "length (concat (map ring_bytes [TimeStamp 0 1000, SmallEvent 5 sample_event])) \<le> 4080"
  by (simp_all add: sample_event_def ring_header_def)

lemma sample_event_type: "event_type sample_event = 8" "length sample_event = 40"
  by (simp_all add: event_type_def sample_event_def)

lemma parse_page_of_layout_witness:
  "parse_page_events (ring_page 7 [TimeStamp 0 1000, SmallEvent 5 sample_event] [0, 0]) 9 8
     sample_submit_format sample_complete_format [] =
   Ret (1, wire_record (Complete (complete_event sample_event 1005 sample_complete_format)))"
proof -
  have "page_records 9 8 sample_submit_format sample_complete_format
      (ring_events 7 [TimeStamp 0 1000, SmallEvent 5 sample_event])
    = [wire_record (Complete (complete_event sample_event 1005 sample_complete_format))]"
    by (simp add: page_records_def event_record_def sample_event_type del: wire_record.simps)
      (simp add: sample_complete_format_def)
  then show ?thesis
    using parse_page_of_layout [OF sample_entries(1) list.distinct(2) sample_entries(2) sample_layouts, of 7 "[0, 0]" 9 8 "[]"]
    by (simp del: wire_record.simps)
qed

lemma parse_page_appends_records_witness:
  "\<exists>recs. parse_page_events (replicate 4096 1) 9 8 sample_submit_format sample_complete_format [2]
     = Ret (length recs, [2] @ concat recs)"
  using parse_page_appends_records [of "replicate 4096 1" 9 8 sample_submit_format sample_complete_format "[2]"]
    sample_layouts
  by (auto simp: Let_def)

lemma encode_submit_record_witness:
  "\<exists>b. encode_submit (replicate 100 0) 5 sample_submit_format = Ret (Some b) \<and> valid_record b"
proof -
  have "submit_fits sample_submit_format (length (replicate 100 (0 :: byte)))"
    by (simp add: submit_fits_def sample_submit_format_def)
  moreover have "field_of (replicate 100 0) 96 4 = (0 :: u32)"
    by (simp add: field_of_def slice_def numeral_eq_Suc)
  then have "descriptors_of (replicate 100 0) sample_submit_format = []"
    by (simp add: descriptors_of_def sample_submit_format_def Let_def slice_def)
  ultimately show ?thesis
    using encode_submit_record [of sample_submit_format "replicate 100 0" 5] by auto
qed

end
