(* ===== verification/Ftrace_Session.thy ===== *)
theory Ftrace_Session
  imports Ftrace_Page
begin

text \<open>
  A capture session of \<open>ftrace.rs\<close>: the control files it writes and reads under the tracing
  directory. The file system is a parameter, the record \<open>tracefs\<close> of its operations on a state:
  opening a file for writing, writing an open file, reading a whole file and listing a directory.
\<close>

section \<open>The control files\<close>

record 's tracefs =
  tf_open :: "path \<Rightarrow> 's \<Rightarrow> (io_error + unit) \<times> 's"
  tf_write :: "path \<Rightarrow> string \<Rightarrow> 's \<Rightarrow> (io_error + unit) \<times> 's"
  tf_read :: "path \<Rightarrow> 's \<Rightarrow> io_error + string"
  tf_read_dir :: "path \<Rightarrow> 's \<Rightarrow> io_error + (io_error + string) list"

datatype ftrace_error =
    FtOpening path io_error
  | FtWriting path io_error
  | FtReading path io_error
  | FtParsingId path
  | FtFormat format_error
  | FtEntry io_error
  | FtNoCpus path

text \<open>\<open>Path::join\<close> with a relative path.\<close>

definition path_join :: "path \<Rightarrow> string \<Rightarrow> path" where
  "path_join p q = (if p = [] \<or> last p = CHR ''/'' then p @ q else p @ ''/'' @ q)"

text \<open>Steps on the state that may fail; \<open>act_bind\<close> is \<open>?\<close> followed by the rest.\<close>

type_synonym ('s, 'a) act = "'s \<Rightarrow> (ftrace_error + 'a) \<times> 's"

definition act_return :: "'a \<Rightarrow> ('s, 'a) act" where
  "act_return x s = (Inr x, s)"

definition act_bind :: "('s, 'a) act \<Rightarrow> ('a \<Rightarrow> ('s, 'b) act) \<Rightarrow> ('s, 'b) act" where
  "act_bind m f s = (case m s of (Inl e, s') \<Rightarrow> (Inl e, s') | (Inr x, s') \<Rightarrow> f x s')"

definition act_read :: "('s \<Rightarrow> ftrace_error + 'a) \<Rightarrow> ('s, 'a) act" where
  "act_read g s = (g s, s)"

definition write_file :: "'s tracefs \<Rightarrow> path \<Rightarrow> string \<Rightarrow> ('s, unit) act" where
  "write_file tf path v s =
     (case tf_open tf path s of
        (Inl e, s') \<Rightarrow> (Inl (FtOpening path e), s')
      | (Inr _, s') \<Rightarrow>
          (case tf_write tf path v s' of
             (Inl e, s'') \<Rightarrow> (Inl (FtWriting path e), s'')
           | (Inr _, s'') \<Rightarrow> (Inr (), s'')))"

definition read_to_string :: "'s tracefs \<Rightarrow> path \<Rightarrow> 's \<Rightarrow> ftrace_error + string" where
  "read_to_string tf path s = (case tf_read tf path s of Inl e \<Rightarrow> Inl (FtReading path e) | Inr t \<Rightarrow> Inr t)"

section \<open>Event ids, formats and CPUs\<close>

definition event_file :: "path \<Rightarrow> string \<Rightarrow> string \<Rightarrow> string \<Rightarrow> path" where
  "event_file td system event file = path_join td (''events/'' @ system @ ''/'' @ event @ ''/'' @ file)"

definition read_event_id :: "'s tracefs \<Rightarrow> path \<Rightarrow> string \<Rightarrow> string \<Rightarrow> 's \<Rightarrow> ftrace_error + u16" where
  "read_event_id tf td system event s =
     (let path = event_file td system event ''id''
      in try_bind (read_to_string tf path s) (\<lambda>text.
         case parse_uint (2 ^ 16 - 1) (trim text) of Some n \<Rightarrow> Inr (of_nat n) | None \<Rightarrow> Inl (FtParsingId path)))"

definition read_format :: "'s tracefs \<Rightarrow> path \<Rightarrow> string \<Rightarrow> string \<Rightarrow> 's \<Rightarrow> ftrace_error + string" where
  "read_format tf td system event s = read_to_string tf (event_file td system event ''format'') s"

definition format_result :: "format_error + 'a \<Rightarrow> ftrace_error + 'a" where
  "format_result r = (case r of Inl e \<Rightarrow> Inl (FtFormat e) | Inr x \<Rightarrow> Inr x)"

definition parse_submit_format :: "'s tracefs \<Rightarrow> path \<Rightarrow> 's \<Rightarrow> ftrace_error + submit_format" where
  "parse_submit_format tf td s =
     try_bind (read_format tf td ''nvme'' ''nvme_pci_submit'' s) (\<lambda>c. format_result (submit_format_of c))"

definition parse_complete_format :: "'s tracefs \<Rightarrow> path \<Rightarrow> 's \<Rightarrow> ftrace_error + complete_format" where
  "parse_complete_format tf td s =
     try_bind (read_format tf td ''nvme'' ''nvme_pci_complete'' s) (\<lambda>c. format_result (complete_format_of c))"

text \<open>The CPU number of a directory entry's name.\<close>

definition cpu_of_name :: "string \<Rightarrow> nat option" where
  "cpu_of_name name = Option.bind (strip_prefix ''cpu'' name) (parse_uint (2 ^ 32 - 1))"

fun collect_cpus :: "(io_error + string) list \<Rightarrow> ftrace_error + nat list" where
  "collect_cpus [] = Inr []"
| "collect_cpus (Inl e # es) = Inl (FtEntry e)"
| "collect_cpus (Inr name # es) =
     try_bind (collect_cpus es) (\<lambda>cpus.
       Inr (case cpu_of_name name of Some n \<Rightarrow> n # cpus | None \<Rightarrow> cpus))"

definition discover_cpus :: "'s tracefs \<Rightarrow> path \<Rightarrow> 's \<Rightarrow> ftrace_error + nat list" where
  "discover_cpus tf td s =
     (let per_cpu = path_join td ''per_cpu'' in
      case tf_read_dir tf per_cpu s of
        Inl e \<Rightarrow> Inl (FtReading per_cpu e)
      | Inr entries \<Rightarrow>
          try_bind (collect_cpus entries) (\<lambda>cpus.
            if cpus = [] then Inl (FtNoCpus per_cpu) else Inr (sort cpus)))"

definition num_online_cpus :: "'s tracefs \<Rightarrow> path \<Rightarrow> 's \<Rightarrow> ftrace_error + u64" where
  "num_online_cpus tf td s = try_bind (discover_cpus tf td s) (\<lambda>cpus. Inr (of_nat (length cpus)))"

section \<open>FtraceCapture\<close>

record ftrace_capture =
  fc_tracing_dir :: path
  fc_submit_id :: u16
  fc_complete_id :: u16
  fc_submit_fmt :: submit_format
  fc_complete_fmt :: complete_format

text \<open>
  \<open>setup\<close>. The division is by the number of CPUs, which \<open>discover\_cpus\<close> only returns when it is
  not 0; the product wraps as it does in a release build.
\<close>

definition setup_filter :: "'s tracefs \<Rightarrow> path \<Rightarrow> nat option \<Rightarrow> ('s, unit) act" where
  "setup_filter tf td ctrl_id_filter =
     (case ctrl_id_filter of
        None \<Rightarrow> act_return ()
      | Some ident \<Rightarrow>
          let filter_text = ''ctrl_id=='' @ show_nat ident in
          act_bind (write_file tf (path_join td ''events/nvme/nvme_pci_submit/filter'') filter_text) (\<lambda>_.
          write_file tf (path_join td ''events/nvme/nvme_pci_complete/filter'') filter_text))"

definition ftrace_setup :: "'s tracefs \<Rightarrow> path \<Rightarrow> nat option \<Rightarrow> u64 \<Rightarrow> ('s, ftrace_capture) act" where
  "ftrace_setup tf td ctrl_id_filter buffer_mb =
     act_bind (act_read (num_online_cpus tf td)) (\<lambda>ncpus.
     act_bind (write_file tf (path_join td ''current_tracer'') ''nop'') (\<lambda>_.
     act_bind (write_file tf (path_join td ''events/enable'') ''0'') (\<lambda>_.
     act_bind (write_file tf (path_join td ''tracing_on'') ''0'') (\<lambda>_.
     let per_cpu_kb = (buffer_mb * 1024) div ncpus in
     act_bind (write_file tf (path_join td ''buffer_size_kb'') (show_word per_cpu_kb)) (\<lambda>_.
     act_bind (write_file tf (path_join td ''trace_options'') ''nooverwrite'') (\<lambda>_.
     act_bind (write_file tf (path_join td ''trace'') []) (\<lambda>_.
     act_bind (act_read (read_event_id tf td ''nvme'' ''nvme_pci_submit'')) (\<lambda>submit_id.
     act_bind (act_read (read_event_id tf td ''nvme'' ''nvme_pci_complete'')) (\<lambda>complete_id.
     act_bind (act_read (parse_submit_format tf td)) (\<lambda>submit_fmt.
     act_bind (act_read (parse_complete_format tf td)) (\<lambda>complete_fmt.
     act_bind (setup_filter tf td ctrl_id_filter) (\<lambda>_.
     act_bind (write_file tf (path_join td ''events/nvme/nvme_pci_submit/enable'') ''1'') (\<lambda>_.
     act_bind (write_file tf (path_join td ''events/nvme/nvme_pci_complete/enable'') ''1'') (\<lambda>_.
     act_return \<lparr>fc_tracing_dir = td, fc_submit_id = submit_id, fc_complete_id = complete_id,
                 fc_submit_fmt = submit_fmt, fc_complete_fmt = complete_fmt\<rparr>))))))))))))))"

definition ftrace_start :: "'s tracefs \<Rightarrow> ftrace_capture \<Rightarrow> ('s, unit) act" where
  "ftrace_start tf fc = write_file tf (path_join (fc_tracing_dir fc) ''tracing_on'') ''1''"

definition ftrace_stop :: "'s tracefs \<Rightarrow> ftrace_capture \<Rightarrow> ('s, unit) act" where
  "ftrace_stop tf fc =
     act_bind (write_file tf (path_join (fc_tracing_dir fc) ''tracing_on'') ''0'') (\<lambda>_.
     act_bind (write_file tf (path_join (fc_tracing_dir fc) ''events/nvme/nvme_pci_submit/enable'') ''0'') (\<lambda>_.
     write_file tf (path_join (fc_tracing_dir fc) ''events/nvme/nvme_pci_complete/enable'') ''0''))"

text \<open>The overrun counts of one \<open>stats\<close> text, and of all directories; unreadable files are skipped.\<close>

fun overruns_in :: "string list \<Rightarrow> u64 \<Rightarrow> u64" where
  "overruns_in [] tot = tot"
| "overruns_in (line # ls) tot =
     overruns_in ls
       (case strip_prefix ''overrun:'' line of
          Some v \<Rightarrow> (case parse_uint (2 ^ 64 - 1) (trim v) of Some n \<Rightarrow> tot + of_nat n | None \<Rightarrow> tot)
        | None \<Rightarrow> tot)"

fun sum_overruns :: "'s tracefs \<Rightarrow> path \<Rightarrow> (io_error + string) list \<Rightarrow> 's \<Rightarrow> u64 \<Rightarrow> ftrace_error + u64" where
  "sum_overruns tf per_cpu [] s tot = Inr tot"
| "sum_overruns tf per_cpu (Inl e # es) s tot = Inl (FtEntry e)"
| "sum_overruns tf per_cpu (Inr name # es) s tot =
     sum_overruns tf per_cpu es s
       (case tf_read tf (path_join (path_join per_cpu name) ''stats'') s of
          Inl e \<Rightarrow> tot
        | Inr content \<Rightarrow> overruns_in (lines content) tot)"

definition check_overruns :: "'s tracefs \<Rightarrow> ftrace_capture \<Rightarrow> 's \<Rightarrow> ftrace_error + u64" where
  "check_overruns tf fc s =
     (let per_cpu = path_join (fc_tracing_dir fc) ''per_cpu'' in
      case tf_read_dir tf per_cpu s of
        Inl e \<Rightarrow> Inl (FtReading per_cpu e)
      | Inr entries \<Rightarrow> sum_overruns tf per_cpu entries s 0)"

text \<open>\<open>cleanup\<close>: each write's result is dropped.\<close>

definition ignoring :: "('s, 'a) act \<Rightarrow> 's \<Rightarrow> 's" where
  "ignoring m s = snd (m s)"

definition ftrace_cleanup :: "'s tracefs \<Rightarrow> ftrace_capture \<Rightarrow> 's \<Rightarrow> 's" where
  "ftrace_cleanup tf fc s =
     (let td = fc_tracing_dir fc;
          s1 = ignoring (write_file tf (path_join td ''trace_options'') ''overwrite'') s;
          s2 = ignoring (write_file tf (path_join td ''buffer_size_kb'') ''1408'') s1;
          s3 = ignoring (write_file tf (path_join td ''events/nvme/nvme_pci_submit/filter'') ''0'') s2;
          s4 = ignoring (write_file tf (path_join td ''events/nvme/nvme_pci_complete/filter'') ''0'') s3
      in ignoring (write_file tf (path_join td ''trace'') []) s4)"

definition pipe_path :: "ftrace_capture \<Rightarrow> nat \<Rightarrow> path" where
  "pipe_path fc cpu = path_join (fc_tracing_dir fc) (''per_cpu/cpu'' @ show_nat cpu @ ''/trace_pipe_raw'')"

definition online_cpus :: "'s tracefs \<Rightarrow> ftrace_capture \<Rightarrow> 's \<Rightarrow> ftrace_error + nat list" where
  "online_cpus tf fc = discover_cpus tf (fc_tracing_dir fc)"

definition parse_page :: "ftrace_capture \<Rightarrow> byte list \<Rightarrow> byte list \<Rightarrow> (nat \<times> byte list) outcome" where
  "parse_page fc page out =
     parse_page_events page (fc_submit_id fc) (fc_complete_id fc) (fc_submit_fmt fc) (fc_complete_fmt fc) out"

section \<open>Plans of writes\<close>

text \<open>
  A tracing directory that logs the writes: its files have fixed contents, the files of the set
  \<open>denied\<close> cannot be opened for writing, and some values are rejected by the write itself. The first
  fault of a write is the error that \<open>write\_file\<close> returns.
\<close>

definition log_tracefs ::
  "(path \<Rightarrow> bool) \<Rightarrow> (path \<Rightarrow> string \<Rightarrow> bool) \<Rightarrow> (path \<Rightarrow> io_error + string) \<Rightarrow>
     (path \<Rightarrow> io_error + (io_error + string) list) \<Rightarrow> (path \<times> string) list tracefs" where
  "log_tracefs denied rejected files dirs =
     \<lparr>tf_open = (\<lambda>p log. (if denied p then Inl (IoError (OtherKind 13) ''denied'') else Inr (), log)),
      tf_write = (\<lambda>p v log. if rejected p v then (Inl (IoError (OtherKind 22) ''invalid''), log)
                    else (Inr (), log @ [(p, v)])),
      tf_read = (\<lambda>p log. files p), tf_read_dir = (\<lambda>p log. dirs p)\<rparr>"

definition write_fault :: "(path \<Rightarrow> bool) \<Rightarrow> (path \<Rightarrow> string \<Rightarrow> bool) \<Rightarrow> path \<times> string \<Rightarrow> ftrace_error option" where
  "write_fault denied rejected w =
     (if denied (fst w) then Some (FtOpening (fst w) (IoError (OtherKind 13) ''denied''))
      else if rejected (fst w) (snd w) then Some (FtWriting (fst w) (IoError (OtherKind 22) ''invalid''))
      else None)"

text \<open>
  The writes of a plan that are made before its first fault, and that fault.
\<close>

definition made :: "('w \<Rightarrow> 'e option) \<Rightarrow> 'w list \<Rightarrow> 'w list" where
  "made fault plan = takeWhile (\<lambda>w. fault w = None) plan"

definition first_fault :: "('w \<Rightarrow> 'e option) \<Rightarrow> 'w list \<Rightarrow> 'e option" where
  "first_fault fault plan = (case dropWhile (\<lambda>w. fault w = None) plan of [] \<Rightarrow> None | w # ws \<Rightarrow> fault w)"

lemma plan_simps [simp]:
  "made fault [] = []" "made fault (w # ws) = (if fault w = None then w # made fault ws else [])"
  "first_fault fault [] = None" "first_fault fault (w # ws) = (case fault w of None \<Rightarrow> first_fault fault ws | Some e \<Rightarrow> Some e)"
  by (auto simp: made_def first_fault_def split: option.split)

lemma plan_append:
  "first_fault fault (ws @ vs) = (case first_fault fault ws of None \<Rightarrow> first_fault fault vs | Some e \<Rightarrow> Some e)"
  "made fault (ws @ vs) = made fault ws @ (if first_fault fault ws = None then made fault vs else [])"
  by (induction ws) (auto split: option.split)

lemma made_all: "first_fault fault ws = None \<Longrightarrow> made fault ws = ws"
  by (induction ws) (auto split: option.splits)

text \<open>Where a plan stops: the writes made are its front up to the first faulty one.\<close>

lemma first_fault_at:
  "first_fault fault ws = Some e \<Longrightarrow> \<exists>k < length ws. made fault ws = take k ws \<and> fault (ws ! k) = Some e"
proof (induction ws)
  case (Cons w ws)
  show ?case
  proof (cases "fault w")
    case None
    then obtain k where "k < length ws" "made fault ws = take k ws" "fault (ws ! k) = Some e"
      using Cons by auto
    then show ?thesis using None by (intro exI [of _ "Suc k"]) simp
  next
    case (Some e')
    then show ?thesis using Cons.prems by (intro exI [of _ 0]) simp
  qed
qed simp

text \<open>A step that makes the writes of a plan up to the first fault, and fails with that.\<close>

definition runs :: "(path \<times> string \<Rightarrow> ftrace_error option) \<Rightarrow> ((path \<times> string) list, unit) act \<Rightarrow> (path \<times> string) list \<Rightarrow> bool" where
  "runs fault m plan \<longleftrightarrow> (\<forall>log. m log =
     ((case first_fault fault plan of None \<Rightarrow> Inr () | Some e \<Rightarrow> Inl e), log @ made fault plan))"

named_theorems plan_rules

lemma write_file_log:
  "write_file (log_tracefs denied rejected files dirs) p v log =
     (case write_fault denied rejected (p, v) of None \<Rightarrow> (Inr (), log @ [(p, v)]) | Some e \<Rightarrow> (Inl e, log))"
  by (simp add: write_file_def log_tracefs_def write_fault_def)

lemma runs_write [plan_rules]:
  "runs (write_fault denied rejected) (write_file (log_tracefs denied rejected files dirs) p v) [(p, v)]"
  by (auto simp: runs_def write_file_log split: option.split)

lemma runs_return [plan_rules]: "runs fault (act_return ()) []"
  by (simp add: runs_def act_return_def)

lemma runs_bind [plan_rules]: "runs fault m ws \<Longrightarrow> runs fault m' vs \<Longrightarrow> runs fault (act_bind m (\<lambda>_. m')) (ws @ vs)"
  by (auto simp: runs_def act_bind_def plan_append made_all split: option.split)

lemma runs_more [plan_rules]:
  "runs (write_fault denied rejected) m ws \<Longrightarrow>
     runs (write_fault denied rejected) (act_bind (write_file (log_tracefs denied rejected files dirs) p v) (\<lambda>_. m)) ((p, v) # ws)"
  using runs_bind [OF runs_write] by fastforce

lemma runsD:
  "runs fault m plan \<Longrightarrow> m log = ((case first_fault fault plan of None \<Rightarrow> Inr () | Some e \<Rightarrow> Inl e), log @ made fault plan)"
  by (simp add: runs_def)

section \<open>The plan of the session\<close>

text \<open>
  \<open>setup\<close> prepares the tracer and the buffer, reads the ids and the formats of the events, and
  enables the events.
\<close>

definition prepare_plan :: "path \<Rightarrow> u64 \<Rightarrow> u64 \<Rightarrow> (path \<times> string) list" where
  "prepare_plan td buffer_mb ncpus =
     [(path_join td ''current_tracer'', ''nop''), (path_join td ''events/enable'', ''0''),
      (path_join td ''tracing_on'', ''0''),
      (path_join td ''buffer_size_kb'', show_word ((buffer_mb * 1024) div ncpus)),
      (path_join td ''trace_options'', ''nooverwrite''), (path_join td ''trace'', [])]"

definition filter_plan :: "path \<Rightarrow> nat option \<Rightarrow> (path \<times> string) list" where
  "filter_plan td filt =
     (case filt of
        None \<Rightarrow> []
      | Some n \<Rightarrow> [(path_join td ''events/nvme/nvme_pci_submit/filter'', ''ctrl_id=='' @ show_nat n),
                  (path_join td ''events/nvme/nvme_pci_complete/filter'', ''ctrl_id=='' @ show_nat n)])"

definition enable_plan :: "path \<Rightarrow> nat option \<Rightarrow> (path \<times> string) list" where
  "enable_plan td filt = filter_plan td filt
     @ [(path_join td ''events/nvme/nvme_pci_submit/enable'', ''1''),
        (path_join td ''events/nvme/nvme_pci_complete/enable'', ''1'')]"

definition setup_plan :: "path \<Rightarrow> nat option \<Rightarrow> u64 \<Rightarrow> u64 \<Rightarrow> (path \<times> string) list" where
  "setup_plan td filt buffer_mb ncpus = prepare_plan td buffer_mb ncpus @ enable_plan td filt"

definition event_tables :: "'s tracefs \<Rightarrow> path \<Rightarrow> 's \<Rightarrow> ftrace_error + ftrace_capture" where
  "event_tables tf td s =
     try_bind (read_event_id tf td ''nvme'' ''nvme_pci_submit'' s) (\<lambda>submit_id.
     try_bind (read_event_id tf td ''nvme'' ''nvme_pci_complete'' s) (\<lambda>complete_id.
     try_bind (parse_submit_format tf td s) (\<lambda>submit_fmt.
     try_bind (parse_complete_format tf td s) (\<lambda>complete_fmt.
     Inr \<lparr>fc_tracing_dir = td, fc_submit_id = submit_id, fc_complete_id = complete_id,
          fc_submit_fmt = submit_fmt, fc_complete_fmt = complete_fmt\<rparr>))))"

lemma act_bind_return_left [simp]: "act_bind (act_return x) f = f x"
  by (simp add: act_bind_def act_return_def fun_eq_iff)

lemma act_bind_assoc: "act_bind (act_bind m f) g = act_bind m (\<lambda>x. act_bind (f x) g)"
  by (auto simp: act_bind_def fun_eq_iff split: prod.splits sum.splits)

lemma act_bind_Inr:
  "act_bind m f s = (Inr y, s') \<longleftrightarrow> (\<exists>x s1. m s = (Inr x, s1) \<and> f x s1 = (Inr y, s'))"
  by (auto simp: act_bind_def split: prod.splits sum.splits)

lemma bind_read_known: "g s = Inr x \<Longrightarrow> act_bind (act_read g) f s = f x s"
  by (simp add: act_bind_def act_read_def)

lemma bind_reads: "act_bind (act_read g) (\<lambda>x. act_bind (act_read (h x)) f) = act_bind (act_read (\<lambda>s. try_bind (g s) (\<lambda>x. h x s))) f"
  by (auto simp: act_bind_def act_read_def fun_eq_iff split: sum.split)

text \<open>\<open>setup\<close> in its three phases.\<close>

definition prepare_writes :: "'s tracefs \<Rightarrow> path \<Rightarrow> u64 \<Rightarrow> u64 \<Rightarrow> ('s, unit) act" where
  "prepare_writes tf td buffer_mb ncpus =
     act_bind (write_file tf (path_join td ''current_tracer'') ''nop'') (\<lambda>_.
     act_bind (write_file tf (path_join td ''events/enable'') ''0'') (\<lambda>_.
     act_bind (write_file tf (path_join td ''tracing_on'') ''0'') (\<lambda>_.
     act_bind (write_file tf (path_join td ''buffer_size_kb'') (show_word ((buffer_mb * 1024) div ncpus))) (\<lambda>_.
     act_bind (write_file tf (path_join td ''trace_options'') ''nooverwrite'') (\<lambda>_.
     write_file tf (path_join td ''trace'') [])))))"

definition enable_writes :: "'s tracefs \<Rightarrow> path \<Rightarrow> nat option \<Rightarrow> ('s, unit) act" where
  "enable_writes tf td filt =
     act_bind (setup_filter tf td filt) (\<lambda>_.
     act_bind (write_file tf (path_join td ''events/nvme/nvme_pci_submit/enable'') ''1'') (\<lambda>_.
     write_file tf (path_join td ''events/nvme/nvme_pci_complete/enable'') ''1''))"

lemma setup_phases:
  "ftrace_setup tf td filt mb = act_bind (act_read (num_online_cpus tf td)) (\<lambda>n.
     act_bind (prepare_writes tf td mb n) (\<lambda>_.
     act_bind (act_read (event_tables tf td)) (\<lambda>fc. act_bind (enable_writes tf td filt) (\<lambda>_. act_return fc))))"
proof -
  have tables: "act_bind (act_read (event_tables tf td)) f =
      act_bind (act_read (read_event_id tf td ''nvme'' ''nvme_pci_submit'')) (\<lambda>submit_id.
      act_bind (act_read (read_event_id tf td ''nvme'' ''nvme_pci_complete'')) (\<lambda>complete_id.
      act_bind (act_read (parse_submit_format tf td)) (\<lambda>submit_fmt.
      act_bind (act_read (parse_complete_format tf td)) (\<lambda>complete_fmt.
      f \<lparr>fc_tracing_dir = td, fc_submit_id = submit_id, fc_complete_id = complete_id,
         fc_submit_fmt = submit_fmt, fc_complete_fmt = complete_fmt\<rparr>))))" for f
    by (auto simp: event_tables_def act_bind_def act_read_def fun_eq_iff split: sum.split)
  show ?thesis
    by (simp only: ftrace_setup_def prepare_writes_def enable_writes_def tables act_bind_assoc Let_def)
qed

lemma prepare_runs:
  "runs (write_fault denied rejected) (prepare_writes (log_tracefs denied rejected files dirs) td mb n) (prepare_plan td mb n)"
  unfolding prepare_writes_def prepare_plan_def
  by (intro runs_more runs_write)

lemma enable_runs:
  "runs (write_fault denied rejected) (enable_writes (log_tracefs denied rejected files dirs) td filt) (enable_plan td filt)"
  unfolding enable_writes_def enable_plan_def
proof (rule runs_bind)
  show "runs (write_fault denied rejected) (setup_filter (log_tracefs denied rejected files dirs) td filt) (filter_plan td filt)"
    unfolding setup_filter_def filter_plan_def Let_def
    by (cases filt; simp only: option.case; intro runs_return runs_more runs_write)
qed (intro runs_more runs_write)

lemma setup_run:
  fixes log0 :: "(path \<times> string) list"
  assumes "num_online_cpus (log_tracefs denied rejected files dirs) td log0 = Inr n"
  shows "ftrace_setup (log_tracefs denied rejected files dirs) td filt mb log0 =
    (case first_fault (write_fault denied rejected) (prepare_plan td mb n) of
       Some e \<Rightarrow> (Inl e, log0 @ made (write_fault denied rejected) (prepare_plan td mb n))
     | None \<Rightarrow>
       (case event_tables (log_tracefs denied rejected files dirs) td log0 of
          Inl e \<Rightarrow> (Inl e, log0 @ prepare_plan td mb n)
        | Inr fc \<Rightarrow>
          (case first_fault (write_fault denied rejected) (enable_plan td filt) of
             Some e \<Rightarrow> (Inl e, log0 @ prepare_plan td mb n @ made (write_fault denied rejected) (enable_plan td filt))
           | None \<Rightarrow> (Inr fc, log0 @ setup_plan td filt mb n))))"
proof -
  let ?tf = "log_tracefs denied rejected files dirs" and ?fault = "write_fault denied rejected"
  define T where "T = event_tables ?tf td log0"
  have indep: "event_tables ?tf td = (\<lambda>log. T)"
    unfolding T_def by (rule ext) (simp add: event_tables_def read_event_id_def parse_submit_format_def
        parse_complete_format_def read_format_def read_to_string_def log_tracefs_def)
  note run = setup_phases assms
    act_bind_def act_read_def act_return_def runsD [OF prepare_runs] runsD [OF enable_runs] indep setup_plan_def
  show ?thesis
  proof (cases "first_fault ?fault (prepare_plan td mb n)")
    case None
    then show ?thesis
      using made_all [OF None] made_all [of ?fault "enable_plan td filt"]
      by (cases T; cases "first_fault ?fault (enable_plan td filt)") (simp_all add: run)
  qed (simp add: run)
qed

lemma setup_result:
  assumes "ftrace_setup tf td filt mb s = (Inr fc, s')"
  shows "fc_tracing_dir fc = td"
  using assms by (auto simp: ftrace_setup_def act_bind_Inr act_return_def Let_def)

section \<open>CPUs and overruns\<close>

lemma sort_empty [simp]: "sort xs = [] \<longleftrightarrow> xs = []"
  by (metis mset_sort mset_zero_iff)

lemma collect_cpus_names:
  "collect_cpus (map Inr names) = Inr (List.map_filter cpu_of_name names)"
  by (induction names) (auto simp: List.map_filter_simps split: option.splits)

lemma cpu_of_cpu_name: "cpu_of_name (''cpu'' @ show_nat n) = (if n < 2 ^ 32 then Some n else None)"
  by (simp add: cpu_of_name_def parse_show_nat)

text \<open>
  A \<open>stats\<close> file as ftrace writes it: lines of a key, a colon and a number, some with a fraction
  after the number.
\<close>

type_synonym stats_line = "string \<times> nat \<times> string"

definition stats_line_text :: "stats_line \<Rightarrow> string" where
  "stats_line_text l = fst l @ '': '' @ show_nat (fst (snd l)) @ snd (snd l)"

definition stats_text :: "stats_line list \<Rightarrow> string" where
  "stats_text ls = concat (map (\<lambda>l. stats_line_text l @ [newline_char]) ls)"

definition wf_stats :: "stats_line list \<Rightarrow> bool" where
  "wf_stats ls \<longleftrightarrow> (\<forall>(key, n, frac) \<in> set ls. plain key \<and> CHR '':'' \<notin> set key \<and> plain frac \<and> n < 2 ^ 64
     \<and> (key = ''overrun'' \<longrightarrow> frac = []))"

definition overrun_count :: "stats_line list \<Rightarrow> nat" where
  "overrun_count ls = sum_list (map (\<lambda>(key, n, frac). if key = ''overrun'' then n else 0) ls)"

lemma colon_prefix:
  "CHR '':'' \<notin> set key \<Longrightarrow> key \<noteq> p \<Longrightarrow> CHR '':'' \<notin> set p \<Longrightarrow> strip_prefix (p @ '':'') (key @ CHR '':'' # rest) = None"
proof (induction p arbitrary: key)
  case Nil
  then show ?case by (cases key) auto
next
  case (Cons c p)
  then show ?case by (cases key) auto
qed

lemma overruns_in_stats:
  "wf_stats ls \<Longrightarrow> overruns_in (map stats_line_text ls) tot = tot + of_nat (overrun_count ls)"
proof (induction ls arbitrary: tot)
  case Nil
  then show ?case by (simp add: overrun_count_def)
next
  case (Cons l ls)
  obtain key n frac where l: "l = (key, n, frac)" by (cases l)
  have wf: "wf_stats ls" using Cons.prems by (simp add: wf_stats_def)
  show ?case
  proof (cases "key = ''overrun''")
    case True
    then have "frac = []" "n < 2 ^ 64" using Cons.prems l by (auto simp: wf_stats_def)
    moreover have "trim ('' '' @ show_nat n) = show_nat n"
      using trim_digits [OF show_nat_digits [of n]] trim_space [OF spaces(4)] by simp
    moreover have "strip_prefix ''overrun:'' (stats_line_text l) = Some ('' '' @ show_nat n)"
      using True l \<open>frac = []\<close> by (simp add: stats_line_text_def)
    ultimately show ?thesis
      using Cons.IH [OF wf] True l
      by (simp add: parse_show_nat overrun_count_def add.assoc)
  next
    case False
    then have "strip_prefix (''overrun'' @ '':'') (key @ CHR '':'' # '' '' @ show_nat n @ frac) = None"
      using Cons.prems l by (intro colon_prefix) (auto simp: wf_stats_def)
    then have "strip_prefix ''overrun:'' (stats_line_text l) = None"
      using l by (simp add: stats_line_text_def)
    then show ?thesis
      using Cons.IH [OF wf] False l by (simp add: overrun_count_def)
  qed
qed

lemma stats_lines: "wf_stats ls \<Longrightarrow> lines (stats_text ls) = map stats_line_text ls"
proof -
  assume wf: "wf_stats ls"
  have nd: "\<not> is_digit newline_char" "\<not> is_digit (char_of (13 :: nat))" by (simp_all add: is_digit_def)
  have nc: "newline_char \<notin> set '': ''" "char_of (13 :: nat) \<notin> set '': ''" by code_simp+
  have "plain (stats_line_text l)" if "l \<in> set ls" for l
    using wf that nd nc show_nat_plain [of _ "fst (snd l)"]
    by (cases l) (auto simp: wf_stats_def plain_def stats_line_text_def)
  then show ?thesis
    using lines_of_lines [of "map stats_line_text ls"] by (simp add: stats_text_def plain_def comp_def)
qed

text \<open>What the directories of the CPUs hold: a \<open>stats\<close> file, or none that can be read.\<close>

definition holds_stats :: "(path \<Rightarrow> io_error + string) \<Rightarrow> path \<Rightarrow> (string \<Rightarrow> stats_line list option) \<Rightarrow> string \<Rightarrow> bool" where
  "holds_stats read per_cpu st name \<longleftrightarrow>
     (case st name of
        None \<Rightarrow> \<exists>e. read (path_join (path_join per_cpu name) ''stats'') = Inl e
      | Some ls \<Rightarrow> read (path_join (path_join per_cpu name) ''stats'') = Inr (stats_text ls) \<and> wf_stats ls)"

lemma sum_overruns_stats:
  assumes "\<forall>name \<in> set names. holds_stats (\<lambda>p. tf_read tf p s) per_cpu st name"
  shows "sum_overruns tf per_cpu (map Inr names) s tot
    = Inr (tot + of_nat (\<Sum>name\<leftarrow>names. case st name of None \<Rightarrow> 0 | Some ls \<Rightarrow> overrun_count ls))"
  using assms
proof (induction names arbitrary: tot)
  case (Cons name names)
  then show ?case
    by (cases "st name") (auto simp: holds_stats_def stats_lines overruns_in_stats add.assoc)
qed simp

section \<open>Properties\<close>

text \<open>
  C26. What \<open>setup\<close> writes, on a tracing directory in which any files may refuse to be opened and any
  values to be written: first the tracer, the events and the tracing off, the buffer divided among
  the CPUs, no overwriting and an empty trace; then, after the ids and the formats have been read,
  the filter and the two events on. The first write that fails ends it with its error, an unreadable
  table ends it between the two groups, and otherwise it succeeds. Tracing itself is not switched on.
\<close>

theorem setup_follows_plan:
  fixes log0 :: "(path \<times> string) list"
  assumes "discover_cpus (log_tracefs denied rejected files dirs) td log0 = Inr cpus"
  shows "let fault = write_fault denied rejected; prep = prepare_plan td mb (of_nat (length cpus));
      enable = enable_plan td filt
    in cpus \<noteq> [] \<and> (path_join td ''tracing_on'', ''1'') \<notin> set (prep @ enable)
      \<and> ftrace_setup (log_tracefs denied rejected files dirs) td filt mb log0 =
          (case first_fault fault prep of
             Some e \<Rightarrow> (Inl e, log0 @ made fault prep)
           | None \<Rightarrow>
             (case event_tables (log_tracefs denied rejected files dirs) td log0 of
                Inl e \<Rightarrow> (Inl e, log0 @ prep)
              | Inr fc \<Rightarrow>
                (case first_fault fault enable of
                   Some e \<Rightarrow> (Inl e, log0 @ prep @ made fault enable)
                 | None \<Rightarrow> (Inr fc, log0 @ prep @ enable))))"
proof -
  have "cpus \<noteq> []" using assms by (auto simp: discover_cpus_def Let_def try_bind_Inr split: sum.splits if_splits)
  moreover have "path_join td ''tracing_on'' \<noteq> path_join td ''events/nvme/nvme_pci_submit/enable''"
    "path_join td ''tracing_on'' \<noteq> path_join td ''events/nvme/nvme_pci_complete/enable''"
    "path_join td ''tracing_on'' \<noteq> path_join td ''buffer_size_kb''"
    by (simp_all add: path_join_def)
  then have "(path_join td ''tracing_on'', ''1'') \<notin> set (prepare_plan td mb (of_nat (length cpus)) @ enable_plan td filt)"
    by (cases filt) (auto simp: prepare_plan_def enable_plan_def filter_plan_def)
  moreover have "num_online_cpus (log_tracefs denied rejected files dirs) td log0 = Inr (of_nat (length cpus))"
    using assms by (simp add: num_online_cpus_def)
  ultimately show ?thesis by (simp only: Let_def setup_run setup_plan_def) simp
qed

text \<open>
  \<open>discover\_cpus\<close> gives the numbers of the \<open>cpuN\<close> entries of \<open>per\_cpu\<close>, in increasing order,
  each as often as it is listed, whatever else the directory holds; with none it is an error.
\<close>

theorem discover_cpus_sorts:
  assumes "tf_read_dir tf (path_join td ''per_cpu'') s = Inr (map Inr names)"
    and "mset names = mset (map (\<lambda>n. ''cpu'' @ show_nat n) ns) + mset others"
    and "\<forall>n \<in> set ns. n < 2 ^ 32" and "\<forall>name \<in> set others. cpu_of_name name = None"
  shows "discover_cpus tf td s = (if ns = [] then Inl (FtNoCpus (path_join td ''per_cpu'')) else Inr (sort ns))"
proof -
  have filt: "mset (List.map_filter cpu_of_name xs) = image_mset (the \<circ> cpu_of_name) (filter_mset (\<lambda>x. cpu_of_name x \<noteq> None) (mset xs))" for xs
    by (induction xs) (auto simp: List.map_filter_simps)
  have "filter_mset (\<lambda>x. cpu_of_name x \<noteq> None) (mset others) = {#}"
    using assms(4) by (simp add: filter_mset_eq_conv)
  moreover have "filter_mset (\<lambda>x. cpu_of_name x \<noteq> None) (mset (map (\<lambda>n. ''cpu'' @ show_nat n) ns))
      = mset (map (\<lambda>n. ''cpu'' @ show_nat n) ns)"
    using assms(3) cpu_of_cpu_name by (auto simp: filter_mset_eq_conv)
  moreover have "map (the \<circ> cpu_of_name \<circ> (\<lambda>n. ''cpu'' @ show_nat n)) ns = ns"
    using assms(3) cpu_of_cpu_name by (auto intro!: map_idI)
  ultimately have m: "mset (List.map_filter cpu_of_name names) = mset ns"
    unfolding filt assms(2) by (simp add: image_mset.compositionality mset_map [symmetric] comp_assoc del: mset_map)
  then have "sort (List.map_filter cpu_of_name names) = sort ns"
    by (intro properties_for_sort) simp_all
  moreover have "List.map_filter cpu_of_name names = [] \<longleftrightarrow> ns = []" using m by (metis mset_zero_iff)
  ultimately show ?thesis using assms(1) by (simp add: discover_cpus_def Let_def collect_cpus_names)
qed

text \<open>
  C14. \<open>check\_overruns\<close> over the entries of \<open>per\_cpu\<close> returns the sum of the \<open>overrun\<close> counts of their
  \<open>stats\<close> files as ftrace writes them (modulo \<open>2 ^ 64\<close>): no other counter enters it, files that cannot be
  read count nothing, and an entry that cannot be listed is the error it ends with, whatever follows it.
\<close>

theorem check_overruns_sums:
  assumes "\<forall>name \<in> set names. holds_stats (\<lambda>p. tf_read tf p s) (path_join (fc_tracing_dir fc) ''per_cpu'') st name"
  shows "(tf_read_dir tf (path_join (fc_tracing_dir fc) ''per_cpu'') s = Inr (map Inr names) \<longrightarrow>
      check_overruns tf fc s = Inr (of_nat (\<Sum>name\<leftarrow>names. case st name of None \<Rightarrow> 0 | Some ls \<Rightarrow> overrun_count ls)))
    \<and> (tf_read_dir tf (path_join (fc_tracing_dir fc) ''per_cpu'') s = Inr (map Inr names @ Inl e # rest) \<longrightarrow>
      check_overruns tf fc s = Inl (FtEntry e))"
proof -
  have "sum_overruns tf per_cpu (map Inr ns @ Inl e # rest) s tot = Inl (FtEntry e)" for per_cpu ns tot
    by (induction ns arbitrary: tot) simp_all
  then show ?thesis using sum_overruns_stats [OF assms] by (simp add: check_overruns_def)
qed

definition two_cpu_dirs :: "path \<Rightarrow> io_error + (io_error + string) list" where
  "two_cpu_dirs p = Inr [Inr ''cpu1'', Inr ''buffer'', Inr ''cpu0'']"

definition some_stats :: "string \<Rightarrow> stats_line list" where
  "some_stats name = (if name = ''buffer'' then []
     else [(''entries'', 7, []), (''overrun'', 4, []), (''commit overrun'', 9, []), (''now ts'', 12, ''.5'')])"

lemma show_0_1: "show_nat 0 = ''0''" "show_nat 1 = ''1''" "show_nat (Suc 0) = ''1''"
  by code_simp+

lemma two_cpu_names: "mset [''cpu1'', ''buffer'', ''cpu0''] = mset (map (\<lambda>n. ''cpu'' @ show_nat n) [1, 0]) + mset [''buffer'']"
  by (simp add: show_0_1)

lemma two_cpus: "discover_cpus (log_tracefs denied rejected files two_cpu_dirs) ''/t'' log0 = Inr [0, 1]"
  for log0 :: "(path \<times> string) list"
proof -
  have a: "tf_read_dir (log_tracefs denied rejected files two_cpu_dirs) (path_join ''/t'' ''per_cpu'') log0
      = Inr (map Inr [''cpu1'', ''buffer'', ''cpu0''])"
    by (simp add: log_tracefs_def two_cpu_dirs_def)
  have "cpu_of_name ''cpu1'' = Some 1" "cpu_of_name ''cpu0'' = Some 0" "cpu_of_name ''buffer'' = None"
    using cpu_of_cpu_name [of 1] cpu_of_cpu_name [of 0]
    by (simp_all add: show_0_1 cpu_of_name_def)
  then show ?thesis
    by (simp add: discover_cpus_def log_tracefs_def two_cpu_dirs_def)
qed

lemma setup_follows_plan_witness:
  "ftrace_setup (log_tracefs (\<lambda>p. p = ''/t/trace'') (\<lambda>p v. False) (\<lambda>p. Inr []) two_cpu_dirs) ''/t'' (Some 3) 8 [] =
     (Inl (FtOpening ''/t/trace'' (IoError (OtherKind 13) ''denied'')), take 5 (prepare_plan ''/t'' 8 2))"
  using setup_follows_plan [OF two_cpus [of "\<lambda>p. p = ''/t/trace''" "\<lambda>p v. False" "\<lambda>p. Inr []" "[]"], of 8 "Some 3"]
  by (simp add: prepare_plan_def write_fault_def path_join_def Let_def)

lemma discover_cpus_sorts_witness:
  "discover_cpus (log_tracefs (\<lambda>p. False) (\<lambda>p v. False) (\<lambda>p. Inr []) two_cpu_dirs) ''/t'' [] = Inr [0, 1]"
proof -
  have a: "tf_read_dir (log_tracefs (\<lambda>p. False) (\<lambda>p v. False) (\<lambda>p. Inr []) two_cpu_dirs) (path_join ''/t'' ''per_cpu'') []
      = Inr (map Inr [''cpu1'', ''buffer'', ''cpu0''])"
    by (simp add: log_tracefs_def two_cpu_dirs_def)
  have "cpu_of_name ''buffer'' = None" by (simp add: cpu_of_name_def)
  then show ?thesis using discover_cpus_sorts [OF a two_cpu_names] by simp
qed

text \<open>Two CPUs with counts, and an entry without a \<open>stats\<close> file.\<close>

lemma check_overruns_sums_witness:
  "check_overruns (log_tracefs (\<lambda>p. False) (\<lambda>p v. False)
       (\<lambda>p. if p = ''/t/per_cpu/buffer/stats'' then Inl (IoError (OtherKind 2) []) else Inr (stats_text (some_stats ''cpu'')))
       two_cpu_dirs)
     \<lparr>fc_tracing_dir = ''/t'', fc_submit_id = 1, fc_complete_id = 2, fc_submit_fmt = sample_submit_format,
      fc_complete_fmt = sample_complete_format\<rparr> [] = Inr 8"
  (is "check_overruns ?tf ?fc [] = _")
proof -
  let ?st = "\<lambda>name. if name = ''buffer'' then None else Some (some_stats ''cpu'')"
  have "newline_char = CHR 0x0A" "char_of (13 :: nat) = CHR 0x0D" by code_simp+
  then have wf: "wf_stats (some_stats name)" for name
    by (simp add: wf_stats_def some_stats_def plain_def)
  have dir: "tf_read_dir ?tf (path_join (fc_tracing_dir ?fc) ''per_cpu'') [] = Inr (map Inr [''cpu1'', ''buffer'', ''cpu0''])"
    by (simp add: log_tracefs_def two_cpu_dirs_def)
  have "\<forall>name \<in> set [''cpu1'', ''buffer'', ''cpu0'']. holds_stats (\<lambda>p. tf_read ?tf p [])
        (path_join (fc_tracing_dir ?fc) ''per_cpu'') ?st name"
    using wf by (simp add: log_tracefs_def path_join_def holds_stats_def)
  from check_overruns_sums [OF this] dir show ?thesis
    by (simp add: overrun_count_def some_stats_def)
qed

end
