(* ===== verification/Record_Stream.thy ===== *)
theory Record_Stream
  imports Record_Reader
begin

text \<open>
  The abstract specification of the reader: \<open>parse_stream\<close> splits a byte string into records by
  their length fields. On a source that delivers these bytes in any pieces, with any number of
  interrupted calls, \<open>RecordReader\<close> computes it; and it recovers exactly the records of a
  concatenation of records.
\<close>

section \<open>Steady sources\<close>

primrec event_bytes :: "read_event \<Rightarrow> byte list" where
  "event_bytes (Data c) = c"
| "event_bytes (Fails e) = []"

definition source_bytes :: "source \<Rightarrow> byte list" where
  "source_bytes s = concat (map event_bytes s)"

primrec steady_event :: "read_event \<Rightarrow> bool" where
  "steady_event (Data c) \<longleftrightarrow> c \<noteq> []"
| "steady_event (Fails e) \<longleftrightarrow> io_kind e = Interrupted"

definition steady :: "source \<Rightarrow> bool" where
  "steady s \<longleftrightarrow> list_all steady_event s"

lemma steady_simps [simp]:
  "steady []" "steady (ev # s) \<longleftrightarrow> steady_event ev \<and> steady s"
  by (simp_all add: steady_def)

lemma source_bytes_simps [simp]:
  "source_bytes [] = []" "source_bytes (ev # s) = event_bytes ev @ source_bytes s"
  by (simp_all add: source_bytes_def)

lemma read_call_steady_Inr:
  assumes "steady s" and "0 < n" and "read_call s n = (Inr bs, s')"
  shows "steady s' \<and> source_bytes s = bs @ source_bytes s' \<and> length bs \<le> n
    \<and> (bs = [] \<longrightarrow> source_bytes s = [])"
  using assms by (induction s n rule: read_call.induct) (auto split: if_splits)

lemma read_call_steady_Inl:
  assumes "steady s" and "read_call s n = (Inl e, s')"
  shows "steady s' \<and> source_bytes s = source_bytes s' \<and> io_kind e = Interrupted"
  using assms by (induction s n rule: read_call.induct) (auto split: if_splits)

text \<open>On a steady source the fill loop takes exactly the next bytes, in whatever pieces they come.\<close>

lemma read_exact_steady:
  "steady s \<Longrightarrow> \<exists>s'. read_exact_or_eof s n = (Inr (take n (source_bytes s)), s') \<and> steady s'
     \<and> source_bytes s' = drop n (source_bytes s)"
proof (induction s n rule: read_exact_or_eof.induct)
  case (1 s n)
  show ?case
  proof (cases "n = 0")
    case True
    with "1.prems" show ?thesis by (subst read_exact_or_eof.simps) simp
  next
    case False
    obtain r s1 where rc: "read_call s n = (r, s1)" by (cases "read_call s n")
    show ?thesis
    proof (cases r)
      case (Inl e)
      note st = read_call_steady_Inl [OF "1.prems" rc [unfolded Inl]]
      then have k: "io_kind e = Interrupted" and s1: "steady s1" by auto
      from "1.IH"(1) [OF False rc [symmetric] Inl k s1] show ?thesis
        using False rc Inl k st by (subst read_exact_or_eof.simps) simp
    next
      case (Inr bs)
      note st = read_call_steady_Inr [OF "1.prems" _ rc [unfolded Inr]]
      show ?thesis
      proof (cases "bs = []")
        case True
        with st False rc Inr show ?thesis by (subst read_exact_or_eof.simps) auto
      next
        case nonempty: False
        have s1: "steady s1" using st False by simp
        from "1.IH"(2) [OF False rc [symmetric] Inr nonempty s1]
        obtain s2 where "read_exact_or_eof s1 (n - length bs)
            = (Inr (take (n - length bs) (source_bytes s1)), s2)"
          and "steady s2" and "source_bytes s2 = drop (n - length bs) (source_bytes s1)"
          by blast
        then show ?thesis
          using False rc Inr nonempty st by (subst read_exact_or_eof.simps) auto
      qed
    qed
  qed
qed

section \<open>Splitting a byte string into records\<close>

function parse_stream ::
  "'e binrw \<Rightarrow> u64 \<Rightarrow> byte list \<Rightarrow> raw_record list \<times> 'e trace_error option" where
  "parse_stream br offset bs =
     (if bs = [] then ([], None)
      else if length bs < 24 then ([], Some (TruncatedHeader offset (length bs)))
      else case parse_header br (take 24 bs) offset of
        Inl e \<Rightarrow> ([], Some e)
      | Inr h \<Rightarrow>
        let len = unat (h_len h) in
        if len < 24 then ([], Some (InvalidLength offset (h_record_type h) len
                  ''record length is smaller than the header''))
        else if length bs < len then ([], Some (TruncatedPayload offset (len - 24) (length bs - 24)))
        else case parse_record_bytes br (take len bs) offset of
          Inl e \<Rightarrow> ([], Some e)
        | Inr raw \<Rightarrow>
            let (raws, e) = parse_stream br (offset + of_nat len) (drop len bs) in (raw # raws, e))"
  by pat_completeness auto
termination
  by (relation "measure (\<lambda>(br, offset, bs). length bs)") auto

declare parse_stream.simps [simp del]

lemma parse_stream_Nil [simp]: "parse_stream br offset [] = ([], None)"
  by (subst parse_stream.simps) simp

lemma drain_is_parse_stream:
  "steady s \<Longrightarrow> \<exists>r'. drain_records br \<lparr>r_inner = s, r_offset = offset\<rparr>
     = (fst (parse_stream br offset (source_bytes s)), snd (parse_stream br offset (source_bytes s)), r')"
proof (induction "source_size s" arbitrary: s offset rule: less_induct)
  case less
  let ?bs = "source_bytes s"
  let ?r = "\<lparr>r_inner = s, r_offset = offset\<rparr>"
  obtain s1 where h: "read_exact_or_eof s 24 = (Inr (take 24 ?bs), s1)"
    and s1: "steady s1" "source_bytes s1 = drop 24 ?bs"
    using read_exact_steady [OF less.prems] by blast
  show ?case
  proof (cases "24 \<le> length ?bs")
    case False
    then show ?thesis
      using h by (subst drain_records.simps)
        (auto simp: parse_stream.simps [of br offset ?bs] next_record_def Let_def min_def)
  next
    case True
    then have ne: "?bs \<noteq> []" by auto
    show ?thesis
    proof (cases "parse_header br (take 24 ?bs) offset")
      case (Inl e)
      then show ?thesis
        using h True ne by (subst drain_records.simps)
          (auto simp: parse_stream.simps [of br offset ?bs] next_record_def Let_def)
    next
      case (Inr hd)
      let ?len = "unat (h_len hd)"
      show ?thesis
      proof (cases "?len < 24")
        case True
        then show ?thesis
          using h Inr \<open>24 \<le> length ?bs\<close> ne
          by (subst drain_records.simps)
            (auto simp: parse_stream.simps [of br offset ?bs] next_record_def Let_def)
      next
        case ge: False
        obtain s2 where p: "read_exact_or_eof s1 (?len - 24) = (Inr (take (?len - 24) (drop 24 ?bs)), s2)"
          and s2: "steady s2" "source_bytes s2 = drop (?len - 24) (drop 24 ?bs)"
          using read_exact_steady [OF s1(1)] s1(2) by metis
        have tk: "take 24 ?bs @ take (?len - 24) (drop 24 ?bs) = take ?len ?bs"
          using ge take_add [of 24 "?len - 24" ?bs] by simp
        show ?thesis
        proof (cases "length ?bs < ?len")
          case True
          then show ?thesis
            using h p Inr \<open>24 \<le> length ?bs\<close> ne ge
            by (subst drain_records.simps)
              (auto simp: parse_stream.simps [of br offset ?bs] next_record_def Let_def)
        next
          case full: False
          show ?thesis
          proof (cases "parse_record_bytes br (take ?len ?bs) offset")
            case (Inl e)
            then show ?thesis
              using h p Inr \<open>24 \<le> length ?bs\<close> ne ge full tk
              by (subst drain_records.simps)
                (auto simp: parse_stream.simps [of br offset ?bs] next_record_def Let_def)
          next
            case (Inr raw)
            have nr: "next_record br ?r
                = (Inr (Some raw), \<lparr>r_inner = s2, r_offset = offset + of_nat ?len\<rparr>)"
              using h p Inr \<open>parse_header br (take 24 ?bs) offset = Inr hd\<close> \<open>24 \<le> length ?bs\<close> ne ge full tk
              by (auto simp: next_record_def Let_def)
            have "source_size s2 < source_size s"
              using next_record_size [OF nr] by simp
            from less.hyps [OF this s2(1), of "offset + of_nat ?len"]
            show ?thesis
              using nr s2(2) Inr \<open>parse_header br (take 24 ?bs) offset = Inr hd\<close>
                \<open>24 \<le> length ?bs\<close> ne ge full
              by (subst drain_records.simps)
                (auto simp: parse_stream.simps [of br offset ?bs] Let_def split: prod.splits)
          qed
        qed
      qed
    qed
  qed
qed

section \<open>Concatenations of records\<close>

text \<open>The raw records of a list of byte records laid out from an offset.\<close>

primrec raws_at :: "u64 \<Rightarrow> byte list list \<Rightarrow> raw_record list" where
  "raws_at offset [] = []"
| "raws_at offset (b # bss) = raw_of b offset # raws_at (offset + of_nat (length b)) bss"

lemma map_raw_bytes_raws_at [simp]: "map raw_bytes (raws_at offset bss) = bss"
  by (induction bss arbitrary: offset) (auto simp: raw_of_def)

lemma map_raw_record_raws_at [simp]: "map raw_record (raws_at offset bss) = map record_of bss"
  by (induction bss arbitrary: offset) (auto simp: raw_of_def)

lemma length_raws_at [simp]: "length (raws_at offset bss) = length bss"
  by (induction bss arbitrary: offset) auto

lemma raws_at_append:
  "raws_at offset (xs @ ys) = raws_at offset xs @ raws_at (offset + of_nat (length (concat xs))) ys"
  by (induction xs arbitrary: offset) (auto simp: add.assoc)

lemma parse_header_valid:
  assumes "binrw_le br" and "valid_record b"
  shows "parse_header br (take 24 (b @ rest)) offset = Inr (header_of b)"
  using parse_header_eq [OF assms(1), of b offset] valid_record_header [OF assms(2)] by simp

lemma valid_record_nonempty: "valid_record b \<Longrightarrow> b \<noteq> []"
  using valid_record_header(1) [of b] by auto

lemma parse_stream_valid_Cons:
  assumes br: "binrw_le br" and v: "valid_record b"
  shows "parse_stream br offset (b @ rest) =
    (raw_of b offset # fst (parse_stream br (offset + of_nat (length b)) rest),
     snd (parse_stream br (offset + of_nat (length b)) rest))"
  using parse_header_valid [OF br v, of rest offset] valid_record_header [OF v]
    valid_record_nonempty [OF v] parse_valid [OF br v]
  by (subst parse_stream.simps) (auto simp: Let_def split: prod.splits)

lemma parse_stream_valids:
  assumes br: "binrw_le br"
  shows "list_all valid_record bss \<Longrightarrow> parse_stream br offset (concat bss @ rest) =
    (raws_at offset bss @ fst (parse_stream br (offset + of_nat (length (concat bss))) rest),
     snd (parse_stream br (offset + of_nat (length (concat bss))) rest))"
proof (induction bss arbitrary: offset)
  case (Cons b bss)
  then show ?case
    by (simp add: parse_stream_valid_Cons [OF br] add.assoc)
qed simp

text \<open>
  Every result of the splitter: the records of a prefix of the bytes, and an error exactly when
  the prefix is not all of them.
\<close>

lemma parse_stream_first:
  assumes br: "binrw_le br" and ne: "bs \<noteq> []"
  shows "(\<exists>e. parse_stream br offset bs = ([], Some e)) \<or> (\<exists>b rest. bs = b @ rest \<and> valid_record b)"
proof -
  have "\<exists>b rest. bs = b @ rest \<and> valid_record b"
    if "parse_record_bytes br (take n bs) offset = Inr raw" for n raw
    using that parse_Inr_iff [OF br] by (metis append_take_drop_id)
  then show ?thesis
    using ne by (subst parse_stream.simps)
      (auto simp: Let_def split: sum.splits if_splits prod.splits)
qed

lemma parse_stream_split:
  assumes br: "binrw_le br"
  shows "\<exists>bss rest. bs = concat bss @ rest \<and> list_all valid_record bss
    \<and> fst (parse_stream br offset bs) = raws_at offset bss
    \<and> (snd (parse_stream br offset bs) = None \<longleftrightarrow> rest = [])"
proof (induction "length bs" arbitrary: bs offset rule: less_induct)
  case less
  show ?case
  proof (cases "bs = []")
    case True
    then show ?thesis by (intro exI [of _ "[]"]) simp
  next
    case False
    from parse_stream_first [OF br this, of offset] show ?thesis
    proof (elim disjE exE conjE)
      fix e assume "parse_stream br offset bs = ([], Some e)"
      then show ?thesis using False by (intro exI [of _ "[]"] exI [of _ bs]) simp
    next
      fix b rest assume bs: "bs = b @ rest" and v: "valid_record b"
      then have "length rest < length bs" using valid_record_nonempty [OF v] by simp
      from less [OF this, of "offset + of_nat (length b)"] obtain bss rest' where
        "rest = concat bss @ rest'" "list_all valid_record bss"
        "fst (parse_stream br (offset + of_nat (length b)) rest) = raws_at (offset + of_nat (length b)) bss"
        "snd (parse_stream br (offset + of_nat (length b)) rest) = None \<longleftrightarrow> rest' = []"
        by (elim exE conjE) (rule that)
      then show ?thesis
        using v by (intro exI [of _ "b # bss"] exI [of _ rest'])
          (simp add: bs parse_stream_valid_Cons [OF br v])
    qed
  qed
qed

lemma parse_stream_complete:
  assumes br: "binrw_le br"
  shows "parse_stream br offset bs = (raws, None) \<longleftrightarrow>
    (\<exists>bss. bs = concat bss \<and> list_all valid_record bss \<and> raws = raws_at offset bss)"
proof
  assume ok: "parse_stream br offset bs = (raws, None)"
  obtain bss rest where "bs = concat bss @ rest" "list_all valid_record bss"
    "fst (parse_stream br offset bs) = raws_at offset bss"
    "snd (parse_stream br offset bs) = None \<longleftrightarrow> rest = []"
    using parse_stream_split [OF br] by blast
  with ok show "\<exists>bss. bs = concat bss \<and> list_all valid_record bss \<and> raws = raws_at offset bss"
    by (intro exI [of _ bss]) simp
next
  assume "\<exists>bss. bs = concat bss \<and> list_all valid_record bss \<and> raws = raws_at offset bss"
  then obtain bss where "bs = concat bss" "list_all valid_record bss" "raws = raws_at offset bss"
    by blast
  then show "parse_stream br offset bs = (raws, None)"
    using parse_stream_valids [OF br, of bss offset "[]"] by simp
qed

text \<open>A record cut short is an error that names its offset and what is missing.\<close>

lemma parse_stream_truncated:
  assumes br: "binrw_le br" and v: "valid_record b" and k: "0 < k" "k < length b"
  shows "parse_stream br offset (take k b) =
    ([], Some (if k < 24 then TruncatedHeader offset k
               else TruncatedPayload offset (length b - 24) (k - 24)))"
proof -
  have ph: "parse_header br (take 24 b) offset = Inr (header_of b)"
    using parse_header_valid [OF br v, of "[]"] by simp
  show ?thesis
    using k valid_record_header [OF v] ph
    by (subst parse_stream.simps) (auto simp: Let_def min_def)
qed

section \<open>Properties\<close>

text \<open>A source that delivers a record in pieces, with interrupted calls.\<close>

definition pieces :: "byte list \<Rightarrow> source" where
  "pieces bs = map (\<lambda>b. Data [b]) bs @ [Fails (IoError Interrupted [])]"

lemma pieces_steady [simp]: "steady (pieces bs)" "source_bytes (pieces bs) = bs"
  by (induction bs) (simp_all add: pieces_def)

text \<open>
  C12. \<open>RecordReader\<close> reads every source to its end, however the bytes are cut into \<open>read\<close> calls
  and however often these are interrupted: the records, their offsets and the final error are
  those of splitting the bytes by their length fields.
\<close>

theorem reader_is_stream_splitter:
  assumes "steady s"
  shows "\<exists>r'. drain_records br (reader_new s)
    = (fst (parse_stream br 0 (source_bytes s)), snd (parse_stream br 0 (source_bytes s)), r')"
  using drain_is_parse_stream [OF assms] by (simp add: reader_new_def)

lemma reader_is_stream_splitter_witness:
  "\<exists>r'. drain_records le_binrw (reader_new (pieces [1, 2, 3])) = ([], Some (TruncatedHeader 0 3), r')"
  using reader_is_stream_splitter [OF pieces_steady(1), of le_binrw "[1, 2, 3]"]
  by (simp add: parse_stream.simps [of le_binrw 0 "[1, 2, 3]"] eval_nat_numeral)

text \<open>
  C22. A source is read without an error exactly when its bytes are a concatenation of records of
  the format, and then these are the records returned, at their offsets.
\<close>

theorem reader_accepts_record_sequences:
  assumes "binrw_le br" and "steady s"
  shows "(\<exists>r'. drain_records br (reader_new s) = (raws, None, r')) \<longleftrightarrow>
    (\<exists>bss. source_bytes s = concat bss \<and> list_all valid_record bss \<and> raws = raws_at 0 bss)"
  using drain_is_parse_stream [OF assms(2), of br 0]
    parse_stream_complete [OF assms(1), of 0 "source_bytes s" raws]
  by (metis fst_conv snd_conv prod.collapse reader_new_def)

lemma reader_accepts_record_sequences_witness:
  "\<exists>r'. drain_records le_binrw
       (reader_new (pieces (concat [sample_bytes (sample_header 1 2 3 4 5), sample_bytes (sample_header 6 7 3 4 5)])))
     = (raws_at 0 [sample_bytes (sample_header 1 2 3 4 5), sample_bytes (sample_header 6 7 3 4 5)], None, r')"
  by (rule iffD2 [OF reader_accepts_record_sequences [OF binrw_le_le_binrw pieces_steady(1)]])
    (intro exI [of _ "[sample_bytes (sample_header 1 2 3 4 5), sample_bytes (sample_header 6 7 3 4 5)]"], simp)

text \<open>
  C33. A capture cut off inside a record: the whole records before it are returned, and the error
  is a truncation at the offset where the cut record starts, with the byte counts of the cut.
\<close>

theorem reader_reports_truncation:
  assumes "binrw_le br" and "steady s" and "list_all valid_record bss" and "valid_record b"
    and "0 < k" and "k < length b" and "source_bytes s = concat bss @ take k b"
  shows "\<exists>r'. drain_records br (reader_new s) = (raws_at 0 bss,
    Some (if k < 24 then TruncatedHeader (of_nat (length (concat bss))) k
          else TruncatedPayload (of_nat (length (concat bss))) (length b - 24) (k - 24)), r')"
  using drain_is_parse_stream [OF assms(2), of br 0]
    parse_stream_truncated [OF assms(1,4-6)] parse_stream_valids [OF assms(1,3), of 0 "take k b"]
  by (simp add: assms(7) reader_new_def)

lemma reader_reports_truncation_witness:
  "\<exists>r'. drain_records le_binrw
       (reader_new (pieces (concat [sample_bytes (sample_header 1 2 3 4 5)]
          @ take 30 (sample_bytes (sample_header 6 7 3 4 5)))))
     = (raws_at 0 [sample_bytes (sample_header 1 2 3 4 5)], Some (TruncatedPayload 40 16 6), r')"
  using reader_reports_truncation [OF binrw_le_le_binrw pieces_steady(1),
      of "[sample_bytes (sample_header 1 2 3 4 5)]" "sample_bytes (sample_header 6 7 3 4 5)" 30]
  by simp

end
