(* ===== verification/Priority_Queue.thy ===== *)
theory Priority_Queue
  imports Trace_Prelude
begin

text \<open>
  The interfaces between the splicer and the heap. \<open>lawful_ord\<close>: what Rust's \<open>Ord\<close> demands of
  \<open>cmp\<close>, on the set of values that are compared. \<open>pqueue\<close>: a bag with \<open>push\<close> and \<open>pop\<close>.
  \<open>ordered_pqueue\<close>: \<open>pop\<close> gives a greatest element when the order is lawful. Then
  \<open>std::collections::BinaryHeap\<close>: an implicit binary tree in a vector, which is a \<open>pqueue\<close> for
  every \<open>cmp\<close> and an \<open>ordered_pqueue\<close> for a lawful one.
\<close>

section \<open>Interfaces\<close>

locale lawful_ord =
  fixes cmp :: "'a \<Rightarrow> 'a \<Rightarrow> ordering" and A :: "'a set"
  assumes flip: "a \<in> A \<Longrightarrow> b \<in> A \<Longrightarrow> cmp b a = reverse_ordering (cmp a b)"
    and trans: "a \<in> A \<Longrightarrow> b \<in> A \<Longrightarrow> c \<in> A \<Longrightarrow> cmp a b \<noteq> Greater \<Longrightarrow> cmp b c \<noteq> Greater
      \<Longrightarrow> cmp a c \<noteq> Greater"
begin

lemma refl: "a \<in> A \<Longrightarrow> cmp a a = Equal"
  using flip [of a a] by (cases "cmp a a") auto

lemma total: "a \<in> A \<Longrightarrow> b \<in> A \<Longrightarrow> cmp a b = Greater \<Longrightarrow> cmp b a \<noteq> Greater"
  using flip [of a b] by simp

lemma Greater_trans: "a \<in> A \<Longrightarrow> b \<in> A \<Longrightarrow> c \<in> A \<Longrightarrow> cmp a b = Greater \<Longrightarrow> cmp c b \<noteq> Greater
    \<Longrightarrow> cmp c a \<noteq> Greater"
  by (meson total trans)

end

locale pqueue =
  fixes empty :: "'q" and push :: "'q \<Rightarrow> 'a \<Rightarrow> 'q" and pop :: "'q \<Rightarrow> ('a \<times> 'q) option"
    and elems :: "'q \<Rightarrow> 'a multiset"
  assumes elems_empty: "elems empty = {#}"
    and elems_push: "elems (push q x) = add_mset x (elems q)"
    and pop_None: "pop q = None \<longleftrightarrow> elems q = {#}"
    and pop_Some: "pop q = Some (x, q') \<Longrightarrow> elems q = add_mset x (elems q')"

locale ordered_pqueue = pqueue empty push pop elems + lawful_ord cmp A
  for empty :: "'q" and push :: "'q \<Rightarrow> 'a \<Rightarrow> 'q" and pop :: "'q \<Rightarrow> ('a \<times> 'q) option"
    and elems :: "'q \<Rightarrow> 'a multiset" and cmp :: "'a \<Rightarrow> 'a \<Rightarrow> ordering" and A :: "'a set" +
  fixes inv :: "'q \<Rightarrow> bool"
  assumes inv_empty: "inv empty"
    and inv_push: "inv q \<Longrightarrow> set_mset (elems q) \<subseteq> A \<Longrightarrow> x \<in> A \<Longrightarrow> inv (push q x)"
    and inv_pop: "inv q \<Longrightarrow> set_mset (elems q) \<subseteq> A \<Longrightarrow> pop q = Some (x, q') \<Longrightarrow> inv q'"
    and pop_greatest: "inv q \<Longrightarrow> set_mset (elems q) \<subseteq> A \<Longrightarrow> pop q = Some (x, q') \<Longrightarrow>
      y \<in># elems q \<Longrightarrow> cmp y x \<noteq> Greater"

section \<open>BinaryHeap\<close>

definition swap_at :: "'a list \<Rightarrow> nat \<Rightarrow> nat \<Rightarrow> 'a list" where
  "swap_at xs i j = xs[i := xs ! j, j := xs ! i]"

lemma length_swap_at [simp]: "length (swap_at xs i j) = length xs"
  by (simp add: swap_at_def)

lemma nth_swap_at:
  "i < length xs \<Longrightarrow> j < length xs \<Longrightarrow> k < length xs \<Longrightarrow>
     swap_at xs i j ! k = (if k = j then xs ! i else if k = i then xs ! j else xs ! k)"
  by (simp add: swap_at_def nth_list_update)

lemma mset_swap_at [simp]: "i < length xs \<Longrightarrow> j < length xs \<Longrightarrow> mset (swap_at xs i j) = mset xs"
  using mset_swap [of j xs i] by (simp add: swap_at_def)

text \<open>\<open>sift\_up(0, pos)\<close>: the element moves up while it is greater than its parent.\<close>

function sift_up :: "('a \<Rightarrow> 'a \<Rightarrow> ordering) \<Rightarrow> 'a list \<Rightarrow> nat \<Rightarrow> 'a list" where
  "sift_up cmp xs pos =
     (if pos = 0 then xs
      else let parent = (pos - 1) div 2 in
        if cmp (xs ! pos) (xs ! parent) \<noteq> Greater then xs
        else sift_up cmp (swap_at xs pos parent) parent)"
  by pat_completeness auto
termination
  by (relation "measure (\<lambda>(cmp, xs, pos). pos)") auto

text \<open>
  \<open>sift\_down\_to\_bottom(0)\<close>: the element moves down along the greater children to a leaf; the
  caller then sifts it up. The result is the vector and the leaf's position.
\<close>

function sift_down :: "('a \<Rightarrow> 'a \<Rightarrow> ordering) \<Rightarrow> 'a list \<Rightarrow> nat \<Rightarrow> 'a list \<times> nat" where
  "sift_down cmp xs pos =
     (let child = 2 * pos + 1 in
      if child + 1 < length xs then
        (let c = (if cmp (xs ! child) (xs ! (child + 1)) \<noteq> Greater then child + 1 else child)
         in sift_down cmp (swap_at xs pos c) c)
      else if child + 1 = length xs then (swap_at xs pos child, child)
      else (xs, pos))"
  by pat_completeness auto
termination
  by (relation "measure (\<lambda>(cmp, xs, pos). length xs - pos)") auto

declare sift_up.simps [simp del] sift_down.simps [simp del]

definition heap_push :: "('a \<Rightarrow> 'a \<Rightarrow> ordering) \<Rightarrow> 'a list \<Rightarrow> 'a \<Rightarrow> 'a list" where
  "heap_push cmp xs x = sift_up cmp (xs @ [x]) (length xs)"

definition heap_pop :: "('a \<Rightarrow> 'a \<Rightarrow> ordering) \<Rightarrow> 'a list \<Rightarrow> ('a \<times> 'a list) option" where
  "heap_pop cmp xs =
     (if xs = [] then None
      else let item = last xs; data = butlast xs in
        if data = [] then Some (item, [])
        else let (ys, pos) = sift_down cmp (data[0 := item]) 0
             in Some (data ! 0, sift_up cmp ys pos))"

subsection \<open>The bag laws\<close>

lemma sift_up_mset:
  "pos < length xs \<Longrightarrow> mset (sift_up cmp xs pos) = mset xs"
proof (induction cmp xs pos rule: sift_up.induct)
  case (1 cmp xs pos)
  have "(pos - 1) div 2 < length xs" using "1.prems" by simp
  then show ?case
    using 1 by (subst sift_up.simps) (auto simp: Let_def)
qed

lemma sift_down_mset:
  "pos < length xs \<Longrightarrow> mset (fst (sift_down cmp xs pos)) = mset xs
     \<and> snd (sift_down cmp xs pos) < length xs"
proof (induction cmp xs pos rule: sift_down.induct)
  case (1 cmp xs pos)
  then show ?case
    by (subst (1 2) sift_down.simps) (auto simp: Let_def)
qed

lemma length_sift_down [simp]:
  "pos < length xs \<Longrightarrow> length (fst (sift_down cmp xs pos)) = length xs"
  using sift_down_mset [of pos xs cmp] by (metis size_mset)

lemma heap_push_mset: "mset (heap_push cmp xs x) = add_mset x (mset xs)"
  by (simp add: heap_push_def sift_up_mset)

lemma heap_pop_None: "heap_pop cmp xs = None \<longleftrightarrow> mset xs = {#}"
  by (auto simp: heap_pop_def Let_def split: prod.splits)

lemma heap_pop_mset:
  assumes "heap_pop cmp xs = Some (x, ys)"
  shows "mset xs = add_mset x (mset ys)"
proof (cases xs rule: rev_cases)
  case Nil
  then show ?thesis using assms by (simp add: heap_pop_def)
next
  case (snoc data item)
  show ?thesis
  proof (cases data)
    case Nil
    then show ?thesis using assms snoc by (simp add: heap_pop_def)
  next
    case (Cons r rs)
    have p: "0 < length (item # rs)" by simp
    from assms snoc Cons have "x = r"
      and "ys = sift_up cmp (fst (sift_down cmp (item # rs) 0)) (snd (sift_down cmp (item # rs) 0))"
      by (auto simp: heap_pop_def Let_def split: prod.splits)
    then show ?thesis
      using sift_down_mset [OF p, of cmp] snoc Cons by (simp add: sift_up_mset)
  qed
qed

interpretation bag: pqueue "[]" "heap_push cmp" "heap_pop cmp" mset
  for cmp :: "'a \<Rightarrow> 'a \<Rightarrow> ordering"
  by unfold_locales (auto simp: heap_push_mset heap_pop_None heap_pop_mset)

subsection \<open>The heap order\<close>

text \<open>
  Every element is at most its parent. \<open>heap_but_up\<close> allows the element at \<open>pos\<close> to exceed
  its parent, \<open>heap_but_down\<close> allows it any relation to its parent and its children; in both,
  the children of \<open>pos\<close> are at most its parent.
\<close>

definition heap_ok :: "('a \<Rightarrow> 'a \<Rightarrow> ordering) \<Rightarrow> 'a list \<Rightarrow> bool" where
  "heap_ok cmp xs \<longleftrightarrow>
     (\<forall>i < length xs. 0 < i \<longrightarrow> cmp (xs ! i) (xs ! ((i - 1) div 2)) \<noteq> Greater)"

definition grand_ok :: "('a \<Rightarrow> 'a \<Rightarrow> ordering) \<Rightarrow> 'a list \<Rightarrow> nat \<Rightarrow> bool" where
  "grand_ok cmp xs pos \<longleftrightarrow>
     (0 < pos \<longrightarrow> (\<forall>i < length xs. 0 < i \<longrightarrow> (i - 1) div 2 = pos \<longrightarrow>
        cmp (xs ! i) (xs ! ((pos - 1) div 2)) \<noteq> Greater))"

definition heap_but_up :: "('a \<Rightarrow> 'a \<Rightarrow> ordering) \<Rightarrow> 'a list \<Rightarrow> nat \<Rightarrow> bool" where
  "heap_but_up cmp xs pos \<longleftrightarrow> grand_ok cmp xs pos \<and>
     (\<forall>i < length xs. 0 < i \<longrightarrow> i \<noteq> pos \<longrightarrow> cmp (xs ! i) (xs ! ((i - 1) div 2)) \<noteq> Greater)"

definition heap_but_down :: "('a \<Rightarrow> 'a \<Rightarrow> ordering) \<Rightarrow> 'a list \<Rightarrow> nat \<Rightarrow> bool" where
  "heap_but_down cmp xs pos \<longleftrightarrow> grand_ok cmp xs pos \<and>
     (\<forall>i < length xs. 0 < i \<longrightarrow> i \<noteq> pos \<longrightarrow> (i - 1) div 2 \<noteq> pos \<longrightarrow>
        cmp (xs ! i) (xs ! ((i - 1) div 2)) \<noteq> Greater)"

lemma parent_eq: "0 < i \<Longrightarrow> (i - 1) div 2 = p \<longleftrightarrow> i = 2 * p + 1 \<or> i = 2 * p + 2" for i p :: nat
  by auto

context lawful_ord begin

lemma heap_but_up_swap:
  assumes h: "heap_but_up cmp xs pos" and A: "set xs \<subseteq> A" and pos: "0 < pos" "pos < length xs"
    and g: "cmp (xs ! pos) (xs ! ((pos - 1) div 2)) = Greater"
  shows "heap_but_up cmp (swap_at xs pos ((pos - 1) div 2)) ((pos - 1) div 2)"
proof -
  let ?p = "(pos - 1) div 2"
  let ?ys = "swap_at xs pos ?p"
  have p: "?p < pos" "?p < length xs" using pos by auto
  have inA: "i < length xs \<Longrightarrow> xs ! i \<in> A" for i using A nth_mem by blast
  have ys: "i < length xs \<Longrightarrow> ?ys ! i = (if i = ?p then xs ! pos else if i = pos then xs ! ?p else xs ! i)" for i
    using pos p by (simp add: nth_swap_at)
  have up: "cmp (xs ! ?p) (xs ! pos) \<noteq> Greater" using g total inA pos p by blast
  have par: "(i - 1) div 2 < length xs" if "i < length xs" for i using that by auto
  have old: "cmp (xs ! i) (xs ! ((i - 1) div 2)) \<noteq> Greater"
    if "i < length xs" "0 < i" "i \<noteq> pos" for i
    using h that by (auto simp: heap_but_up_def)
  have old2: "cmp (xs ! i) (xs ! ?p) \<noteq> Greater"
    if "i < length xs" "0 < i" "(i - 1) div 2 = pos" for i
    using h that pos by (auto simp: heap_but_up_def grand_ok_def)
  have main: "cmp (?ys ! i) (?ys ! ((i - 1) div 2)) \<noteq> Greater"
    if i: "i < length xs" "0 < i" "i \<noteq> ?p" for i
  proof (cases "i = pos")
    case True
    then show ?thesis using ys [of pos] ys [of ?p] up pos p by simp
  next
    case ipos: False
    consider "(i - 1) div 2 = ?p" | "(i - 1) div 2 = pos" | "(i - 1) div 2 \<noteq> ?p" "(i - 1) div 2 \<noteq> pos"
      by blast
    then show ?thesis
    proof cases
      case 1
      then have "cmp (xs ! i) (xs ! ?p) \<noteq> Greater" using old [OF i(1,2) ipos] by simp
      from trans [OF inA [OF i(1)] inA [OF p(2)] inA [OF pos(2)] this up]
      have "cmp (xs ! i) (xs ! pos) \<noteq> Greater" .
      then show ?thesis using 1 ys [OF i(1)] ys [OF p(2)] i ipos by simp
    next
      case 2
      then show ?thesis using old2 [OF i(1,2)] i ipos ys [of i] ys [of pos] pos p by simp
    next
      case 3
      then show ?thesis using old [OF i(1,2) ipos] i ipos ys [of i] ys [OF par [OF i(1)]] by simp
    qed
  qed
  have grand: "cmp (?ys ! i) (?ys ! ((?p - 1) div 2)) \<noteq> Greater"
    if i: "0 < ?p" "i < length xs" "0 < i" "(i - 1) div 2 = ?p" for i
  proof -
    have q: "(?p - 1) div 2 < ?p" using i(1) by simp
    have pp: "cmp (xs ! ?p) (xs ! ((?p - 1) div 2)) \<noteq> Greater"
      using old [of ?p] i(1) p by simp
    have yq: "?ys ! ((?p - 1) div 2) = xs ! ((?p - 1) div 2)"
      using ys [of "(?p - 1) div 2"] q p by simp
    show ?thesis
    proof (cases "i = pos")
      case True
      then show ?thesis using pp yq ys [of pos] pos p by simp
    next
      case False
      have "i \<noteq> ?p" using i(3,4) by auto
      then have ip: "cmp (xs ! i) (xs ! ?p) \<noteq> Greater" using old [OF i(2,3) False] i(4) by simp
      have "(?p - 1) div 2 < length xs" using q p(2) by linarith
      from trans [OF inA [OF i(2)] inA [OF p(2)] inA [OF this] ip pp]
      show ?thesis using \<open>i \<noteq> ?p\<close> False yq ys [OF i(2)] by simp
    qed
  qed
  show ?thesis
    using main grand by (simp add: heap_but_up_def grand_ok_def)
qed

lemma sift_up_heap:
  "heap_but_up cmp xs pos \<Longrightarrow> set xs \<subseteq> A \<Longrightarrow> pos < length xs \<Longrightarrow> heap_ok cmp (sift_up cmp xs pos)"
proof (induction pos arbitrary: xs rule: less_induct)
  case (less pos)
  let ?p = "(pos - 1) div 2"
  consider (top) "pos = 0" | (ok) "0 < pos" "cmp (xs ! pos) (xs ! ?p) \<noteq> Greater"
    | (up) "0 < pos" "cmp (xs ! pos) (xs ! ?p) = Greater" by auto
  then show ?case
  proof cases
    case top
    then show ?thesis
      using less.prems by (subst sift_up.simps) (auto simp: heap_ok_def heap_but_up_def)
  next
    case ok
    then show ?thesis
      using less.prems by (subst sift_up.simps) (auto simp: heap_ok_def heap_but_up_def Let_def)
  next
    case up
    have p: "?p < pos" "?p < length xs" using up less.prems by auto
    have "set (swap_at xs pos ?p) = set xs"
      using mset_swap_at [of pos xs ?p] p less.prems by (metis mset_eq_setD)
    then have "heap_ok cmp (sift_up cmp (swap_at xs pos ?p) ?p)"
      using less.IH [OF p(1) heap_but_up_swap [OF less.prems(1,2) up(1) less.prems(3) up(2)]]
        p less.prems by simp
    then show ?thesis
      using up by (subst sift_up.simps) (simp add: Let_def)
  qed
qed

lemma heap_but_down_swap:
  assumes h: "heap_but_down cmp xs pos" and A: "set xs \<subseteq> A"
    and c: "c = 2 * pos + 1 \<or> c = 2 * pos + 2" "c < length xs"
    and sib: "\<And>i. i < length xs \<Longrightarrow> 0 < i \<Longrightarrow> (i - 1) div 2 = pos \<Longrightarrow> i \<noteq> c \<Longrightarrow>
      cmp (xs ! i) (xs ! c) \<noteq> Greater"
  shows "heap_but_down cmp (swap_at xs pos c) c"
proof -
  let ?ys = "swap_at xs pos c"
  have pos: "pos < c" "(c - 1) div 2 = pos" "0 < c" using c(1) by auto
  have ys: "i < length xs \<Longrightarrow> ?ys ! i = (if i = c then xs ! pos else if i = pos then xs ! c else xs ! i)" for i
    using pos c(2) by (simp add: nth_swap_at)
  have par: "(i - 1) div 2 < length xs" if "i < length xs" for i using that by auto
  have old: "cmp (xs ! i) (xs ! ((i - 1) div 2)) \<noteq> Greater"
    if "i < length xs" "0 < i" "i \<noteq> pos" "(i - 1) div 2 \<noteq> pos" for i
    using h that by (auto simp: heap_but_down_def)
  have main: "cmp (?ys ! i) (?ys ! ((i - 1) div 2)) \<noteq> Greater"
    if i: "i < length xs" "0 < i" "i \<noteq> c" "(i - 1) div 2 \<noteq> c" for i
  proof (cases "i = pos")
    case True
    then have "cmp (xs ! c) (xs ! ((pos - 1) div 2)) \<noteq> Greater"
      using h i c pos by (auto simp: heap_but_down_def grand_ok_def)
    moreover have "(pos - 1) div 2 < pos" using True i by simp
    ultimately show ?thesis
      using True i ys [of pos] ys [of "(pos - 1) div 2"] pos c(2) by simp
  next
    case ipos: False
    show ?thesis
    proof (cases "(i - 1) div 2 = pos")
      case True
      then show ?thesis using sib [OF i(1,2) True i(3)] i ipos ys [of i] ys [of pos] pos c(2) by simp
    next
      case False
      then show ?thesis
        using old [OF i(1,2) ipos False] i ipos ys [of i] ys [OF par [OF i(1)]] by simp
    qed
  qed
  have grand: "cmp (?ys ! i) (?ys ! ((c - 1) div 2)) \<noteq> Greater"
    if i: "i < length xs" "0 < i" "(i - 1) div 2 = c" for i
  proof -
    have ne: "i \<noteq> c" "i \<noteq> pos" using i pos by auto
    have "cmp (xs ! i) (xs ! c) \<noteq> Greater" using old [of i] i ne pos by simp
    then show ?thesis using ys [of i] ys [of pos] i ne pos c(2) by simp
  qed
  show ?thesis
    using main grand by (simp add: heap_but_down_def grand_ok_def)
qed

lemma sift_down_heap:
  "heap_but_down cmp xs pos \<Longrightarrow> set xs \<subseteq> A \<Longrightarrow> pos < length xs \<Longrightarrow>
     heap_but_up cmp (fst (sift_down cmp xs pos)) (snd (sift_down cmp xs pos))"
proof (induction "length xs - pos" arbitrary: xs pos rule: less_induct)
  case less
  let ?c = "if cmp (xs ! (2 * pos + 1)) (xs ! (2 * pos + 2)) \<noteq> Greater
            then 2 * pos + 2 else 2 * pos + 1"
  have inA: "i < length xs \<Longrightarrow> xs ! i \<in> A" for i using less.prems(2) nth_mem by blast
  consider (two) "2 * pos + 2 < length xs" | (one) "2 * pos + 2 = length xs"
    | (leaf) "length xs < 2 * pos + 2" by linarith
  then show ?case
  proof cases
    case two
    define c where "c = ?c"
    have step: "sift_down cmp xs pos = sift_down cmp (swap_at xs pos c) c"
      using two by (subst sift_down.simps) (simp add: Let_def c_def)
    have c: "c = 2 * pos + 1 \<or> c = 2 * pos + 2" "c < length xs" "pos < c"
      using two by (auto simp: c_def)
    have sib: "cmp (xs ! i) (xs ! c) \<noteq> Greater"
      if "i < length xs" "0 < i" "(i - 1) div 2 = pos" "i \<noteq> c" for i
    proof -
      have "i = 2 * pos + 1 \<or> i = 2 * pos + 2" using that(2,3) parent_eq [of i pos] by simp
      then show ?thesis
        using that(4) two total [OF inA inA, of "2 * pos + 1" "2 * pos + 2"]
        by (auto simp: c_def split: if_splits)
    qed
    have "set (swap_at xs pos c) = set xs"
      using mset_swap_at [of pos xs c] c less.prems by (metis mset_eq_setD)
    then show ?thesis
      using less.hyps [OF _ heap_but_down_swap [OF less.prems(1,2) c(1,2) sib]] less.prems c
      by (simp add: step diff_less_mono2)
  next
    case one
    have "heap_but_down cmp (swap_at xs pos (2 * pos + 1)) (2 * pos + 1)"
      using one by (intro heap_but_down_swap less.prems) (auto simp: parent_eq)
    then show ?thesis
      using one by (subst (1 2) sift_down.simps) (auto simp: heap_but_down_def heap_but_up_def parent_eq)
  next
    case leaf
    then show ?thesis
      using less.prems by (subst (1 2) sift_down.simps)
        (auto simp: heap_but_down_def heap_but_up_def parent_eq)
  qed
qed

lemma heap_push_ok:
  assumes "heap_ok cmp xs" and "set xs \<subseteq> A" and "x \<in> A"
  shows "heap_ok cmp (heap_push cmp xs x)"
proof -
  have no_child: "(i - 1) div 2 \<noteq> length xs" if "0 < length xs" "i < length (xs @ [x])" for i
    using that div_le_dividend [of "i - 1" 2] by (cases i) auto
  have "cmp ((xs @ [x]) ! i) ((xs @ [x]) ! ((i - 1) div 2)) \<noteq> Greater"
    if "i < length (xs @ [x])" "0 < i" "i \<noteq> length xs" for i
    using assms(1) that by (auto simp: heap_ok_def nth_append)
  then have "heap_but_up cmp (xs @ [x]) (length xs)"
    using no_child by (auto simp: heap_but_up_def grand_ok_def)
  then show ?thesis
    using sift_up_heap [of "xs @ [x]" "length xs"] assms by (simp add: heap_push_def)
qed

lemma heap_root_greatest:
  assumes "heap_ok cmp xs" and A: "set xs \<subseteq> A"
  shows "k < length xs \<Longrightarrow> cmp (xs ! k) (xs ! 0) \<noteq> Greater"
proof (induction k rule: less_induct)
  case (less k)
  have inA: "i < length xs \<Longrightarrow> xs ! i \<in> A" for i using A nth_mem by blast
  show ?case
  proof (cases "k = 0")
    case True
    then show ?thesis using refl inA less.prems by simp
  next
    case False
    then have "cmp (xs ! k) (xs ! ((k - 1) div 2)) \<noteq> Greater"
      using assms(1) less.prems by (simp add: heap_ok_def)
    moreover have "cmp (xs ! ((k - 1) div 2)) (xs ! 0) \<noteq> Greater"
      using less.IH [of "(k - 1) div 2"] less.prems False by auto
    moreover have "(k - 1) div 2 < length xs" "0 < length xs" using less.prems by auto
    ultimately show ?thesis using trans inA less.prems by blast
  qed
qed

lemma heap_pop_ok:
  assumes h: "heap_ok cmp xs" and A: "set xs \<subseteq> A" and pop: "heap_pop cmp xs = Some (x, ys)"
  shows "heap_ok cmp ys \<and> x = xs ! 0"
proof (cases xs rule: rev_cases)
  case Nil
  then show ?thesis using pop by (simp add: heap_pop_def)
next
  case (snoc data item)
  show ?thesis
  proof (cases data)
    case Nil
    then show ?thesis using pop snoc by (simp add: heap_pop_def heap_ok_def)
  next
    case (Cons r rs)
    let ?d = "item # rs"
    have d: "heap_but_down cmp ?d 0"
      unfolding heap_but_down_def grand_ok_def
    proof (intro conjI allI impI)
      fix i assume i: "i < length ?d" "0 < i" "(i - 1) div 2 \<noteq> 0"
      have same: "?d ! j = xs ! j" if "0 < j" "j < length ?d" for j
        using that snoc Cons by (cases j) (auto simp: nth_append)
      have "(i - 1) div 2 < length ?d" using i(1) by simp
      have "i < length xs" using i(1) snoc Cons by simp
      have "cmp (xs ! i) (xs ! ((i - 1) div 2)) \<noteq> Greater"
        using h i(2) \<open>i < length xs\<close> unfolding heap_ok_def by blast
      moreover have "?d ! i = xs ! i" using i by (intro same)
      moreover have "?d ! ((i - 1) div 2) = xs ! ((i - 1) div 2)"
        using i \<open>(i - 1) div 2 < length ?d\<close> by (intro same) auto
      ultimately show "cmp (?d ! i) (?d ! ((i - 1) div 2)) \<noteq> Greater" by metis
    qed simp
    let ?s = "sift_down cmp ?d 0"
    have m: "mset (fst ?s) = mset ?d" "snd ?s < length ?d"
      using sift_down_mset [of 0 ?d cmp] by auto
    have "set (fst ?s) \<subseteq> A"
      using mset_eq_setD [OF m(1)] A snoc Cons by auto
    moreover have "heap_but_up cmp (fst ?s) (snd ?s)"
      using d A snoc Cons by (intro sift_down_heap) auto
    ultimately have "heap_ok cmp (sift_up cmp (fst ?s) (snd ?s))"
      using m by (intro sift_up_heap) auto
    moreover have "ys = sift_up cmp (fst ?s) (snd ?s)" "x = r"
      using pop snoc Cons by (auto simp: heap_pop_def Let_def split: prod.splits)
    ultimately show ?thesis using snoc Cons by simp
  qed
qed

lemma heap_pop_greatest:
  assumes "heap_ok cmp xs" and "set xs \<subseteq> A" and "heap_pop cmp xs = Some (x, ys)" and "y \<in> set xs"
  shows "cmp y x \<noteq> Greater"
  using heap_pop_ok [OF assms(1-3)] heap_root_greatest [OF assms(1,2)] assms(4)
  by (metis in_set_conv_nth)

text \<open>With a lawful order, the binary heap is an ordered priority queue.\<close>

lemma binary_heap_ordered:
  "ordered_pqueue [] (heap_push cmp) (heap_pop cmp) mset cmp A (heap_ok cmp)"
proof unfold_locales
  show "heap_ok cmp []" by (simp add: heap_ok_def)
next
  fix q x assume "heap_ok cmp q" "set_mset (mset q) \<subseteq> A" "x \<in> A"
  then show "heap_ok cmp (heap_push cmp q x)" by (simp add: heap_push_ok)
next
  fix q x q' assume "heap_ok cmp q" "set_mset (mset q) \<subseteq> A" "heap_pop cmp q = Some (x, q')"
  then show "heap_ok cmp q'" using heap_pop_ok by simp
next
  fix q x q' y
  assume "heap_ok cmp q" "set_mset (mset q) \<subseteq> A" "heap_pop cmp q = Some (x, q')" "y \<in># mset q"
  then show "cmp y x \<noteq> Greater" using heap_pop_greatest by simp
qed

end

end
