(* ===== verification/Record_Order.thy ===== *)
theory Record_Order
  imports Record_Stream Priority_Queue "HOL-Library.Product_Lexorder" "HOL-Library.List_Lexorder"
    "HOL-Library.Char_ord"
begin

text \<open>
  The order in which \<open>splice\<close> merges records: \<open>record\_order\<close> on headers and \<open>Ord for HeapItem\<close>
  on the heap's items. The order is not transitive on arbitrary headers. It is lawful on headers
  whose sequence numbers agree with their timestamps, where it is the lexicographic order of an
  explicit key.
\<close>

section \<open>The comparison functions\<close>

definition record_order :: "header \<Rightarrow> header \<Rightarrow> ordering" where
  "record_order a b =
     (if h_ctrl_id a = h_ctrl_id b \<and> h_seq a \<noteq> 0 \<and> h_seq b \<noteq> 0
      then then_with (ord_cmp (h_seq a) (h_seq b))
             (then_with (ord_cmp (h_qid a) (h_qid b)) (ord_cmp (h_cid a) (h_cid b)))
      else then_with (ord_cmp (h_timestamp_ns a) (h_timestamp_ns b))
             (then_with (ord_cmp (h_ctrl_id a) (h_ctrl_id b))
               (then_with (ord_cmp (h_qid a) (h_qid b)) (ord_cmp (h_cid a) (h_cid b)))))"

record heap_item =
  hi_source_name :: string
  hi_input_index :: nat
  hi_record :: raw_record

abbreviation item_header :: "heap_item \<Rightarrow> header" where
  "item_header it \<equiv> raw_header (hi_record it)"

definition item_eq :: "heap_item \<Rightarrow> heap_item \<Rightarrow> bool" where
  "item_eq a b \<longleftrightarrow> item_header a = item_header b \<and> hi_source_name a = hi_source_name b
     \<and> raw_offset (hi_record a) = raw_offset (hi_record b)"

text \<open>The heap is a max-heap, so the comparison is reversed: the greatest item is the first record.\<close>

definition item_cmp :: "heap_item \<Rightarrow> heap_item \<Rightarrow> ordering" where
  "item_cmp self other =
     then_with (record_order (item_header other) (item_header self))
       (then_with (ord_cmp (hi_source_name other) (hi_source_name self))
         (ord_cmp (raw_offset (hi_record other)) (raw_offset (hi_record self))))"

section \<open>What always holds\<close>

lemma record_order_flip: "record_order b a = reverse_ordering (record_order a b)"
  unfolding record_order_def
  by (simp add: then_with_flip ord_cmp_flip [of _ "h_seq a"] ord_cmp_flip [of _ "h_qid a"]
      ord_cmp_flip [of _ "h_cid a"] ord_cmp_flip [of _ "h_timestamp_ns a"]
      ord_cmp_flip [of _ "h_ctrl_id a"] eq_commute [of "h_ctrl_id b"] conj_commute [of "h_seq b \<noteq> 0"])

lemma record_order_refl [simp]: "record_order a a = Equal"
  by (simp add: record_order_def ord_cmp_def)

lemma item_cmp_flip: "item_cmp b a = reverse_ordering (item_cmp a b)"
  unfolding item_cmp_def
  by (simp add: then_with_flip record_order_flip [of "item_header b" "item_header a"]
      ord_cmp_flip [of _ "hi_source_name b"] ord_cmp_flip [of _ "raw_offset (hi_record b)"])

section \<open>Where the order is lawful\<close>

text \<open>
  The records of one controller all carry a sequence number or none does, and where they do, a
  later number never goes with an earlier timestamp, nor one number with two timestamps.
\<close>

definition coherent :: "header set \<Rightarrow> bool" where
  "coherent H \<longleftrightarrow>
     (\<forall>a \<in> H. \<forall>b \<in> H. h_ctrl_id a = h_ctrl_id b \<longrightarrow>
        (h_seq a = 0 \<longleftrightarrow> h_seq b = 0)
        \<and> (h_seq a < h_seq b \<longrightarrow> h_timestamp_ns a \<le> h_timestamp_ns b)
        \<and> (h_seq a = h_seq b \<and> h_seq a \<noteq> 0 \<longrightarrow> h_timestamp_ns a = h_timestamp_ns b))"

lemma coherentD:
  assumes "coherent H" "a \<in> H" "b \<in> H" "h_ctrl_id a = h_ctrl_id b"
  shows "h_seq a = 0 \<longleftrightarrow> h_seq b = 0"
    "h_seq a < h_seq b \<Longrightarrow> h_timestamp_ns a \<le> h_timestamp_ns b"
    "h_seq a = h_seq b \<Longrightarrow> h_seq a \<noteq> 0 \<Longrightarrow> h_timestamp_ns a = h_timestamp_ns b"
  using assms(1) [unfolded coherent_def, THEN bspec, OF assms(2), THEN bspec, OF assms(3)] assms(4)
  by blast+

definition order_key :: "header \<Rightarrow> u64 \<times> u8 \<times> u32 \<times> u8 \<times> u16" where
  "order_key h = (h_timestamp_ns h, h_ctrl_id h, h_seq h, h_qid h, h_cid h)"

lemma ord_cmp_pair: "ord_cmp (a, b) (c, d) = then_with (ord_cmp a c) (ord_cmp b d)"
  by (auto simp: ord_cmp_def less_prod_def)

lemma record_order_key:
  assumes "coherent H" and "a \<in> H" and "b \<in> H"
  shows "record_order a b = ord_cmp (order_key a) (order_key b)"
proof (cases "h_ctrl_id a = h_ctrl_id b")
  case False
  then show ?thesis
    by (simp add: record_order_def order_key_def ord_cmp_pair then_with_decided)
next
  case True
  then have c: "h_seq a = 0 \<longleftrightarrow> h_seq b = 0"
    "h_seq a < h_seq b \<Longrightarrow> h_timestamp_ns a \<le> h_timestamp_ns b"
    "h_seq b < h_seq a \<Longrightarrow> h_timestamp_ns b \<le> h_timestamp_ns a"
    "h_seq a = h_seq b \<Longrightarrow> h_seq a \<noteq> 0 \<Longrightarrow> h_timestamp_ns a = h_timestamp_ns b"
    using coherentD [OF assms True] coherentD [OF assms(1,3,2) True [symmetric]] by blast+
  show ?thesis
  proof (cases "h_seq a = 0")
    case zero: True
    then show ?thesis
      using True c(1) by (simp add: record_order_def order_key_def ord_cmp_pair)
  next
    case False
    consider "h_seq a < h_seq b" | "h_seq b < h_seq a" | "h_seq a = h_seq b" by fastforce
    then show ?thesis
      using True False c
      by cases (auto simp: record_order_def order_key_def ord_cmp_pair ord_cmp_def)
  qed
qed

lemma coherent_unsequenced: "coherent {h. h_seq h = 0}"
  by (simp add: coherent_def)

lemma coherent_subset: "coherent H \<Longrightarrow> K \<subseteq> H \<Longrightarrow> coherent K"
  unfolding coherent_def by blast

definition item_key :: "heap_item \<Rightarrow> (u64 \<times> u8 \<times> u32 \<times> u8 \<times> u16) \<times> string \<times> u64" where
  "item_key it = (order_key (item_header it), hi_source_name it, raw_offset (hi_record it))"

lemma lawful_of_key:
  fixes key :: "'a \<Rightarrow> 'k::linorder"
  assumes "\<And>a b. a \<in> A \<Longrightarrow> b \<in> A \<Longrightarrow> cmp a b = ord_cmp (key b) (key a)"
  shows "lawful_ord cmp A"
proof
  fix a b assume "a \<in> A" "b \<in> A"
  then show "cmp b a = reverse_ordering (cmp a b)"
    using assms ord_cmp_flip [of "key b" "key a"] by simp
next
  fix a b c assume "a \<in> A" "b \<in> A" "c \<in> A" "cmp a b \<noteq> Greater" "cmp b c \<noteq> Greater"
  then show "cmp a c \<noteq> Greater"
    using assms by (auto simp: not_less)
qed

lemma item_cmp_lawful:
  assumes "coherent H"
  shows "lawful_ord item_cmp {it. item_header it \<in> H}"
  using record_order_key [OF assms]
  by (intro lawful_of_key [where key = item_key])
    (simp add: item_cmp_def item_key_def ord_cmp_pair)

text \<open>
  \<open>Ord\<close> for the items of ftrace captures, which carry no sequence numbers, is lawful, and the
  heap of such items is an ordered priority queue.
\<close>

interpretation ftrace_order: lawful_ord item_cmp "{it. item_header it \<in> {h. h_seq h = 0}}"
  by (rule item_cmp_lawful [OF coherent_unsequenced])

interpretation ftrace_heap: ordered_pqueue "[]" "heap_push item_cmp" "heap_pop item_cmp" mset
  item_cmp "{it. item_header it \<in> {h. h_seq h = 0}}" "heap_ok item_cmp"
  by (rule ftrace_order.binary_heap_ordered)

lemma coherent_heap:
  assumes "coherent H"
  shows "ordered_pqueue [] (heap_push item_cmp) (heap_pop item_cmp) mset item_cmp
    {it. item_header it \<in> H} (heap_ok item_cmp)"
  by (rule lawful_ord.binary_heap_ordered [OF item_cmp_lawful [OF assms]])

text \<open>
  Equality of heap items is finer than their order: two items with one key can differ in the
  header's length, for instance, which \<open>PartialEq\<close> compares and \<open>Ord\<close> does not.
\<close>

lemma item_eq_cmp: "item_eq a b \<Longrightarrow> item_cmp a b = Equal"
  by (simp add: item_eq_def item_cmp_def)

lemma item_cmp_not_eq: "\<exists>a b. item_cmp a b = Equal \<and> \<not> item_eq a b"
proof -
  let ?h = "sample_header 1 0 0 0 0"
  let ?it = "\<lambda>h. \<lparr>hi_source_name = [], hi_input_index = 0, hi_record = raw_of (sample_bytes h) 0\<rparr>"
  have "item_cmp (?it ?h) (?it (?h\<lparr>h_len := 100\<rparr>)) = Equal"
    by (simp add: item_cmp_def record_order_def raw_of_def sample_header_def)
  moreover have "\<not> item_eq (?it ?h) (?it (?h\<lparr>h_len := 100\<rparr>))"
    by (simp add: item_eq_def raw_of_def sample_header_def)
  ultimately show ?thesis by blast
qed

section \<open>Properties\<close>

text \<open>
  Where sequence numbers agree with timestamps (in particular for ftrace captures, which have
  none), \<open>record\_order\<close> is one total preorder although it switches between two comparisons: the
  lexicographic order of timestamp, controller, sequence number, queue and command id.
\<close>

theorem record_order_lexicographic:
  assumes "coherent H" and "a \<in> H" and "b \<in> H"
  shows "record_order a b = ord_cmp (h_timestamp_ns a, h_ctrl_id a, h_seq a, h_qid a, h_cid a)
    (h_timestamp_ns b, h_ctrl_id b, h_seq b, h_qid b, h_cid b)"
  using record_order_key [OF assms] by (simp add: order_key_def)

lemma record_order_lexicographic_witness:
  "record_order (sample_header 5 3 1 2 9) (sample_header 5 4 1 0 9) = Less"
proof -
  have "coherent {sample_header 5 3 1 2 9, sample_header 5 4 1 0 9}"
    by (simp add: coherent_def)
  from record_order_lexicographic [OF this, of "sample_header 5 3 1 2 9" "sample_header 5 4 1 0 9"]
  show ?thesis by simp
qed

end
