(* ===== verification/Rust_Io.thy ===== *)
theory Rust_Io
  imports Trace_Format
begin

text \<open>
  Output: a writer is any type with a \<open>write\_all\<close> that may fail, and \<open>Vec<u8>\<close> is the one that
  never does. \<open>writeln!\<close> is one \<open>write\_all\<close> of the line and a line feed; the pieces in which
  the formatting machinery hands a line to the writer are not told apart.
\<close>

type_synonym 'w writer = "'w \<Rightarrow> byte list \<Rightarrow> (io_error + unit) \<times> 'w"

text \<open>\<open>Write for Vec<u8>\<close>.\<close>

definition vec_write :: "byte list writer" where
  "vec_write w bs = (Inr (), w @ bs)"

definition text_bytes :: "string \<Rightarrow> byte list" where
  "text_bytes s = map of_char s"

definition newline :: string where
  "newline = [char_of (10 :: nat)]"

definition tab :: string where
  "tab = [char_of (9 :: nat)]"

definition write_line :: "'w writer \<Rightarrow> string \<Rightarrow> 'w \<Rightarrow> (io_error + unit) \<times> 'w" where
  "write_line write_all line out = write_all out (text_bytes (line @ newline))"

text \<open>Consecutive \<open>writeln!(...)?\<close>: the first error ends them.\<close>

fun write_lines :: "'w writer \<Rightarrow> string list \<Rightarrow> 'w \<Rightarrow> (io_error + unit) \<times> 'w" where
  "write_lines write_all [] out = (Inr (), out)"
| "write_lines write_all (l # ls) out =
     (case write_line write_all l out of
        (Inl e, out') \<Rightarrow> (Inl e, out')
      | (Inr _, out') \<Rightarrow> write_lines write_all ls out')"

definition lines_bytes :: "string list \<Rightarrow> byte list" where
  "lines_bytes ls = concat (map (\<lambda>l. text_bytes (l @ newline)) ls)"

lemma lines_bytes_simps [simp]:
  "lines_bytes [] = []" "lines_bytes (l # ls) = text_bytes (l @ newline) @ lines_bytes ls"
  "lines_bytes (ls @ ms) = lines_bytes ls @ lines_bytes ms"
  by (simp_all add: lines_bytes_def)

lemma write_line_vec [simp]: "write_line vec_write l out = (Inr (), out @ lines_bytes [l])"
  by (simp add: write_line_def vec_write_def)

lemma write_lines_vec [simp]: "write_lines vec_write ls out = (Inr (), out @ lines_bytes ls)"
  by (induction ls arbitrary: out) auto

lemma write_lines_append:
  "write_lines w (ls @ ms) out =
     (case write_lines w ls out of (Inl e, out') \<Rightarrow> (Inl e, out') | (Inr _, out') \<Rightarrow> write_lines w ms out')"
  by (induction ls arbitrary: out) (auto split: prod.splits sum.splits)

end
