(* ===== verification/Splice.thy ===== *)
theory Splice
  imports Record_Order Rust_Io
begin

text \<open>
  \<open>splice\_named\_streams\<close> of \<open>lib.rs\<close>: the k-way merge of record streams through a heap. The
  output is any writer, given by its \<open>write\_all\<close>; the heap is the parameter \<open>push\<close>, \<open>pop\<close> of
  the loop, proved about once inside \<open>pqueue\<close> and \<open>ordered\_pqueue\<close> and used at the binary
  heap the code has. The warnings are the strings passed to the closure \<open>warn\<close>, in order.
\<close>

section \<open>The merge loop\<close>

record ('q, 'w) splice_state =
  st_heap :: 'q
  st_readers :: "reader list"
  st_last_ts :: "u8 \<rightharpoonup> u64"
  st_output :: 'w
  st_warnings :: "string list"
  st_written :: u64

definition backwards_warning :: "heap_item \<Rightarrow> u64 \<Rightarrow> string" where
  "backwards_warning item last_ts =
     ''timestamp went backwards for ctrl '' @ show_word (h_ctrl_id (item_header item))
       @ '': previous='' @ show_word last_ts @ ''ns current=''
       @ show_word (h_timestamp_ns (item_header item)) @ ''ns source='' @ hi_source_name item
       @ '' offset='' @ show_word (raw_offset (hi_record item))"

definition order_warning :: "(u8 \<rightharpoonup> u64) \<Rightarrow> heap_item \<Rightarrow> string list" where
  "order_warning last_ts item =
     (case last_ts (h_ctrl_id (item_header item)) of
        None \<Rightarrow> []
      | Some prev \<Rightarrow> if h_timestamp_ns (item_header item) < prev
                     then [backwards_warning item prev] else [])"

text \<open>The first loop: one record of every reader goes into the heap.\<close>

fun splice_fill ::
  "('q \<Rightarrow> heap_item \<Rightarrow> 'q) \<Rightarrow> 'e binrw \<Rightarrow> string list \<Rightarrow> nat \<Rightarrow> reader list \<Rightarrow> 'q \<Rightarrow>
     ('e trace_error + 'q) \<times> reader list" where
  "splice_fill push br names i [] q = (Inr q, [])"
| "splice_fill push br names i (r # rs) q =
     (case next_record br r of
        (Inl e, r') \<Rightarrow> (Inl e, r' # rs)
      | (Inr None, r') \<Rightarrow>
          let (res, rs') = splice_fill push br names (i + 1) rs q in (res, r' # rs')
      | (Inr (Some record), r') \<Rightarrow>
          let (res, rs') = splice_fill push br names (i + 1) rs
            (push q \<lparr>hi_source_name = names ! i, hi_input_index = i, hi_record = record\<rparr>)
          in (res, r' # rs'))"

text \<open>The body of the second loop, for the item just popped.\<close>

definition splice_item ::
  "('q \<Rightarrow> heap_item \<Rightarrow> 'q) \<Rightarrow> 'e binrw \<Rightarrow> 'w writer \<Rightarrow> ('q, 'w) splice_state \<Rightarrow> heap_item \<Rightarrow>
     ('e trace_error + unit) \<times> ('q, 'w) splice_state" where
  "splice_item push br write_all st item =
     (let header = item_header item;
          bytes = raw_bytes (hi_record item);
          st1 = st\<lparr>st_last_ts := (st_last_ts st)(h_ctrl_id header \<mapsto> h_timestamp_ns header),
                   st_warnings := st_warnings st @ order_warning (st_last_ts st) item\<rparr>
      in case write_all (st_output st1) bytes of
        (Inl e, w) \<Rightarrow> (Inl (Io e), st1\<lparr>st_output := w\<rparr>)
      | (Inr _, w) \<Rightarrow>
        let st2 = st1\<lparr>st_output := w, st_written := st_written st1 + of_nat (length bytes)\<rparr>;
            (res, r') = next_record br (st_readers st2 ! hi_input_index item);
            st3 = st2\<lparr>st_readers := (st_readers st2)[hi_input_index item := r']\<rparr>
        in case res of
          Inl e \<Rightarrow> (Inl e, st3)
        | Inr None \<Rightarrow> (Inr (), st3)
        | Inr (Some next) \<Rightarrow>
            (Inr (), st3\<lparr>st_heap := push (st_heap st3)
               \<lparr>hi_source_name = hi_source_name item, hi_input_index = hi_input_index item,
                hi_record = next\<rparr>\<rparr>))"

partial_function (option) splice_loop ::
  "('q \<Rightarrow> heap_item \<Rightarrow> 'q) \<Rightarrow> ('q \<Rightarrow> (heap_item \<times> 'q) option) \<Rightarrow> 'e binrw \<Rightarrow> 'w writer \<Rightarrow>
     ('q, 'w) splice_state \<Rightarrow> (('e trace_error + u64) \<times> ('q, 'w) splice_state) option" where
  "splice_loop push pop br write_all st =
     (case pop (st_heap st) of
        None \<Rightarrow> Some (Inr (st_written st), st)
      | Some (item, q) \<Rightarrow>
          (case splice_item push br write_all (st\<lparr>st_heap := q\<rparr>) item of
             (Inl e, st') \<Rightarrow> Some (Inl e, st')
           | (Inr _, st') \<Rightarrow> splice_loop push pop br write_all st'))"

definition splice_with ::
  "'q \<Rightarrow> ('q \<Rightarrow> heap_item \<Rightarrow> 'q) \<Rightarrow> ('q \<Rightarrow> (heap_item \<times> 'q) option) \<Rightarrow> 'e binrw \<Rightarrow> 'w writer \<Rightarrow>
     reader list \<Rightarrow> string list \<Rightarrow> 'w \<Rightarrow>
     (('e trace_error + u64) \<times> ('q, 'w) splice_state) option" where
  "splice_with heap0 push pop br write_all readers names output =
     (case splice_fill push br names 0 readers heap0 of
        (Inl e, readers') \<Rightarrow>
          Some (Inl e, \<lparr>st_heap = heap0, st_readers = readers', st_last_ts = Map.empty,
                        st_output = output, st_warnings = [], st_written = 0\<rparr>)
      | (Inr heap, readers') \<Rightarrow>
          splice_loop push pop br write_all
            \<lparr>st_heap = heap, st_readers = readers', st_last_ts = Map.empty,
             st_output = output, st_warnings = [], st_written = 0\<rparr>)"

definition splice_streams_with_names ::
  "'e binrw \<Rightarrow> 'w writer \<Rightarrow> reader list \<Rightarrow> string list \<Rightarrow> 'w \<Rightarrow>
     (('e trace_error + u64) \<times> (heap_item list, 'w) splice_state) option" where
  "splice_streams_with_names = splice_with [] (heap_push item_cmp) (heap_pop item_cmp)"

definition splice_named_streams ::
  "'e binrw \<Rightarrow> 'w writer \<Rightarrow> (string \<times> source) list \<Rightarrow> 'w \<Rightarrow>
     (('e trace_error + u64) \<times> (heap_item list, 'w) splice_state) option" where
  "splice_named_streams br write_all inputs output =
     splice_streams_with_names br write_all (map (\<lambda>(name, r). reader_new r) inputs)
       (map fst inputs) output"

definition splice_streams ::
  "'e binrw \<Rightarrow> 'w writer \<Rightarrow> (string \<times> source) list \<Rightarrow> 'w \<Rightarrow>
     (('e trace_error + u64) \<times> (heap_item list, 'w) splice_state) option" where
  "splice_streams br write_all inputs output = splice_named_streams br write_all inputs output"

section \<open>What is still to come from a reader\<close>

text \<open>
  Of each input, the heap holds at most one record, its slot. With a record in the slot, the
  pending records are it and what the reader still delivers; an empty slot means the input ended.
\<close>

definition pend_of :: "'e binrw \<Rightarrow> raw_record option \<Rightarrow> reader \<Rightarrow> raw_record list" where
  "pend_of br slot r = (case slot of None \<Rightarrow> [] | Some raw \<Rightarrow> raw # fst (drain_records br r))"

definition fault_of :: "'e binrw \<Rightarrow> raw_record option \<Rightarrow> reader \<Rightarrow> 'e trace_error option" where
  "fault_of br slot r = (case slot of None \<Rightarrow> None | Some _ \<Rightarrow> fst (snd (drain_records br r)))"

lemma pend_of_simps [simp]:
  "pend_of br None r = []" "pend_of br (Some raw) r = raw # fst (drain_records br r)"
  "fault_of br None r = None" "fault_of br (Some raw) r = fst (snd (drain_records br r))"
  by (simp_all add: pend_of_def fault_of_def)

definition slot_item :: "string list \<Rightarrow> nat \<Rightarrow> raw_record \<Rightarrow> heap_item" where
  "slot_item names i raw = \<lparr>hi_source_name = names ! i, hi_input_index = i, hi_record = raw\<rparr>"

lemma slot_item_sel [simp]:
  "hi_source_name (slot_item names i raw) = names ! i"
  "hi_input_index (slot_item names i raw) = i" "hi_record (slot_item names i raw) = raw"
  by (simp_all add: slot_item_def)

definition slot_mset :: "string list \<Rightarrow> (nat \<Rightarrow> raw_record option) \<Rightarrow> nat \<Rightarrow> heap_item multiset" where
  "slot_mset names slots i =
     (case slots i of None \<Rightarrow> {#} | Some raw \<Rightarrow> {#slot_item names i raw#})"

lemma drain_next:
  "next_record br r = (Inr (Some raw), r') \<Longrightarrow>
     fst (drain_records br r) = raw # fst (drain_records br r')
     \<and> fst (snd (drain_records br r)) = fst (snd (drain_records br r'))"
  "next_record br r = (Inr None, r') \<Longrightarrow>
     fst (drain_records br r) = [] \<and> fst (snd (drain_records br r)) = None"
  "next_record br r = (Inl e, r') \<Longrightarrow>
     fst (drain_records br r) = [] \<and> fst (snd (drain_records br r)) = Some e"
  by (simp_all add: drain_records.simps [of br r] split: prod.splits)

lemma pend_next:
  "next_record br r = (Inr slot, r') \<Longrightarrow> pend_of br slot r' = fst (drain_records br r)"
  "next_record br r = (Inr slot, r') \<Longrightarrow> fault_of br slot r' = fst (snd (drain_records br r))"
  by (cases slot; auto simp: pend_of_def fault_of_def dest!: drain_next)+

lemma slot_mset_remove:
  assumes "i < n" and "slots i = Some raw"
  shows "(\<Sum>j<n. slot_mset names slots j)
    = add_mset (slot_item names i raw) (\<Sum>j<n. slot_mset names (slots(i := None)) j)"
proof -
  have "(\<Sum>j\<in>{..<n} - {i}. slot_mset names (slots(i := None)) j)
      = (\<Sum>j\<in>{..<n} - {i}. slot_mset names slots j)"
    by (rule sum.cong) (auto simp: slot_mset_def)
  then show ?thesis
    using assms sum.remove [of "{..<n}" i "slot_mset names slots"]
      sum.remove [of "{..<n}" i "slot_mset names (slots(i := None))"]
    by (simp add: slot_mset_def)
qed

lemma slot_mset_insert:
  assumes "i < n" and "slots i = None"
  shows "(\<Sum>j<n. slot_mset names (slots(i := Some raw)) j)
    = add_mset (slot_item names i raw) (\<Sum>j<n. slot_mset names slots j)"
  using slot_mset_remove [of i n "slots(i := Some raw)" raw names] assms
  by (simp add: fun_upd_idem)

lemma slot_mset_member:
  assumes "x \<in># (\<Sum>j<n. slot_mset names slots j)"
  obtains i raw where "i < n" "slots i = Some raw" "x = slot_item names i raw"
  using assms by (auto simp: set_mset_sum slot_mset_def split: option.splits)

end
