(* ===== verification/Splice_Merge.thy ===== *)
theory Splice_Merge
  imports Splice "HOL-Library.Sublist"
begin

text \<open>
  The correctness of the merge loop over any priority queue: it terminates, writes every pending
  record exactly once and in its input's order, and stops at the first fault of an input. Over an
  ordered queue, inputs in order give an output in order.
\<close>

section \<open>One iteration\<close>

definition items_bytes :: "heap_item list \<Rightarrow> byte list" where
  "items_bytes items = concat (map (\<lambda>it. raw_bytes (hi_record it)) items)"

lemma items_bytes_simps [simp]:
  "items_bytes [] = []" "items_bytes (it # items) = raw_bytes (hi_record it) @ items_bytes items"
  by (simp_all add: items_bytes_def)

primrec order_warnings :: "(u8 \<rightharpoonup> u64) \<Rightarrow> heap_item list \<Rightarrow> string list" where
  "order_warnings last_ts [] = []"
| "order_warnings last_ts (it # items) = order_warning last_ts it
     @ order_warnings (last_ts(h_ctrl_id (item_header it) \<mapsto> h_timestamp_ns (item_header it))) items"

definition of_input :: "nat \<Rightarrow> heap_item list \<Rightarrow> raw_record list" where
  "of_input j items = map hi_record (filter (\<lambda>it. hi_input_index it = j) items)"

lemma of_input_simps [simp]:
  "of_input j [] = []"
  "of_input j (it # items) = (if hi_input_index it = j then [hi_record it] else []) @ of_input j items"
  by (simp_all add: of_input_def)

text \<open>The state after an item was written and its reader delivered \<open>slot\<close>.\<close>

definition after_item ::
  "('q \<Rightarrow> heap_item \<Rightarrow> 'q) \<Rightarrow> string list \<Rightarrow> ('q, byte list) splice_state \<Rightarrow> 'q \<Rightarrow> nat \<Rightarrow>
     raw_record \<Rightarrow> raw_record option \<Rightarrow> reader \<Rightarrow> ('q, byte list) splice_state" where
  "after_item push names st q i raw slot r' =
     \<lparr>st_heap = (case slot of None \<Rightarrow> q | Some raw' \<Rightarrow> push q (slot_item names i raw')),
      st_readers = (st_readers st)[i := r'],
      st_last_ts = (st_last_ts st)(h_ctrl_id (raw_header raw) \<mapsto> h_timestamp_ns (raw_header raw)),
      st_output = st_output st @ raw_bytes raw,
      st_warnings = st_warnings st @ order_warning (st_last_ts st) (slot_item names i raw),
      st_written = st_written st + of_nat (length (raw_bytes raw))\<rparr>"

lemma splice_item_ok:
  "next_record br (st_readers st ! i) = (Inr slot, r') \<Longrightarrow>
     splice_item push br vec_write (st\<lparr>st_heap := q\<rparr>) (slot_item names i raw)
       = (Inr (), after_item push names st q i raw slot r')"
  by (cases slot)
    (auto simp: splice_item_def Let_def vec_write_def after_item_def slot_item_def)

lemma splice_item_fault:
  "next_record br (st_readers st ! i) = (Inl e, r') \<Longrightarrow>
     splice_item push br vec_write (st\<lparr>st_heap := q\<rparr>) (slot_item names i raw)
       = (Inl e, after_item push names st q i raw None r')"
  by (auto simp: splice_item_def Let_def vec_write_def after_item_def slot_item_def)

lemma pend_of_after:
  assumes "next_record br (rs ! i) = (Inr slot, r')" and "i < length rs" and "slots i = Some raw"
  shows "pend_of br ((slots(i := slot)) j) (rs[i := r'] ! j)
      = (if j = i then tl (pend_of br (slots i) (rs ! i)) else pend_of br (slots j) (rs ! j))"
    and "fault_of br ((slots(i := slot)) j) (rs[i := r'] ! j) = fault_of br (slots j) (rs ! j)"
  using assms(2,3) pend_next [OF assms(1)] by (cases "j = i"; simp)+

section \<open>Inside any priority queue of items\<close>

locale item_queue = pqueue empty push pop elems
  for empty :: "'q" and push :: "'q \<Rightarrow> heap_item \<Rightarrow> 'q" and pop :: "'q \<Rightarrow> (heap_item \<times> 'q) option"
    and elems :: "'q \<Rightarrow> heap_item multiset"
begin

lemma pop_slot:
  assumes "elems (st_heap st) = (\<Sum>j<n. slot_mset names slots j)" and "pop (st_heap st) = Some (x, q)"
  obtains i raw where "i < n" "slots i = Some raw" "x = slot_item names i raw"
    "elems q = (\<Sum>j<n. slot_mset names (slots(i := None)) j)"
proof -
  have x: "(\<Sum>j<n. slot_mset names slots j) = add_mset x (elems q)"
    using pop_Some [OF assms(2)] assms(1) by simp
  then have "x \<in># (\<Sum>j<n. slot_mset names slots j)" by simp
  then obtain i raw where i: "i < n" "slots i = Some raw" "x = slot_item names i raw"
    by (rule slot_mset_member)
  then have "elems q = (\<Sum>j<n. slot_mset names (slots(i := None)) j)"
    using x slot_mset_remove [of i n slots raw names] by simp
  with i show thesis by (rule that)
qed

lemma elems_after_item:
  assumes "elems q = (\<Sum>j<n. slot_mset names (slots(i := None)) j)" and "i < n"
  shows "elems (st_heap (after_item push names st q i raw slot r'))
    = (\<Sum>j<n. slot_mset names (slots(i := slot)) j)"
  using assms slot_mset_insert [of i n "slots(i := None)" names]
  by (cases slot) (simp_all add: after_item_def elems_push)

end

section \<open>The first record out is the least one pending\<close>

definition pend_sorted :: "(heap_item \<Rightarrow> heap_item \<Rightarrow> ordering) \<Rightarrow> string list \<Rightarrow> nat \<Rightarrow> raw_record list \<Rightarrow> bool" where
  "pend_sorted cmp names j raws \<longleftrightarrow>
     sorted_wrt (\<lambda>a b. cmp (slot_item names j b) (slot_item names j a) \<noteq> Greater) raws"

locale ordered_item_queue = ordered_pqueue empty push pop elems cmp A inv
  for empty :: "'q" and push :: "'q \<Rightarrow> heap_item \<Rightarrow> 'q" and pop :: "'q \<Rightarrow> (heap_item \<times> 'q) option"
    and elems :: "'q \<Rightarrow> heap_item multiset" and cmp :: "heap_item \<Rightarrow> heap_item \<Rightarrow> ordering"
    and A :: "heap_item set" and inv :: "'q \<Rightarrow> bool"
begin

lemma pop_least:
  fixes br :: "'e binrw"
  assumes el: "elems (st_heap st) = (\<Sum>j<n. slot_mset names slots j)"
    and pop: "pop (st_heap st) = Some (x, q)" and inv: "inv (st_heap st)"
    and A: "\<And>j raw. j < n \<Longrightarrow> raw \<in> set (pend_of br (slots j) (rs ! j)) \<Longrightarrow> slot_item names j raw \<in> A"
    and srt: "\<And>j. j < n \<Longrightarrow> pend_sorted cmp names j (pend_of br (slots j) (rs ! j))"
    and y: "j < n" "raw \<in> set (pend_of br (slots j) (rs ! j))"
  shows "cmp (slot_item names j raw) x \<noteq> Greater"
proof -
  have heads: "slot_item names k h \<in> A" if "k < n" "slots k = Some h" for k h
    using A [OF that(1), of h] that(2) by (simp add: pend_of_def)
  have els: "set_mset (elems (st_heap st)) \<subseteq> A"
    using heads by (auto simp: el elim!: slot_mset_member)
  obtain h where h: "slots j = Some h"
    using y by (cases "slots j") (auto simp: pend_of_def)
  have "slot_item names j h \<in># elems (st_heap st)"
    using slot_mset_remove [of j n slots h names] y(1) h el by simp
  then have hx: "cmp (slot_item names j h) x \<noteq> Greater"
    by (rule pop_greatest [OF inv els pop])
  have xA: "x \<in> A" using pop_Some [OF pop] els by auto
  show ?thesis
  proof (cases "raw = h")
    case True
    then show ?thesis using hx by simp
  next
    case False
    then have "cmp (slot_item names j raw) (slot_item names j h) \<noteq> Greater"
      using srt [OF y(1)] y(2) h by (auto simp: pend_sorted_def pend_of_def)
    from trans [OF A [OF y] heads [OF y(1) h] xA this hx] show ?thesis .
  qed
qed

end

section \<open>The whole loop\<close>

text \<open>
  What a run of the loop from \<open>st\<close> achieves, with the items it writes: every pending record of
  every input when it succeeds, and else a prefix of each input's, and the fault of one of them.
\<close>

definition merge_result ::
  "'e binrw \<Rightarrow> string list \<Rightarrow> nat \<Rightarrow> (nat \<Rightarrow> raw_record option) \<Rightarrow> ('q, byte list) splice_state \<Rightarrow>
     'e trace_error + u64 \<Rightarrow> heap_item list \<Rightarrow> ('q, byte list) splice_state \<Rightarrow> bool" where
  "merge_result br names n slots st res items st' \<longleftrightarrow>
     st_output st' = st_output st @ items_bytes items
     \<and> st_written st' = st_written st + of_nat (length (items_bytes items))
     \<and> st_warnings st' = st_warnings st @ order_warnings (st_last_ts st) items
     \<and> (\<forall>it \<in> set items. hi_input_index it < n \<and> it = slot_item names (hi_input_index it) (hi_record it))
     \<and> (case res of
          Inr w \<Rightarrow> w = st_written st'
            \<and> (\<forall>j < n. fault_of br (slots j) (st_readers st ! j) = None
                 \<and> of_input j items = pend_of br (slots j) (st_readers st ! j))
        | Inl e \<Rightarrow> (\<exists>j < n. fault_of br (slots j) (st_readers st ! j) = Some e)
            \<and> (\<forall>j < n. prefix (of_input j items) (pend_of br (slots j) (st_readers st ! j))))"

lemma merge_result_step:
  assumes i: "i < n" "slots i = Some raw" and len: "length (st_readers st) = n"
    and nx: "next_record br (st_readers st ! i) = (Inr slot, r')"
    and r: "merge_result br names n (slots(i := slot)) (after_item push names st q i raw slot r') res items st'"
  shows "merge_result br names n slots st res (slot_item names i raw # items) st'"
proof -
  have il: "i < length (st_readers st)" using i len by simp
  note pa = pend_of_after [where rs = "st_readers st" and raw = raw and slots = slots, OF nx il i(2)]
  show ?thesis
    using r i pa len
    by (cases res) (auto simp: merge_result_def after_item_def add.assoc)
qed

lemma merge_result_fault:
  assumes i: "i < n" "slots i = Some raw"
    and nx: "next_record br (st_readers st ! i) = (Inl e, r')"
  shows "merge_result br names n slots st (Inl e) [slot_item names i raw]
    (after_item push names st q i raw None r')"
  using i drain_next(3) [OF nx]
  by (auto simp: merge_result_def after_item_def)

definition pend_size :: "'e binrw \<Rightarrow> nat \<Rightarrow> (nat \<Rightarrow> raw_record option) \<Rightarrow> reader list \<Rightarrow> nat" where
  "pend_size br n slots rs = (\<Sum>j<n. length (pend_of br (slots j) (rs ! j)))"

lemma pend_size_after:
  assumes "next_record br (rs ! i) = (Inr slot, r')" and "i < n" and "length rs = n"
    and "slots i = Some raw"
  shows "pend_size br n (slots(i := slot)) (rs[i := r']) < pend_size br n slots rs"
  unfolding pend_size_def
proof (rule sum_strict_mono_ex1)
  show "\<forall>j\<in>{..<n}. length (pend_of br ((slots(i := slot)) j) (rs[i := r'] ! j))
      \<le> length (pend_of br (slots j) (rs ! j))"
    using pend_of_after(1) [where slots = slots, OF assms(1)] assms by simp
  show "\<exists>j\<in>{..<n}. length (pend_of br ((slots(i := slot)) j) (rs[i := r'] ! j))
      < length (pend_of br (slots j) (rs ! j))"
    using pend_next(1) [OF assms(1)] assms by (intro bexI [of _ i]) simp_all
qed simp

definition pend_in ::
  "(heap_item \<Rightarrow> heap_item \<Rightarrow> ordering) \<Rightarrow> heap_item set \<Rightarrow> string list \<Rightarrow> nat \<Rightarrow> 'e binrw \<Rightarrow>
     (nat \<Rightarrow> raw_record option) \<Rightarrow> reader list \<Rightarrow> bool" where
  "pend_in cmp A names n br slots rs \<longleftrightarrow>
     (\<forall>j < n. pend_sorted cmp names j (pend_of br (slots j) (rs ! j))
        \<and> (\<forall>raw \<in> set (pend_of br (slots j) (rs ! j)). slot_item names j raw \<in> A))"

lemma pend_in_after:
  assumes "pend_in cmp A names n br slots rs" and "next_record br (rs ! i) = (Inr slot, r')"
    and "i < n" and "length rs = n" and "slots i = Some raw"
  shows "pend_in cmp A names n br (slots(i := slot)) (rs[i := r'])"
  using assms pend_of_after(1) [where slots = slots, OF assms(2) _ assms(5)]
  by (auto simp: pend_in_def pend_sorted_def)

lemma of_input_member: "it \<in> set items \<Longrightarrow> hi_record it \<in> set (of_input (hi_input_index it) items)"
  by (auto simp: of_input_def)

lemma merge_result_pending:
  assumes "merge_result br names n slots st res items st'" and "it \<in> set items"
  obtains j where "j < n" "hi_record it \<in> set (pend_of br (slots j) (st_readers st ! j))"
    "it = slot_item names j (hi_record it)"
proof
  let ?j = "hi_input_index it"
  show "?j < n" and "it = slot_item names ?j (hi_record it)"
    using assms by (auto simp: merge_result_def)
  then show "hi_record it \<in> set (pend_of br (slots ?j) (st_readers st ! ?j))"
    using assms(1) of_input_member [OF assms(2)] set_mono_prefix
    by (cases res) (fastforce simp: merge_result_def)+
qed

context ordered_item_queue begin

text \<open>The queue and the pending records of a state are in order.\<close>

lemma order_step:
  assumes el: "elems (st_heap st) = (\<Sum>j<n. slot_mset names slots j)"
    and len: "length (st_readers st) = n"
    and pop: "pop (st_heap st) = Some (slot_item names i raw, q)" "i < n" "slots i = Some raw"
    and inv: "inv (st_heap st)" and pi: "pend_in cmp A names n br slots (st_readers st)"
    and nx: "next_record br (st_readers st ! i) = (Inr slot, r')"
  shows "inv (st_heap (after_item push names st q i raw slot r'))"
proof -
  have head: "slot_item names k h \<in> A" if "k < n" "slots k = Some h" for k h
    using pi that by (simp add: pend_in_def)
  have els: "set_mset (elems (st_heap st)) \<subseteq> A"
    using head by (auto simp: el elim!: slot_mset_member)
  then have q: "set_mset (elems q) \<subseteq> A" "inv q"
    using pop_Some [OF pop(1)] inv_pop [OF inv els pop(1)] by auto
  have "slot_item names i raw' \<in> A" if "slot = Some raw'" for raw'
    using pend_in_after [where slots = slots and raw = raw, OF pi nx pop(2) len pop(3)] pop(2) that by (simp add: pend_in_def)
  then show ?thesis
    using q inv_push by (cases slot) (auto simp: after_item_def)
qed

end

context item_queue begin

lemma splice_loop_run:
  "elems (st_heap st) = (\<Sum>j<n. slot_mset names slots j) \<Longrightarrow> length (st_readers st) = n \<Longrightarrow>
   \<exists>res items st'. splice_loop push pop br vec_write st = Some (res, st')
     \<and> merge_result br names n slots st res items st'
     \<and> (\<forall>cmp A inv. ordered_item_queue empty push pop elems cmp A inv \<longrightarrow> inv (st_heap st) \<longrightarrow>
          pend_in cmp A names n br slots (st_readers st) \<longrightarrow>
          sorted_wrt (\<lambda>x y. cmp y x \<noteq> Greater) items)"
proof (induction "pend_size br n slots (st_readers st)" arbitrary: st slots rule: less_induct)
  case less
  note el = less.prems(1) and len = less.prems(2)
  show ?case
  proof (cases "pop (st_heap st)")
    case None
    then have "(\<Sum>j<n. slot_mset names slots j) = {#}" using pop_None el by simp
    then have "slots j = None" if "j < n" for j
      using slot_mset_remove [OF that, of slots _ names] by (cases "slots j") auto
    then have "merge_result br names n slots st (Inr (st_written st)) [] st"
      by (simp add: merge_result_def)
    then show ?thesis
      using None by (subst splice_loop.simps)
        (intro exI [of _ "Inr (st_written st)"] exI [of _ "[]"] exI [of _ st], simp)
  next
    case (Some xq)
    obtain x q where pop: "pop (st_heap st) = Some (x, q)" using Some by (cases xq) auto
    obtain i raw where i: "i < n" "slots i = Some raw" and x: "x = slot_item names i raw"
      and q: "elems q = (\<Sum>j<n. slot_mset names (slots(i := None)) j)"
      using pop_slot [OF el pop] by blast
    obtain res r' where nx: "next_record br (st_readers st ! i) = (res, r')"
      by (cases "next_record br (st_readers st ! i)")
    show ?thesis
    proof (cases res)
      case (Inl e)
      then show ?thesis
        using pop x splice_item_fault [of br st i e r' push q names raw]
          merge_result_fault [where slots = slots and raw = raw and br = br and st = st and e = e
            and r' = r' and names = names and push = push and q = q, OF i] nx
        by (subst splice_loop.simps)
          (intro exI [of _ "Inl e"] exI [of _ "[slot_item names i raw]"]
            exI [of _ "after_item push names st q i raw None r'"], simp)
    next
      case (Inr slot)
      let ?st = "after_item push names st q i raw slot r'"
      have rs: "st_readers ?st = (st_readers st)[i := r']" by (simp add: after_item_def)
      have nx': "next_record br (st_readers st ! i) = (Inr slot, r')" using nx Inr by simp
      have "pend_size br n (slots(i := slot)) (st_readers ?st) < pend_size br n slots (st_readers st)"
        unfolding rs using pend_size_after [where slots = slots and raw = raw, OF nx' i(1) len i(2)] .
      from less.hyps [OF this elems_after_item [OF q i(1)]] len rs
      obtain res' items st' where run: "splice_loop push pop br vec_write ?st = Some (res', st')"
        and mr: "merge_result br names n (slots(i := slot)) ?st res' items st'"
        and srt: "\<And>cmp A inv. ordered_item_queue empty push pop elems cmp A inv \<Longrightarrow>
          inv (st_heap ?st) \<Longrightarrow> pend_in cmp A names n br (slots(i := slot)) (st_readers ?st) \<Longrightarrow>
          sorted_wrt (\<lambda>x y. cmp y x \<noteq> Greater) items"
        by auto
      note mr' = merge_result_step [where slots = slots and raw = raw, OF i len nx' mr]
      have ordered: "sorted_wrt (\<lambda>x y. cmp y x \<noteq> Greater) (slot_item names i raw # items)"
        if oq: "ordered_item_queue empty push pop elems cmp A inv" and inv: "inv (st_heap st)"
          and pi: "pend_in cmp A names n br slots (st_readers st)" for cmp A inv
      proof -
        have "cmp y (slot_item names i raw) \<noteq> Greater" if "y \<in> set items" for y
        proof -
          from that have "y \<in> set (slot_item names i raw # items)" by simp
          from merge_result_pending [OF mr' this] obtain j where j: "j < n"
            "hi_record y \<in> set (pend_of br (slots j) (st_readers st ! j))"
            "y = slot_item names j (hi_record y)" by blast
          have "cmp (slot_item names j (hi_record y)) x \<noteq> Greater"
            by (rule ordered_item_queue.pop_least [OF oq el pop inv, where rs = "st_readers st"])
              (use pi j in \<open>auto simp: pend_in_def\<close>)
          then show ?thesis using j(3) x by simp
        qed
        moreover have "sorted_wrt (\<lambda>x y. cmp y x \<noteq> Greater) items"
          using srt [OF oq ordered_item_queue.order_step [OF oq el len pop [unfolded x] i inv pi nx']]
            pend_in_after [where slots = slots and raw = raw, OF pi nx' i(1) len i(2)] rs by simp
        ultimately show ?thesis by simp
      qed
      have "splice_loop push pop br vec_write st = Some (res', st')"
        using pop x splice_item_ok [OF nx', of push q names raw] run
        by (subst splice_loop.simps) simp
      then show ?thesis using mr' ordered by blast
    qed
  qed
qed

end

end
