(* ===== verification/Splice_Correct.thy ===== *)
theory Splice_Correct
  imports Splice_Merge
begin

text \<open>
  The splicer end to end: filling the heap and running the loop over the binary heap of
  \<open>splice\_streams\_with\_names\<close>, and what follows for \<open>splice\_named\_streams\<close> on its inputs and its
  output.
\<close>

section \<open>Filling the queue\<close>

text \<open>The record in the slot of each input after the first loop.\<close>

definition first_slot :: "'e binrw \<Rightarrow> reader \<Rightarrow> raw_record option" where
  "first_slot br r = (case fst (next_record br r) of Inl e \<Rightarrow> None | Inr slot \<Rightarrow> slot)"

lemma first_slot_pend:
  assumes "next_record br r = (Inr slot, r')"
  shows "pend_of br (first_slot br r) r' = fst (drain_records br r)"
    "fault_of br (first_slot br r) r' = fst (snd (drain_records br r))"
  using pend_next [OF assms] assms by (simp_all add: first_slot_def)

context item_queue begin

lemma fill_result:
  "splice_fill push br names i rs q = (res, rs') \<Longrightarrow>
     length rs' = length rs
     \<and> (case res of
          Inl e \<Rightarrow> \<exists>r \<in> set rs. fst (snd (drain_records br r)) = Some e
        | Inr q' \<Rightarrow>
            elems q' = elems q + (\<Sum>j<length rs. slot_mset names (\<lambda>k. first_slot br (rs ! (k - i))) (i + j))
            \<and> (\<forall>j < length rs. next_record br (rs ! j) = (Inr (first_slot br (rs ! j)), rs' ! j)))"
proof (induction rs arbitrary: i q res rs')
  case (Cons r rs)
  obtain s r1 where nx: "next_record br r = (s, r1)" by (cases "next_record br r")
  show ?case
  proof (cases s)
    case (Inl e)
    then show ?thesis using Cons.prems nx drain_next(3) [of br r e r1] by auto
  next
    case (Inr slot)
    define q1 where "q1 = (case slot of None \<Rightarrow> q | Some raw \<Rightarrow> push q (slot_item names i raw))"
    obtain res1 rs1 where rec: "splice_fill push br names (i + 1) rs q1 = (res1, rs1)"
      by (cases "splice_fill push br names (i + 1) rs q1")
    have out: "res = res1" "rs' = r1 # rs1"
      using Cons.prems nx Inr rec by (auto simp: q1_def slot_item_def split: option.splits)
    have fs: "first_slot br r = slot" using nx Inr by (simp add: first_slot_def)
    have el1: "elems q1 = elems q + slot_mset names (\<lambda>k. first_slot br ((r # rs) ! (k - i))) i"
      using fs by (cases slot) (simp_all add: q1_def slot_mset_def elems_push)
    have IH: "length rs1 = length rs
     \<and> (case res1 of
          Inl e \<Rightarrow> \<exists>r \<in> set rs. fst (snd (drain_records br r)) = Some e
        | Inr q' \<Rightarrow>
            elems q' = elems q1 + (\<Sum>j<length rs. slot_mset names (\<lambda>k. first_slot br (rs ! (k - (i + 1)))) (i + 1 + j))
            \<and> (\<forall>j < length rs. next_record br (rs ! j) = (Inr (first_slot br (rs ! j)), rs1 ! j)))"
      using Cons.IH [OF rec] .
    have shift: "(\<Sum>j<length (r # rs). slot_mset names (\<lambda>k. first_slot br ((r # rs) ! (k - i))) (i + j))
      = slot_mset names (\<lambda>k. first_slot br ((r # rs) ! (k - i))) i
        + (\<Sum>j<length rs. slot_mset names (\<lambda>k. first_slot br (rs ! (k - (i + 1)))) (i + 1 + j))"
      by (simp add: sum.lessThan_Suc_shift slot_mset_def del: sum.lessThan_Suc cong: option.case_cong)
    show ?thesis
    proof (cases res1)
      case (Inl e)
      then show ?thesis using IH out by auto
    next
      case (Inr q')
      then show ?thesis
        using IH out el1 shift nx \<open>s = Inr slot\<close> fs
        by (auto simp: add.assoc nth_Cons split: nat.splits)
    qed
  qed
qed (auto simp: slot_mset_def)

end

context ordered_item_queue begin

lemma fill_inv:
  "splice_fill push br names i rs q = (Inr q', rs') \<Longrightarrow> inv q \<Longrightarrow> set_mset (elems q) \<subseteq> A \<Longrightarrow>
     (\<And>j raw. j < length rs \<Longrightarrow> raw \<in> set (fst (drain_records br (rs ! j))) \<Longrightarrow>
        slot_item names (i + j) raw \<in> A) \<Longrightarrow> inv q'"
proof (induction rs arbitrary: i q rs')
  case (Cons r rs)
  obtain s r1 where nx: "next_record br r = (s, r1)" by (cases "next_record br r")
  then obtain slot where slot: "s = Inr slot" using Cons.prems(1) by (cases s) auto
  define q1 where "q1 = (case slot of None \<Rightarrow> q | Some raw \<Rightarrow> push q (slot_item names i raw))"
  obtain rs1 where rec: "splice_fill push br names (i + 1) rs q1 = (Inr q', rs1)"
    using Cons.prems(1) nx slot
    by (cases "splice_fill push br names (i + 1) rs q1")
      (auto simp: q1_def slot_item_def split: option.splits)
  have "slot_item names i raw \<in> A" if "slot = Some raw" for raw
    using Cons.prems(4) [of 0 raw] drain_next(1) [of br r raw r1] nx slot that by simp
  then have "inv q1 \<and> set_mset (elems q1) \<subseteq> A"
    using Cons.prems(2,3) by (auto simp: q1_def inv_push elems_push split: option.splits)
  then show ?case
    using Cons.IH [OF rec] Cons.prems(4) [of "Suc _"] by simp
qed simp

end

section \<open>A run of the splicer\<close>

text \<open>
  The result of a run over the readers \<open>rs\<close> from the output \<open>out\<close>, with the items it writes, in
  terms of what each reader delivers on its own.
\<close>

definition splice_result ::
  "'e binrw \<Rightarrow> string list \<Rightarrow> reader list \<Rightarrow> byte list \<Rightarrow> 'e trace_error + u64 \<Rightarrow> heap_item list \<Rightarrow>
     ('q, byte list) splice_state \<Rightarrow> bool" where
  "splice_result br names rs out res items st \<longleftrightarrow>
     st_output st = out @ items_bytes items
     \<and> st_written st = of_nat (length (items_bytes items))
     \<and> st_warnings st = order_warnings Map.empty items
     \<and> (\<forall>it \<in> set items. hi_input_index it < length rs
          \<and> it = slot_item names (hi_input_index it) (hi_record it))
     \<and> (case res of
          Inr w \<Rightarrow> w = of_nat (length (items_bytes items))
            \<and> (\<forall>j < length rs. fst (snd (drain_records br (rs ! j))) = None
                 \<and> of_input j items = fst (drain_records br (rs ! j)))
        | Inl e \<Rightarrow> (\<exists>j < length rs. fst (snd (drain_records br (rs ! j))) = Some e)
            \<and> (\<forall>j < length rs. prefix (of_input j items) (fst (drain_records br (rs ! j)))))"

context item_queue begin

lemma splice_with_run:
  "\<exists>res items st. splice_with empty push pop br vec_write rs names out = Some (res, st)
     \<and> splice_result br names rs out res items st
     \<and> (\<forall>cmp A inv. ordered_item_queue empty push pop elems cmp A inv \<longrightarrow>
          (\<forall>j < length rs. pend_sorted cmp names j (fst (drain_records br (rs ! j)))
             \<and> (\<forall>raw \<in> set (fst (drain_records br (rs ! j))). slot_item names j raw \<in> A)) \<longrightarrow>
          sorted_wrt (\<lambda>x y. cmp y x \<noteq> Greater) items)"
proof -
  obtain fres rs' where fill: "splice_fill push br names 0 rs empty = (fres, rs')"
    by (cases "splice_fill push br names 0 rs empty")
  note fr = fill_result [OF fill]
  show ?thesis
  proof (cases fres)
    case (Inl e)
    then obtain r where "r \<in> set rs" "fst (snd (drain_records br r)) = Some e"
      using fr by auto
    then obtain j where "j < length rs" "fst (snd (drain_records br (rs ! j))) = Some e"
      by (auto simp: in_set_conv_nth)
    then show ?thesis
      using fill Inl
      by (intro exI [of _ "Inl e"] exI [of _ "[]"]) (auto simp: splice_with_def splice_result_def)
  next
    case (Inr q')
    define slots where "slots k = first_slot br (rs ! k)" for k
    define st where "st = \<lparr>st_heap = q', st_readers = rs', st_last_ts = Map.empty,
      st_output = out, st_warnings = [], st_written = (0 :: u64)\<rparr>"
    let ?n = "length rs"
    have nx: "next_record br (rs ! j) = (Inr (slots j), rs' ! j)" if "j < ?n" for j
      using fr Inr that by (simp add: slots_def)
    have pend: "pend_of br (slots j) (rs' ! j) = fst (drain_records br (rs ! j))"
      "fault_of br (slots j) (rs' ! j) = fst (snd (drain_records br (rs ! j)))" if "j < ?n" for j
      using pend_next [OF nx [OF that]] by simp_all
    have el: "elems (st_heap st) = (\<Sum>j<?n. slot_mset names slots j)"
      using fr Inr by (simp add: st_def elems_empty slots_def [abs_def])
    have len: "length (st_readers st) = ?n" using fr by (simp add: st_def)
    have run: "splice_with empty push pop br vec_write rs names out
        = splice_loop push pop br vec_write st"
      using fill Inr by (simp add: splice_with_def st_def)
    obtain res items st' where loop: "splice_loop push pop br vec_write st = Some (res, st')"
      and mr: "merge_result br names ?n slots st res items st'"
      and srt: "\<And>cmp A inv. ordered_item_queue empty push pop elems cmp A inv \<Longrightarrow>
          inv (st_heap st) \<Longrightarrow> pend_in cmp A names ?n br slots (st_readers st) \<Longrightarrow>
          sorted_wrt (\<lambda>x y. cmp y x \<noteq> Greater) items"
      using splice_loop_run [OF el len, of br] by auto
    have "splice_result br names rs out res items st'"
      using mr pend by (cases res) (auto simp: splice_result_def merge_result_def st_def)
    moreover have "sorted_wrt (\<lambda>x y. cmp y x \<noteq> Greater) items"
      if oq: "ordered_item_queue empty push pop elems cmp A inv"
        and pi: "\<forall>j < ?n. pend_sorted cmp names j (fst (drain_records br (rs ! j)))
             \<and> (\<forall>raw \<in> set (fst (drain_records br (rs ! j))). slot_item names j raw \<in> A)" for cmp A inv
    proof -
      have "inv q'"
      proof (rule ordered_item_queue.fill_inv [OF oq])
        show "splice_fill push br names 0 rs empty = (Inr q', rs')" using fill Inr by simp
        show "inv empty" by (rule ordered_pqueue.inv_empty [OF ordered_item_queue.axioms(1) [OF oq]])
        show "set_mset (elems empty) \<subseteq> A" by (simp add: elems_empty)
        show "slot_item names (0 + j) raw \<in> A"
          if "j < ?n" "raw \<in> set (fst (drain_records br (rs ! j)))" for j raw
          using pi that by simp
      qed
      moreover have "pend_in cmp A names ?n br slots (st_readers st)"
        using pi pend by (simp add: pend_in_def st_def)
      ultimately show ?thesis using srt [OF oq] by (simp add: st_def)
    qed
    ultimately show ?thesis using run loop by auto
  qed
qed

end

section \<open>Every run returns\<close>

context item_queue begin

text \<open>Whatever the writer does, a turn that goes on has read the next record of its input.\<close>

lemma splice_item_queue:
  assumes "splice_item push br write_all (st\<lparr>st_heap := q\<rparr>) (slot_item names i raw) = (Inr u, st')"
  obtains slot r' where "next_record br (st_readers st ! i) = (Inr slot, r')" "st_readers st' = (st_readers st)[i := r']"
    "st_heap st' = (case slot of None \<Rightarrow> q | Some raw' \<Rightarrow> push q (slot_item names i raw'))"
  using assms by (auto simp: splice_item_def Let_def slot_item_def split: prod.splits sum.splits option.splits)

lemma splice_loop_returns:
  "elems (st_heap st) = (\<Sum>j<n. slot_mset names slots j) \<Longrightarrow> length (st_readers st) = n \<Longrightarrow>
     splice_loop push pop br write_all st \<noteq> None"
proof (induction "pend_size br n slots (st_readers st)" arbitrary: st slots rule: less_induct)
  case less
  show ?case
  proof (cases "pop (st_heap st)")
    case None
    then show ?thesis by (subst splice_loop.simps) simp
  next
    case (Some xq)
    obtain x q where pop: "pop (st_heap st) = Some (x, q)" using Some by (cases xq) auto
    obtain i raw where i: "i < n" "slots i = Some raw" and x: "x = slot_item names i raw"
      and q: "elems q = (\<Sum>j<n. slot_mset names (slots(i := None)) j)"
      using pop_slot [OF less.prems(1) pop] by blast
    obtain res st' where it: "splice_item push br write_all (st\<lparr>st_heap := q\<rparr>) x = (res, st')" by (metis prod.exhaust)
    show ?thesis
    proof (cases res)
      case (Inl e)
      then show ?thesis using pop it by (subst splice_loop.simps) simp
    next
      case (Inr u)
      obtain slot r' where nx: "next_record br (st_readers st ! i) = (Inr slot, r')"
        and st': "st_readers st' = (st_readers st)[i := r']"
          "st_heap st' = (case slot of None \<Rightarrow> q | Some raw' \<Rightarrow> push q (slot_item names i raw'))"
        using splice_item_queue it Inr x by blast
      have "pend_size br n (slots(i := slot)) (st_readers st') < pend_size br n slots (st_readers st)"
        unfolding st' using pend_size_after [where slots = slots and raw = raw, OF nx i(1) less.prems(2) i(2)] .
      moreover have "elems (st_heap st') = (\<Sum>j<n. slot_mset names (slots(i := slot)) j)"
        using elems_after_item [OF q i(1), where slot = slot] st'(2) by (simp add: after_item_def)
      ultimately have "splice_loop push pop br write_all st' \<noteq> None"
        using less.hyps less.prems(2) st'(1) by (metis length_list_update)
      then show ?thesis using pop it Inr by (subst splice_loop.simps) simp
    qed
  qed
qed

lemma splice_with_returns: "splice_with empty push pop br write_all rs names out \<noteq> None"
proof -
  obtain fres rs' where fill: "splice_fill push br names 0 rs empty = (fres, rs')"
    by (cases "splice_fill push br names 0 rs empty")
  show ?thesis
  proof (cases fres)
    case (Inl e)
    then show ?thesis using fill by (simp add: splice_with_def)
  next
    case (Inr q')
    let ?st = "\<lparr>st_heap = q', st_readers = rs', st_last_ts = Map.empty, st_output = out, st_warnings = [], st_written = (0 :: u64)\<rparr>"
    have "elems (st_heap ?st) = (\<Sum>j<length rs. slot_mset names (\<lambda>k. first_slot br (rs ! k)) j)"
      "length (st_readers ?st) = length rs"
      using fill_result [OF fill] Inr by (simp_all add: elems_empty)
    from splice_loop_returns [OF this] show ?thesis using fill Inr by (simp add: splice_with_def)
  qed
qed

end

section \<open>The binary heap of the splicer\<close>

interpretation item_heap: item_queue "[]" "heap_push item_cmp" "heap_pop item_cmp" mset
  by (rule item_queue.intro [OF bag.pqueue_axioms])

interpretation ftrace_item_heap: ordered_item_queue "[]" "heap_push item_cmp" "heap_pop item_cmp" mset
  item_cmp "{it. item_header it \<in> {h. h_seq h = 0}}" "heap_ok item_cmp"
  by (rule ordered_item_queue.intro [OF ftrace_heap.ordered_pqueue_axioms])

lemma coherent_item_heap:
  "coherent H \<Longrightarrow> ordered_item_queue [] (heap_push item_cmp) (heap_pop item_cmp) mset item_cmp
     {it. item_header it \<in> H} (heap_ok item_cmp)"
  by (rule ordered_item_queue.intro [OF coherent_heap])

abbreviation readers_of :: "(string \<times> source) list \<Rightarrow> reader list" where
  "readers_of inputs \<equiv> map (\<lambda>(name, r). reader_new r) inputs"

lemma nth_readers_of: "j < length inputs \<Longrightarrow> readers_of inputs ! j = reader_new (snd (inputs ! j))"
  by (simp add: case_prod_beta)

lemma splice_named_returns: "splice_named_streams br write_all inputs out \<noteq> None"
  using item_heap.splice_with_returns by (simp add: splice_named_streams_def splice_streams_with_names_def)

lemma splice_named_run:
  "\<exists>res items st. splice_named_streams br vec_write inputs out = Some (res, st)
     \<and> splice_result br (map fst inputs) (readers_of inputs) out res items st
     \<and> (\<forall>H. coherent H \<longrightarrow>
          (\<forall>j < length inputs. pend_sorted item_cmp (map fst inputs) j
               (fst (drain_records br (reader_new (snd (inputs ! j)))))
             \<and> (\<forall>raw \<in> set (fst (drain_records br (reader_new (snd (inputs ! j))))). raw_header raw \<in> H))
          \<longrightarrow> sorted_wrt (\<lambda>x y. item_cmp y x \<noteq> Greater) items)"
proof -
  obtain res items st where
    run: "splice_named_streams br vec_write inputs out = Some (res, st)"
    and sr: "splice_result br (map fst inputs) (readers_of inputs) out res items st"
    and srt: "\<And>cmp A inv. ordered_item_queue [] (heap_push item_cmp) (heap_pop item_cmp) mset cmp A inv \<Longrightarrow>
          (\<forall>j < length (readers_of inputs).
             pend_sorted cmp (map fst inputs) j (fst (drain_records br (readers_of inputs ! j)))
             \<and> (\<forall>raw \<in> set (fst (drain_records br (readers_of inputs ! j))).
                  slot_item (map fst inputs) j raw \<in> A)) \<Longrightarrow>
          sorted_wrt (\<lambda>x y. cmp y x \<noteq> Greater) items"
    using item_heap.splice_with_run [of br "readers_of inputs" "map fst inputs" out]
    unfolding splice_named_streams_def splice_streams_with_names_def by blast
  have "sorted_wrt (\<lambda>x y. item_cmp y x \<noteq> Greater) items"
    if H: "coherent H" and pi: "\<forall>j < length inputs. pend_sorted item_cmp (map fst inputs) j
               (fst (drain_records br (reader_new (snd (inputs ! j)))))
             \<and> (\<forall>raw \<in> set (fst (drain_records br (reader_new (snd (inputs ! j))))). raw_header raw \<in> H)"
    for H
    by (rule srt [OF coherent_item_heap [OF H]]) (use pi nth_readers_of [of _ inputs] in simp)
  then show ?thesis using run sr by blast
qed

section \<open>Steady inputs\<close>

lemma drain_steady:
  assumes "steady s"
  shows "fst (drain_records br (reader_new s)) = fst (parse_stream br 0 (source_bytes s))"
    "fst (snd (drain_records br (reader_new s))) = snd (parse_stream br 0 (source_bytes s))"
  using drain_is_parse_stream [OF assms, of br 0] by (auto simp: reader_new_def)

text \<open>Inputs that deliver whole records: the records of input \<open>i\<close> are \<open>bsss ! i\<close>.\<close>

definition delivers :: "(string \<times> source) list \<Rightarrow> byte list list list \<Rightarrow> bool" where
  "delivers inputs bsss \<longleftrightarrow> length bsss = length inputs \<and>
     (\<forall>i < length inputs. steady (snd (inputs ! i)) \<and> source_bytes (snd (inputs ! i)) = concat (bsss ! i)
        \<and> list_all valid_record (bsss ! i))"

lemma drain_delivers:
  assumes "binrw_le br" and "delivers inputs bsss" and "j < length inputs"
  shows "fst (drain_records br (reader_new (snd (inputs ! j)))) = raws_at 0 (bsss ! j)"
    "fst (snd (drain_records br (reader_new (snd (inputs ! j))))) = None"
  using assms parse_stream_complete [OF assms(1), of 0 "concat (bsss ! j)" "raws_at 0 (bsss ! j)"]
  by (auto simp: delivers_def drain_steady)

text \<open>Every record of every input is written once, in the order of its input.\<close>

lemma splice_delivers:
  assumes "binrw_le br" and "delivers inputs bsss"
  obtains items st where
    "splice_named_streams br vec_write inputs out = Some (Inr (of_nat (length (items_bytes items))), st)"
    "st_output st = out @ items_bytes items" "st_warnings st = order_warnings Map.empty items"
    "\<forall>i < length inputs. of_input i items = raws_at 0 (bsss ! i)"
    "\<forall>it \<in> set items. hi_input_index it < length inputs
       \<and> it = slot_item (map fst inputs) (hi_input_index it) (hi_record it)"
    "\<And>H. coherent H \<Longrightarrow>
       (\<forall>j < length inputs. pend_sorted item_cmp (map fst inputs) j (raws_at 0 (bsss ! j))
          \<and> (\<forall>b \<in> set (bsss ! j). header_of b \<in> H)) \<Longrightarrow>
       sorted_wrt (\<lambda>x y. item_cmp y x \<noteq> Greater) items"
proof -
  note dd = drain_delivers [OF assms]
  obtain res items st where
    run: "splice_named_streams br vec_write inputs out = Some (res, st)"
    and sr: "splice_result br (map fst inputs) (readers_of inputs) out res items st"
    and srt: "\<And>H. coherent H \<Longrightarrow>
          (\<forall>j < length inputs. pend_sorted item_cmp (map fst inputs) j
               (fst (drain_records br (reader_new (snd (inputs ! j)))))
             \<and> (\<forall>raw \<in> set (fst (drain_records br (reader_new (snd (inputs ! j))))). raw_header raw \<in> H))
          \<Longrightarrow> sorted_wrt (\<lambda>x y. item_cmp y x \<noteq> Greater) items"
    using splice_named_run [of br inputs out] by blast
  have rd: "readers_of inputs ! j = reader_new (snd (inputs ! j))" if "j < length inputs" for j
    using nth_readers_of [OF that] .
  obtain w where w: "res = Inr w"
    using sr dd(2) rd by (cases res) (auto simp: splice_result_def)
  have heads: "raw_header raw \<in> H"
    if "\<forall>b \<in> set bss. header_of b \<in> H" "raw \<in> set (raws_at off bss)" for H bss off raw
    using that by (induction bss arbitrary: off) (auto simp: raw_of_def)
  show thesis
  proof (rule that)
    show "splice_named_streams br vec_write inputs out = Some (Inr (of_nat (length (items_bytes items))), st)"
      using run sr w by (simp add: splice_result_def)
    show "\<forall>i < length inputs. of_input i items = raws_at 0 (bsss ! i)"
      using sr w dd(1) rd by (auto simp: splice_result_def)
    fix H assume H: "coherent H" and pi: "\<forall>j < length inputs.
      pend_sorted item_cmp (map fst inputs) j (raws_at 0 (bsss ! j)) \<and> (\<forall>b \<in> set (bsss ! j). header_of b \<in> H)"
    show "sorted_wrt (\<lambda>x y. item_cmp y x \<noteq> Greater) items"
      by (rule srt [OF H]) (use pi heads in \<open>auto simp: dd(1)\<close>)
  next
    show "st_output st = out @ items_bytes items" "st_warnings st = order_warnings Map.empty items"
      "\<forall>it \<in> set items. hi_input_index it < length inputs
         \<and> it = slot_item (map fst inputs) (hi_input_index it) (hi_record it)"
      using sr unfolding splice_result_def length_map by blast+
  qed
qed

lemma items_by_input:
  "(\<forall>it \<in> set items. hi_input_index it < n) \<Longrightarrow>
     mset (map hi_record items) = (\<Sum>j<n. mset (of_input j items))"
proof (induction items)
  case (Cons it items)
  then have i: "hi_input_index it < n" by simp
  have "(\<Sum>j<n. mset (of_input j (it # items)))
      = (\<Sum>j<n. (if j = hi_input_index it then {#hi_record it#} else {#}) + mset (of_input j items))"
    by (rule sum.cong) auto
  also have "\<dots> = add_mset (hi_record it) (\<Sum>j<n. mset (of_input j items))"
    using i by (simp add: sum.distrib)
  finally show ?case using Cons by simp
qed simp

lemma image_mset_sum: "image_mset f (\<Sum>j<n. g j) = (\<Sum>j<n. image_mset f (g j))" for n :: nat
  by (induction n) auto

lemma items_bytes_mset:
  assumes "\<forall>i < n. of_input i items = raws_at 0 (bsss ! i)" and "length bsss = n"
    and "\<forall>it \<in> set items. hi_input_index it < n"
  shows "mset (map (\<lambda>it. raw_bytes (hi_record it)) items) = mset (concat bsss)"
proof -
  have "mset (map (\<lambda>it. raw_bytes (hi_record it)) items) = image_mset raw_bytes (mset (map hi_record items))"
    by (simp add: multiset.map_comp comp_def)
  also have "\<dots> = (\<Sum>j<n. image_mset raw_bytes (mset (of_input j items)))"
    using items_by_input [OF assms(3)] image_mset_sum [of raw_bytes "\<lambda>j. mset (of_input j items)" n]
    by simp
  also have "\<dots> = (\<Sum>j<n. mset (bsss ! j))"
    using assms(1) by (intro sum.cong) (simp_all flip: mset_map)
  also have "\<dots> = mset (concat bsss)"
    using assms(2) by (simp add: mset_concat sum_list_sum_nth atLeast0LessThan)
  finally show ?thesis .
qed

text \<open>Inputs in order are in the heap's order: their offsets grow.\<close>

lemma raws_at_offset:
  "unat off + length (concat bss) < 2 ^ 64 \<Longrightarrow> raw \<in> set (raws_at off bss) \<Longrightarrow> off \<le> raw_offset raw"
proof (induction bss arbitrary: off)
  case (Cons b bss)
  then have u: "unat (off + of_nat (length b) :: u64) = unat off + length b"
    by (simp add: unat_word_ariths unat_of_nat)
  then have "off \<le> off + of_nat (length b)" by (simp add: word_le_nat_alt)
  then show ?case
    using Cons u by (auto simp: raw_of_def add.assoc intro: order.trans)
qed simp

definition records_sorted :: "byte list list \<Rightarrow> bool" where
  "records_sorted bss \<longleftrightarrow> sorted_wrt (\<lambda>a b. record_order (header_of a) (header_of b) \<noteq> Greater) bss"

lemma raws_at_header: "raw \<in> set (raws_at off bss) \<Longrightarrow> \<exists>b \<in> set bss. raw_header raw = header_of b"
  by (induction bss arbitrary: off) (auto simp: raw_of_def)

lemma pend_sorted_raws:
  "records_sorted bss \<Longrightarrow> unat off + length (concat bss) < 2 ^ 64 \<Longrightarrow>
     pend_sorted item_cmp names j (raws_at off bss)"
proof (induction bss arbitrary: off)
  case Nil
  then show ?case by (simp add: pend_sorted_def)
next
  case (Cons b bss)
  let ?off = "off + of_nat (length b) :: u64"
  have u: "unat ?off = unat off + length b"
    using Cons.prems by (simp add: unat_word_ariths unat_of_nat)
  then have "off \<le> ?off" by (simp add: word_le_nat_alt)
  have "item_cmp (slot_item names j raw) (slot_item names j (raw_of b off)) \<noteq> Greater"
    if "raw \<in> set (raws_at ?off bss)" for raw
  proof -
    have "?off \<le> raw_offset raw"
      using raws_at_offset [OF _ that] u Cons.prems by simp
    then have "off \<le> raw_offset raw" using \<open>off \<le> ?off\<close> by simp
    moreover have "record_order (header_of b) (raw_header raw) \<noteq> Greater"
      using raws_at_header [OF that] Cons.prems(1) by (auto simp: records_sorted_def)
    ultimately show ?thesis
      by (auto simp: item_cmp_def raw_of_def order_simps)
  qed
  moreover have "pend_sorted item_cmp names j (raws_at ?off bss)"
    using Cons u by (simp add: records_sorted_def)
  ultimately show ?case by (simp add: pend_sorted_def)
qed

text \<open>Items in the heap's order are records in \<open>record\_order\<close>, which raise no warning.\<close>

lemma item_order_record: "item_cmp y x \<noteq> Greater \<Longrightarrow> record_order (item_header x) (item_header y) \<noteq> Greater"
  by (auto simp: item_cmp_def order_simps)

lemma coherent_timestamps:
  assumes "coherent H" "a \<in> H" "b \<in> H" "record_order a b \<noteq> Greater"
  shows "h_timestamp_ns a \<le> h_timestamp_ns b"
  using assms(4) record_order_key [OF assms(1-3)] by (auto simp: order_key_def not_less)

lemma no_order_warnings:
  "sorted_wrt (\<lambda>x y. h_timestamp_ns (item_header x) \<le> h_timestamp_ns (item_header y)) items \<Longrightarrow>
     (\<forall>c t it. lts c = Some t \<longrightarrow> it \<in> set items \<longrightarrow> t \<le> h_timestamp_ns (item_header it)) \<Longrightarrow>
     order_warnings lts items = []"
proof (induction items arbitrary: lts)
  case (Cons it items)
  have "order_warning lts it = []"
    using Cons.prems(2) by (auto simp: order_warning_def not_less split: option.splits)
  then show ?case
    using Cons.prems by (auto intro!: Cons.IH split: if_splits)
qed simp

lemma raws_at_bytes: "raws_at off bss = map hi_record items \<Longrightarrow> items_bytes items = concat bss"
  using map_raw_bytes_raws_at [of off bss] by (simp add: items_bytes_def comp_def)

lemma raws_at_raw_of: "raw \<in> set (raws_at off bss) \<Longrightarrow> \<exists>b \<in> set bss. raw_bytes raw = b \<and> raw_header raw = header_of b"
  by (induction bss arbitrary: off) (auto simp: raw_of_def)

text \<open>The records a reader delivers, from any source, are records of the format.\<close>

lemma next_record_valid:
  assumes br: "binrw_le br" and nx: "next_record br r = (Inr (Some raw), r')"
  shows "valid_record (raw_bytes raw)"
  using nx parse_Inr_iff [OF br]
  by (auto simp: next_record_def Let_def raw_of_def split: prod.splits sum.splits if_splits)

lemma drain_records_valid:
  "binrw_le br \<Longrightarrow> raw \<in> set (fst (drain_records br r)) \<Longrightarrow> valid_record (raw_bytes raw)"
proof (induction "source_size (r_inner r)" arbitrary: r rule: less_induct)
  case less
  obtain s r' where nx: "next_record br r = (s, r')" by (cases "next_record br r")
  then obtain raw' where s: "s = Inr (Some raw')"
    using less.prems drain_next(2,3) [of br r] by (cases s; cases "projr s") fastforce+
  then show ?case
    using less drain_next(1) [of br r raw' r'] next_record_size [of br r raw' r']
      next_record_valid [of br r raw' r'] nx
    by auto
qed

text \<open>Reading back a concatenation of records, even an empty one.\<close>

lemma drain_concat:
  assumes "binrw_le br" and "list_all valid_record bss"
  shows "\<exists>r'. drain_records br (reader_new [Data (concat bss)]) = (raws_at 0 bss, None, r')"
proof (cases "concat bss = []")
  case True
  then have "bss = []" using assms(2) valid_record_nonempty by (cases bss) auto
  then show ?thesis
    by (subst drain_records.simps)
      (simp add: next_record_def reader_new_def read_exact_or_eof.simps [of "[Data []]" 24])
next
  case False
  then show ?thesis
    using drain_is_parse_stream [of "[Data (concat bss)]" br 0] assms
      parse_stream_complete [OF assms(1), of 0 "concat bss" "raws_at 0 bss"]
    by (auto simp: reader_new_def)
qed

lemma sorted_items_out:
  assumes H: "coherent H" and items: "sorted_wrt (\<lambda>x y. item_cmp y x \<noteq> Greater) items"
    and hs: "\<forall>it \<in> set items. item_header it \<in> H \<and> header_of (raw_bytes (hi_record it)) = item_header it"
  shows "records_sorted (map (\<lambda>it. raw_bytes (hi_record it)) items)"
    and "order_warnings Map.empty items = []"
proof -
  show "records_sorted (map (\<lambda>it. raw_bytes (hi_record it)) items)"
    unfolding records_sorted_def sorted_wrt_map
    by (rule sorted_wrt_mono_rel [OF _ items]) (use hs item_order_record in auto)
  have "sorted_wrt (\<lambda>x y. h_timestamp_ns (item_header x) \<le> h_timestamp_ns (item_header y)) items"
    by (rule sorted_wrt_mono_rel [OF _ items])
      (use hs in \<open>auto intro!: coherent_timestamps [OF H] item_order_record\<close>)
  then show "order_warnings Map.empty items = []"
    by (rule no_order_warnings) simp
qed

lemma items_of_inputs:
  assumes "\<forall>i < n. of_input i items = raws_at 0 (bsss ! i)" and "\<forall>it \<in> set items. hi_input_index it < n"
    and "it \<in> set items"
  obtains i b where "i < n" "b \<in> set (bsss ! i)" "raw_bytes (hi_record it) = b" "item_header it = header_of b"
proof -
  let ?i = "hi_input_index it"
  have i: "?i < n" using assms by simp
  then have "hi_record it \<in> set (raws_at 0 (bsss ! ?i))"
    using of_input_member [OF assms(3)] assms(1) by simp
  then have "\<exists>b \<in> set bss. raw_bytes (hi_record it) = b \<and> item_header it = header_of b"
    if "bss = bsss ! ?i" for bss
    using that raws_at_raw_of by metis
  then show thesis using that i by blast
qed

lemma splice_delivers_sorted:
  assumes br: "binrw_le br" and d: "delivers inputs bsss" and H: "coherent H"
    and hs: "\<forall>bss \<in> set bsss. records_sorted bss \<and> length (concat bss) < 2 ^ 64
      \<and> (\<forall>b \<in> set bss. header_of b \<in> H)"
  shows "\<exists>obss st. splice_named_streams br vec_write inputs [] = Some (Inr (of_nat (length (concat obss))), st)
    \<and> st_output st = concat obss \<and> mset obss = mset (concat bsss) \<and> list_all valid_record obss
    \<and> records_sorted obss \<and> st_warnings st = []"
proof -
  from splice_delivers [OF br d, of "[]"] obtain items st where
    run: "splice_named_streams br vec_write inputs [] = Some (Inr (of_nat (length (items_bytes items))), st)"
      "st_output st = [] @ items_bytes items" "st_warnings st = order_warnings Map.empty items"
    and oi: "\<forall>i < length inputs. of_input i items = raws_at 0 (bsss ! i)"
    and idx: "\<forall>it \<in> set items. hi_input_index it < length inputs
       \<and> it = slot_item (map fst inputs) (hi_input_index it) (hi_record it)"
    and srt: "\<And>H. coherent H \<Longrightarrow>
       (\<forall>j < length inputs. pend_sorted item_cmp (map fst inputs) j (raws_at 0 (bsss ! j))
          \<and> (\<forall>b \<in> set (bsss ! j). header_of b \<in> H)) \<Longrightarrow>
       sorted_wrt (\<lambda>x y. item_cmp y x \<noteq> Greater) items"
    by blast
  have len: "length bsss = length inputs" using d by (simp add: delivers_def)
  have idx': "\<forall>it \<in> set items. hi_input_index it < length inputs" using idx by blast
  let ?o = "map (\<lambda>it. raw_bytes (hi_record it)) items"
  have el: "raw_bytes (hi_record it) \<in> set (concat bsss) \<and> valid_record (raw_bytes (hi_record it))
      \<and> item_header it \<in> H \<and> header_of (raw_bytes (hi_record it)) = item_header it" if it: "it \<in> set items" for it
  proof -
    obtain i b where i: "i < length inputs" "b \<in> set (bsss ! i)" "raw_bytes (hi_record it) = b"
      "item_header it = header_of b"
      using items_of_inputs [OF oi idx' it] by blast
    moreover have "bsss ! i \<in> set bsss" using i len by simp
    moreover have "valid_record b" using d i by (auto simp: delivers_def list_all_iff)
    ultimately show ?thesis using hs by auto
  qed
  have "sorted_wrt (\<lambda>x y. item_cmp y x \<noteq> Greater) items"
    using hs len by (intro srt [OF H]) (auto intro!: pend_sorted_raws)
  then have "records_sorted ?o" "order_warnings Map.empty items = []"
    using sorted_items_out [OF H] el by blast+
  then show ?thesis
    using run items_bytes_mset [OF oi len idx'] el
    by (intro exI [of _ ?o] exI [of _ st]) (simp add: items_bytes_def list_all_iff)
qed

section \<open>Properties\<close>

text \<open>The inputs on which the properties are applied: two CPUs' streams, cut into odd pieces.\<close>

definition cpu0 :: "byte list list" where
  "cpu0 = [sample_bytes (sample_header 10 0 0 1 7), sample_bytes (sample_header 30 0 0 1 8)]"

definition cpu1 :: "byte list list" where
  "cpu1 = [sample_bytes (sample_header 20 0 0 2 9)]"

definition cpu_inputs :: "(string \<times> source) list" where
  "cpu_inputs =
     [(''cpu0'', [Data (concat cpu0)]),
      (''cpu1'', [Data (take 5 (concat cpu1)), Fails (IoError Interrupted []), Data (drop 5 (concat cpu1))])]"

lemma take_drop_nonempty: "length xs = 40 \<Longrightarrow> take 5 xs \<noteq> [] \<and> drop 5 xs \<noteq> []"
  by auto

lemma cpu_inputs_deliver: "delivers cpu_inputs [cpu0, cpu1]"
proof -
  have "length (concat cpu0) = 80" "length (concat cpu1) = 40"
    by (simp_all add: cpu0_def cpu1_def)
  then have "concat cpu0 \<noteq> []" "take 5 (concat cpu1) \<noteq> []" "drop 5 (concat cpu1) \<noteq> []"
    by (auto simp del: concat_eq_Nil_conv)
  then have "steady (snd (cpu_inputs ! i)) \<and> source_bytes (snd (cpu_inputs ! i)) = concat ([cpu0, cpu1] ! i)"
    if "i < 2" for i
    using that by (cases i) (simp_all add: cpu_inputs_def)
  moreover have "list_all valid_record ([cpu0, cpu1] ! i)" if "i < 2" for i
    using that by (cases i) (simp_all add: cpu0_def cpu1_def)
  ultimately show ?thesis by (simp add: delivers_def cpu_inputs_def)
qed

lemma cpu_inputs_sorted: "\<forall>bss \<in> set [cpu0, cpu1]. records_sorted bss \<and> length (concat bss) < 2 ^ 64
      \<and> (\<forall>b \<in> set bss. header_of b \<in> {h. h_seq h = 0})"
  by (simp add: records_sorted_def record_order_def ord_cmp_def cpu0_def cpu1_def)

text \<open>
  C1. \<open>splice\_named\_streams\<close> on streams of whole records, delivered in any pieces: it returns
  the number of bytes written, and the output is a merge in which every record of every input
  appears exactly once, unchanged, and in the order of its input. Its warnings are those of the
  written sequence.
\<close>

theorem splice_writes_every_record:
  assumes "binrw_le br" and "delivers inputs bsss"
  shows "\<exists>items st.
    splice_named_streams br vec_write inputs out = Some (Inr (of_nat (length (items_bytes items))), st)
    \<and> st_output st = out @ items_bytes items
    \<and> (\<forall>i < length inputs. map raw_bytes (of_input i items) = bsss ! i)
    \<and> mset (map (\<lambda>it. raw_bytes (hi_record it)) items) = mset (concat bsss)
    \<and> st_warnings st = order_warnings Map.empty items"
proof -
  from assms obtain items st where
    "splice_named_streams br vec_write inputs out = Some (Inr (of_nat (length (items_bytes items))), st)"
    "st_output st = out @ items_bytes items" "st_warnings st = order_warnings Map.empty items"
    and oi: "\<forall>i < length inputs. of_input i items = raws_at 0 (bsss ! i)"
    and idx: "\<forall>it \<in> set items. hi_input_index it < length inputs
       \<and> it = slot_item (map fst inputs) (hi_input_index it) (hi_record it)"
    by (rule splice_delivers)
  moreover have "mset (map (\<lambda>it. raw_bytes (hi_record it)) items) = mset (concat bsss)"
    using items_bytes_mset [OF oi] idx assms(2) by (simp add: delivers_def)
  ultimately show ?thesis
    using oi by (intro exI [of _ items] exI [of _ st]) simp
qed

lemma splice_writes_every_record_witness:
  "\<exists>items st. splice_named_streams le_binrw vec_write cpu_inputs [1]
      = Some (Inr (of_nat (length (items_bytes items))), st)
    \<and> st_output st = [1] @ items_bytes items
    \<and> (\<forall>i < length cpu_inputs. map raw_bytes (of_input i items) = [cpu0, cpu1] ! i)
    \<and> mset (map (\<lambda>it. raw_bytes (hi_record it)) items) = mset (concat [cpu0, cpu1])
    \<and> st_warnings st = order_warnings Map.empty items"
  by (rule splice_writes_every_record [OF binrw_le_le_binrw cpu_inputs_deliver])

text \<open>
  C2. Merging streams that are each in \<open>record\_order\<close> and below \<open>2 ^ 64\<close> bytes, provided all headers are
  coherent (within a controller sequence numbers and timestamps never disagree, which a skew between
  CPUs can break): the output is in \<open>record\_order\<close>, is a permutation of the input records, draws no
  warning, and \<open>RecordReader\<close> reads all of it back.
\<close>

theorem splice_output_sorted:
  assumes "binrw_le br" and "delivers inputs bsss" and "coherent H"
    and "\<forall>bss \<in> set bsss. records_sorted bss \<and> length (concat bss) < 2 ^ 64
      \<and> (\<forall>b \<in> set bss. header_of b \<in> H)"
  shows "\<exists>obss st. splice_named_streams br vec_write inputs [] = Some (Inr (of_nat (length (concat obss))), st)
    \<and> st_output st = concat obss \<and> mset obss = mset (concat bsss) \<and> records_sorted obss
    \<and> st_warnings st = []
    \<and> (\<exists>r'. drain_records br (reader_new [Data (st_output st)]) = (raws_at 0 obss, None, r'))"
proof -
  from splice_delivers_sorted [OF assms] obtain obss st where
    run: "splice_named_streams br vec_write inputs [] = Some (Inr (of_nat (length (concat obss))), st)"
    "st_output st = concat obss" "mset obss = mset (concat bsss)" "records_sorted obss" "st_warnings st = []"
    and v: "list_all valid_record obss" by blast
  have "\<exists>r'. drain_records br (reader_new [Data (concat obss)]) = (raws_at 0 obss, None, r')"
    using drain_concat [OF assms(1) v] by blast
  with run show ?thesis by auto
qed

lemma splice_output_sorted_witness:
  "\<exists>obss st. splice_named_streams le_binrw vec_write cpu_inputs [] = Some (Inr (of_nat (length (concat obss))), st)
    \<and> mset obss = mset (concat [cpu0, cpu1]) \<and> records_sorted obss \<and> st_warnings st = []"
  using splice_output_sorted [OF binrw_le_le_binrw cpu_inputs_deliver coherent_unsequenced cpu_inputs_sorted]
  by blast

text \<open>
  C15. On any inputs, readable or not: the splicer returns. It succeeds exactly when every input
  ends without a fault, and then writes all records; otherwise the error is the fault some input
  gives on its own, and what was written is whole valid records, a prefix of each input's.
\<close>

theorem splice_stops_at_faults:
  assumes "binrw_le br"
  shows "\<exists>res items st. splice_named_streams br vec_write inputs out = Some (res, st)
    \<and> st_output st = out @ items_bytes items
    \<and> (\<forall>it \<in> set items. valid_record (raw_bytes (hi_record it)))
    \<and> (\<forall>i < length inputs.
         prefix (of_input i items) (fst (drain_records br (reader_new (snd (inputs ! i))))))
    \<and> (case res of
         Inr w \<Rightarrow> w = of_nat (length (items_bytes items))
           \<and> (\<forall>i < length inputs. drain_records br (reader_new (snd (inputs ! i)))
                = (of_input i items, None, snd (snd (drain_records br (reader_new (snd (inputs ! i)))))))
       | Inl e \<Rightarrow> \<exists>i < length inputs.
           fst (snd (drain_records br (reader_new (snd (inputs ! i))))) = Some e)"
proof -
  obtain res items st where run: "splice_named_streams br vec_write inputs out = Some (res, st)"
    and sr: "splice_result br (map fst inputs) (readers_of inputs) out res items st"
    using splice_named_run [of br inputs out] by blast
  note rd = nth_readers_of [of _ inputs]
  have v: "valid_record (raw_bytes (hi_record it))" if it: "it \<in> set items" for it
  proof -
    let ?i = "hi_input_index it"
    have "?i < length (readers_of inputs)" using sr it unfolding splice_result_def by blast
    then have "set (of_input ?i items) \<subseteq> set (fst (drain_records br (readers_of inputs ! ?i)))"
      using sr set_mono_prefix by (cases res) (fastforce simp: splice_result_def)+
    then show ?thesis
      using of_input_member [OF it] drain_records_valid [OF assms] by blast
  qed
  show ?thesis
  proof (intro exI [of _ res] exI [of _ items] exI [of _ st] conjI run ballI v)
    show "st_output st = out @ items_bytes items" using sr by (simp add: splice_result_def)
    show "\<forall>i < length inputs.
         prefix (of_input i items) (fst (drain_records br (reader_new (snd (inputs ! i)))))"
      using sr rd by (cases res) (auto simp: splice_result_def)
    show "case res of
         Inr w \<Rightarrow> w = of_nat (length (items_bytes items))
           \<and> (\<forall>i < length inputs. drain_records br (reader_new (snd (inputs ! i)))
                = (of_input i items, None, snd (snd (drain_records br (reader_new (snd (inputs ! i)))))))
       | Inl e \<Rightarrow> \<exists>i < length inputs.
           fst (snd (drain_records br (reader_new (snd (inputs ! i))))) = Some e"
      using sr rd by (cases res) (auto simp: splice_result_def intro!: prod_eqI)
  qed
qed

lemma splice_stops_at_faults_witness:
  "\<exists>st. splice_named_streams le_binrw vec_write [(''x'', [Data [1, 2, 3]])] []
     = Some (Inl (TruncatedHeader 0 3), st)"
proof -
  have "drain_records le_binrw (reader_new [Data [1, 2, 3]])
      = ([], Some (TruncatedHeader 0 3), \<lparr>r_inner = [], r_offset = 3\<rparr>)"
    by code_simp
  then show ?thesis
    using splice_stops_at_faults [OF binrw_le_le_binrw, of "[(''x'', [Data [1, 2, 3]])]" "[]"]
    by (elim exE, rename_tac res items st, case_tac res) auto
qed

text \<open>
  Splicing one stream copies it, whatever the order of its records.
\<close>

theorem splice_one_stream_copies:
  assumes "binrw_le br" and "steady s" and "source_bytes s = concat bss" and "list_all valid_record bss"
  shows "\<exists>st. splice_named_streams br vec_write [(name, s)] out = Some (Inr (of_nat (length (source_bytes s))), st)
    \<and> st_output st = out @ source_bytes s"
proof -
  have "delivers [(name, s)] [bss]"
    using assms by (simp add: delivers_def)
  with assms(1) obtain items st where
    run: "splice_named_streams br vec_write [(name, s)] out = Some (Inr (of_nat (length (items_bytes items))), st)"
      "st_output st = out @ items_bytes items"
    and oi: "\<forall>i < length [(name, s)]. of_input i items = raws_at 0 ([bss] ! i)"
    and idx: "\<forall>it \<in> set items. hi_input_index it < length [(name, s)]
       \<and> it = slot_item (map fst [(name, s)]) (hi_input_index it) (hi_record it)"
    by (rule splice_delivers)
  have "of_input 0 items = map hi_record items"
    unfolding of_input_def using idx by (metis (mono_tags, lifting) filter_True length_Cons less_one list.size(3) One_nat_def)
  then have "items_bytes items = concat bss"
    using oi raws_at_bytes [of 0 bss items] by simp
  then show ?thesis using run assms(3) by auto
qed

lemma splice_one_stream_copies_witness:
  "\<exists>st. splice_named_streams le_binrw vec_write [(''cpu0'', [Data (concat cpu0)])] [] = Some (Inr 80, st)"
proof -
  have l: "length (concat cpu0) = 80" by (simp add: cpu0_def)
  then have "steady [Data (concat cpu0)]" by (auto simp del: concat_eq_Nil_conv)
  moreover have "list_all valid_record cpu0" by (simp add: cpu0_def)
  ultimately show ?thesis
    using splice_one_stream_copies [OF binrw_le_le_binrw, of "[Data (concat cpu0)]" cpu0 "''cpu0''" "[]"] l
    by (auto simp del: length_concat)
qed

text \<open>
  \<open>record\_order\<close> compares two records by their sequence numbers when they are of one controller and
  both have one, and by their times otherwise.
\<close>

definition by_sequence :: "header \<Rightarrow> header \<Rightarrow> bool" where
  "by_sequence a b \<longleftrightarrow> h_ctrl_id a = h_ctrl_id b \<and> h_seq a \<noteq> 0 \<and> h_seq b \<noteq> 0"

definition sequence_key :: "header \<Rightarrow> u32 \<times> u8 \<times> u16" where
  "sequence_key h = (h_seq h, h_qid h, h_cid h)"

definition time_key :: "header \<Rightarrow> u64 \<times> u8 \<times> u8 \<times> u16" where
  "time_key h = (h_timestamp_ns h, h_ctrl_id h, h_qid h, h_cid h)"

lemma record_order_less:
  "record_order a b = Less \<longleftrightarrow>
     (if by_sequence a b then sequence_key a < sequence_key b else time_key a < time_key b)"
  by (auto simp: record_order_def by_sequence_def sequence_key_def time_key_def ord_cmp_def)

lemma by_sequence_trans: "by_sequence a b \<Longrightarrow> by_sequence b c \<Longrightarrow> by_sequence c a"
  by (auto simp: by_sequence_def)

lemma by_sequence_sym: "by_sequence a b \<Longrightarrow> by_sequence b a"
  by (auto simp: by_sequence_def)

text \<open>\<open>a\<close> has the lower number and the later time, and \<open>c\<close>, compared with both by time, is between.\<close>

definition skewed :: "header \<Rightarrow> header \<Rightarrow> header \<Rightarrow> bool" where
  "skewed a b c \<longleftrightarrow> by_sequence a b \<and> \<not> by_sequence b c \<and> sequence_key a < sequence_key b
     \<and> time_key b < time_key c \<and> time_key c < time_key a"

text \<open>
  C40. Exactly when \<open>record\_order\<close> runs in a circle on three records, so that no heap can order them:
  one pair of them is of one controller with the numbers in one order and the times in the other (the
  skew between CPUs that the comment of \<open>record\_order\<close> names), and the third, of another controller
  or without a number, is between them in time.
\<close>

theorem record_order_cycles:
  "record_order a b = Less \<and> record_order b c = Less \<and> record_order c a = Less
     \<longleftrightarrow> skewed a b c \<or> skewed b c a \<or> skewed c a b"
proof
  assume cyc: "record_order a b = Less \<and> record_order b c = Less \<and> record_order c a = Less"
  consider "by_sequence a b" "by_sequence b c" | "by_sequence a b" "\<not> by_sequence b c"
    | "\<not> by_sequence a b" "by_sequence b c" | "\<not> by_sequence a b" "\<not> by_sequence b c" by blast
  then show "skewed a b c \<or> skewed b c a \<or> skewed c a b"
  proof cases
    case 1
    then show ?thesis
      using cyc by_sequence_trans [OF 1] by (auto simp: record_order_less dest: order.strict_trans)
  next
    case 2
    then show ?thesis
      using cyc by_sequence_trans [of c a b] by_sequence_sym by (auto simp: record_order_less skewed_def split: if_splits)
  next
    case 3
    then show ?thesis
      using cyc by_sequence_trans [of b c a] by_sequence_sym by (auto simp: record_order_less skewed_def split: if_splits)
  next
    case 4
    then show ?thesis
      using cyc by_sequence_sym by (auto simp: record_order_less skewed_def dest: order.strict_trans split: if_splits)
  qed
next
  have "record_order x y = Less \<and> record_order y z = Less \<and> record_order z x = Less" if "skewed x y z" for x y z
    using that by_sequence_trans [of z x y] by_sequence_sym by (auto simp: record_order_less skewed_def split: if_splits)
  then show "skewed a b c \<or> skewed b c a \<or> skewed c a b \<Longrightarrow>
      record_order a b = Less \<and> record_order b c = Less \<and> record_order c a = Less" by blast
qed

text \<open>Two records of controller 0 whose times and numbers disagree, and one of controller 1.\<close>

lemma record_order_cycles_witness:
  "record_order (sample_header 30 1 0 0 0) (sample_header 10 2 0 0 0) = Less
   \<and> record_order (sample_header 10 2 0 0 0) (sample_header 20 0 1 0 0) = Less
   \<and> record_order (sample_header 20 0 1 0 0) (sample_header 30 1 0 0 0) = Less"
  unfolding record_order_cycles
  by (rule disjI1) (simp add: skewed_def by_sequence_def sequence_key_def time_key_def sample_header_def)

end
