(* ===== verification/Ordered_Map.thy ===== *)
theory Ordered_Map
  imports Trace_Prelude
begin

text \<open>
  \<open>std::collections::BTreeMap\<close>: what the analyses rely on as the locale \<open>ordered\_map\<close>, and a
  sorted association list that provides it. \<open>entry(k).or\_default()\<close> followed by an update is
  \<open>entry\<close>; iteration gives the bindings in the order of their keys.
\<close>

section \<open>Interface\<close>

locale ordered_map =
  fixes empty :: "'m" and get :: "'k::linorder \<Rightarrow> 'm \<Rightarrow> 'v option" and put :: "'k \<Rightarrow> 'v \<Rightarrow> 'm \<Rightarrow> 'm"
    and items :: "'m \<Rightarrow> ('k \<times> 'v) list" and ok :: "'m \<Rightarrow> bool"
  assumes ok_empty: "ok empty"
    and ok_put: "ok m \<Longrightarrow> ok (put k v m)"
    and get_empty: "get k empty = None"
    and get_put: "ok m \<Longrightarrow> get k (put k' v m) = (if k = k' then Some v else get k m)"
    and items_get: "ok m \<Longrightarrow> (k, v) \<in> set (items m) \<longleftrightarrow> get k m = Some v"
    and items_sorted: "ok m \<Longrightarrow> sorted_wrt (<) (map fst (items m))"
begin

lemma items_distinct: "ok m \<Longrightarrow> distinct (map fst (items m))"
  using items_sorted strict_sorted_iff by blast

lemma map_of_items: "ok m \<Longrightarrow> map_of (items m) k = get k m"
  using items_get [of m k] map_of_eq_Some_iff [OF items_distinct, of m k]
  by (cases "get k m"; cases "map_of (items m) k") fastforce+

lemma keys_items: "ok m \<Longrightarrow> set (map fst (items m)) = {k. get k m \<noteq> None}"
  using items_get by (force simp: image_iff)

text \<open>The bindings are determined by the lookups: two maps with the same content list the same.\<close>

lemma items_unique:
  assumes "ok m" and "ok m'" and "\<And>k. get k m = get k m'"
  shows "items m = items m'"
proof (rule map_sorted_distinct_set_unique [where f = fst])
  show "inj_on fst (set (items m) \<union> set (items m'))"
    using assms by (auto simp: inj_on_def items_get)
  show "set (items m) = set (items m')"
    using assms by (auto simp: items_get)
qed (use items_sorted assms in \<open>auto simp: strict_sorted_iff\<close>)

text \<open>A quantity summed over the bindings changes by what an update adds to one of them.\<close>

lemma sum_items: "ok m \<Longrightarrow> (\<Sum>(k, v)\<leftarrow>items m. f k v) = (\<Sum>k | get k m \<noteq> None. f k (the (get k m)))"
proof -
  assume m: "ok m"
  have "(\<Sum>(k, v)\<leftarrow>items m. f k v) = (\<Sum>(k, v)\<in>set (items m). f k v)"
    using items_distinct [OF m] by (simp add: sum_list_distinct_conv_sum_set distinct_map)
  also have "set (items m) = (\<lambda>k. (k, the (get k m))) ` {k. get k m \<noteq> None}"
    using items_get [OF m] by (auto simp: image_iff) 
  also have "(\<Sum>(k, v)\<in>(\<lambda>k. (k, the (get k m))) ` {k. get k m \<noteq> None}. f k v)
      = (\<Sum>k | get k m \<noteq> None. f k (the (get k m)))"
    by (subst sum.reindex) (auto simp: inj_on_def)
  finally show ?thesis .
qed

lemma finite_keys: "ok m \<Longrightarrow> finite {k. get k m \<noteq> None}"
  using keys_items finite_set by metis

lemma sum_items_put:
  fixes f :: "'k \<Rightarrow> 'v \<Rightarrow> 'c::comm_monoid_add"
  assumes "ok m"
  shows "(\<Sum>(k, v)\<leftarrow>items (put k' v' m). f k v) + (case get k' m of None \<Rightarrow> 0 | Some v \<Rightarrow> f k' v)
    = (\<Sum>(k, v)\<leftarrow>items m. f k v) + f k' v'"
proof -
  let ?K = "{k. get k m \<noteq> None}"
  have K: "{k. get k (put k' v' m) \<noteq> None} = insert k' ?K"
    using assms by (auto simp: get_put)
  have rest: "(\<Sum>k\<in>?K - {k'}. f k (the (get k (put k' v' m)))) = (\<Sum>k\<in>?K - {k'}. f k (the (get k m)))"
    using assms by (intro sum.cong) (auto simp: get_put)
  have new: "(\<Sum>(k, v)\<leftarrow>items (put k' v' m). f k v) = f k' v' + (\<Sum>k\<in>?K - {k'}. f k (the (get k m)))"
    using sum_items [OF ok_put [OF assms], of f] K rest
      sum.insert_remove [OF finite_keys [OF assms], of "\<lambda>k. f k (the (get k (put k' v' m)))" k']
    by (simp only:) (simp add: get_put assms)
  show ?thesis
  proof (cases "get k' m")
    case None
    then have "?K - {k'} = ?K" by auto
    then show ?thesis
      using None new sum_items [OF assms, of f] by (simp add: add.commute)
  next
    case (Some v)
    then have "sum g ?K = g k' + sum g (?K - {k'})" for g :: "'k \<Rightarrow> 'c"
      using finite_keys [OF assms] by (intro sum.remove) auto
    then show ?thesis
      using Some new sum_items [OF assms, of f] by (simp add: ac_simps)
  qed
qed

end

section \<open>A sorted association list\<close>

type_synonym ('k, 'v) btree_map = "('k \<times> 'v) list"

definition bt_get :: "'k \<Rightarrow> ('k, 'v) btree_map \<Rightarrow> 'v option" where
  "bt_get k m = map_of m k"

fun bt_put :: "'k::linorder \<Rightarrow> 'v \<Rightarrow> ('k, 'v) btree_map \<Rightarrow> ('k, 'v) btree_map" where
  "bt_put k v [] = [(k, v)]"
| "bt_put k v ((k', v') # m) =
     (if k < k' then (k, v) # (k', v') # m
      else if k = k' then (k, v) # m
      else (k', v') # bt_put k v m)"

definition bt_ok :: "('k::linorder, 'v) btree_map \<Rightarrow> bool" where
  "bt_ok m \<longleftrightarrow> sorted_wrt (<) (map fst m)"

text \<open>\<open>*m.entry(k).or\_default() = f(...)\<close>, and \<open>get(k).copied().unwrap\_or\_default()\<close>.\<close>

definition bt_entry :: "'k::linorder \<Rightarrow> 'v \<Rightarrow> ('v \<Rightarrow> 'v) \<Rightarrow> ('k, 'v) btree_map \<Rightarrow> ('k, 'v) btree_map" where
  "bt_entry k d f m = bt_put k (f (case bt_get k m of None \<Rightarrow> d | Some v \<Rightarrow> v)) m"

definition bt_get_or :: "'v \<Rightarrow> 'k \<Rightarrow> ('k, 'v) btree_map \<Rightarrow> 'v" where
  "bt_get_or d k m = (case bt_get k m of None \<Rightarrow> d | Some v \<Rightarrow> v)"

lemma bt_put_keys: "set (map fst (bt_put k v m)) = insert k (set (map fst m))"
  by (induction k v m rule: bt_put.induct) auto

lemma bt_ok_put: "bt_ok m \<Longrightarrow> bt_ok (bt_put k v m)"
proof (induction k v m rule: bt_put.induct)
  case (2 k v k' v' m)
  then show ?case
    using bt_put_keys [of k v m] by (auto simp: bt_ok_def)
qed (simp add: bt_ok_def)

lemma bt_get_put: "bt_ok m \<Longrightarrow> bt_get k (bt_put k' v m) = (if k = k' then Some v else bt_get k m)"
proof (induction k' v m rule: bt_put.induct)
  case (2 k1 v1 k2 v2 m)
  then have "bt_get k1 m = None" if "k1 < k2"
    using that by (force simp: bt_ok_def bt_get_def map_of_eq_None_iff)
  then show ?case using 2 by (auto simp: bt_ok_def bt_get_def)
qed (simp add: bt_get_def)

interpretation bt: ordered_map "[]" bt_get bt_put "\<lambda>m. m" bt_ok
proof unfold_locales
  show "bt_ok []" by (simp add: bt_ok_def)
  show "bt_ok m \<Longrightarrow> bt_ok (bt_put k v m)" for m :: "('a \<times> 'b) list" and k v by (rule bt_ok_put)
  show "bt_get k [] = None" for k by (simp add: bt_get_def)
  show "bt_ok m \<Longrightarrow> bt_get k (bt_put k' v m) = (if k = k' then Some v else bt_get k m)"
    for m :: "('a \<times> 'b) list" and k k' v by (rule bt_get_put)
  show "bt_ok m \<Longrightarrow> (k, v) \<in> set m \<longleftrightarrow> bt_get k m = Some v" for m :: "('a \<times> 'b) list" and k v
    by (simp add: bt_ok_def bt_get_def strict_sorted_iff)
  show "bt_ok m \<Longrightarrow> sorted_wrt (<) (map fst m)" for m :: "('a \<times> 'b) list" by (simp add: bt_ok_def)
qed

lemma bt_ok_Nil [simp]: "bt_ok []"
  by (simp add: bt_ok_def)

lemma bt_ok_entry [simp]: "bt_ok m \<Longrightarrow> bt_ok (bt_entry k d f m)"
  by (simp add: bt_entry_def bt_ok_put)

lemma bt_get_or_Nil [simp]: "bt_get_or d k [] = d"
  by (simp add: bt_get_or_def bt_get_def)

lemma bt_get_entry:
  "bt_ok m \<Longrightarrow> bt_get k (bt_entry k' d f m) = (if k = k' then Some (f (bt_get_or d k m)) else bt_get k m)"
  by (simp add: bt_entry_def bt_get_put bt_get_or_def)

lemma bt_get_or_entry [simp]:
  "bt_ok m \<Longrightarrow> bt_get_or d k (bt_entry k' d f m) = (if k = k' then f (bt_get_or d k m) else bt_get_or d k m)"
  by (simp add: bt_get_entry bt_get_or_def)

end
