(* ===== verification/Command_Tracker.thy ===== *)
theory Command_Tracker
  imports Trace_Format Ordered_Map "HOL-Library.Product_Lexorder"
begin

text \<open>
  What the three analyses of \<open>analyze.rs\<close> share: the keys, the warnings and the tracking of
  outstanding commands. The locale \<open>command\_tracker\<close> is this contract; each analysis interprets
  it with its own step function and gets the same outstanding set and the same warnings.
\<close>

section \<open>Keys\<close>

datatype queue_key = QueueKey (qk_ctrl_id: u8) (qk_qid: u8)

text \<open>\<open>derive(Ord)\<close> compares the fields in the order of their declaration.\<close>

instantiation queue_key :: linorder
begin

definition less_eq_queue_key :: "queue_key \<Rightarrow> queue_key \<Rightarrow> bool" where
  "a \<le> b \<longleftrightarrow> (qk_ctrl_id a, qk_qid a) \<le> (qk_ctrl_id b, qk_qid b)"

definition less_queue_key :: "queue_key \<Rightarrow> queue_key \<Rightarrow> bool" where
  "a < b \<longleftrightarrow> (qk_ctrl_id a, qk_qid a) < (qk_ctrl_id b, qk_qid b)"

instance
proof
  fix a b c :: queue_key
  show "a < b \<longleftrightarrow> a \<le> b \<and> \<not> b \<le> a" "a \<le> a" "a \<le> b \<or> b \<le> a"
    by (auto simp: less_eq_queue_key_def less_queue_key_def)
  show "a \<le> b \<Longrightarrow> b \<le> c \<Longrightarrow> a \<le> c"
    unfolding less_eq_queue_key_def by (rule order.trans)
  show "a \<le> b \<Longrightarrow> b \<le> a \<Longrightarrow> a = b"
    unfolding less_eq_queue_key_def by (metis antisym prod.inject queue_key.expand)
qed

end

record command_key =
  k_ctrl_id :: u8
  k_qid :: u8
  k_cid :: u16

definition command_key_of :: "header \<Rightarrow> command_key" where
  "command_key_of h = \<lparr>k_ctrl_id = h_ctrl_id h, k_qid = h_qid h, k_cid = h_cid h\<rparr>"

definition key_queue :: "command_key \<Rightarrow> queue_key" where
  "key_queue k = QueueKey (k_ctrl_id k) (k_qid k)"

abbreviation record_key :: "trace_record \<Rightarrow> command_key" where
  "record_key r \<equiv> command_key_of (record_header r)"

section \<open>Time since the first record\<close>

definition record_offset :: "u64 \<Rightarrow> trace_record \<Rightarrow> u64" where
  "record_offset base r = saturating_sub (h_timestamp_ns (record_header r)) base"

definition base_of :: "trace_record list \<Rightarrow> u64" where
  "base_of rs = (case rs of [] \<Rightarrow> 0 | r # _ \<Rightarrow> h_timestamp_ns (record_header r))"

definition last_offset_of :: "trace_record list \<Rightarrow> u64" where
  "last_offset_of rs = fold max (map (record_offset (base_of rs)) rs) 0"

lemma fold_max_ge: "x \<le> fold max xs (x :: 'a::linorder)"
proof (induction xs arbitrary: x)
  case (Cons y xs)
  then have "max y x \<le> fold max xs (max y x)" .
  then show ?case by (simp add: max.bounded_iff)
qed simp

section \<open>Warnings\<close>

definition key_text :: "command_key \<Rightarrow> string" where
  "key_text key = ''nvme'' @ show_word (k_ctrl_id key) @ '' qid='' @ show_word (k_qid key)
     @ '' cid='' @ show_word (k_cid key)"

definition duplicate_submit_warning :: "command_key \<Rightarrow> string" where
  "duplicate_submit_warning key = ''duplicate outstanding submit for ctrl='' @ key_text key"

definition unmatched_completion_warning :: "command_key \<Rightarrow> string" where
  "unmatched_completion_warning key = ''completion without matching submit for ctrl='' @ key_text key"

section \<open>There are fewer keys than a counter can count\<close>

lemma command_key_inj: "inj (\<lambda>k :: command_key. (k_ctrl_id k, k_qid k, k_cid k))"
  by (rule injI) simp

lemma finite_command_keys [simp]: "finite (K :: command_key set)"
  by (rule finite_subset [OF subset_UNIV]) (rule finite_imageD [OF _ command_key_inj], simp)

lemma card_keys: "card (K :: command_key set) \<le> 2 ^ 32"
proof -
  have "card K = card ((\<lambda>k. (k_ctrl_id k, k_qid k, k_cid k)) ` K)"
    by (rule card_image [symmetric]) (rule inj_on_subset [OF command_key_inj], simp)
  also have "\<dots> \<le> card (UNIV :: (u8 \<times> u8 \<times> u16) set)"
    by (rule card_mono) simp_all
  also have "\<dots> = 2 ^ 32"
    by (simp add: card_cartesian_product card_word flip: UNIV_Times_UNIV)
  finally show ?thesis .
qed

definition queue_keys :: "queue_key \<Rightarrow> command_key set \<Rightarrow> command_key set" where
  "queue_keys q K = {k \<in> K. key_queue k = q}"

lemma queue_keys_insert:
  "queue_keys q (insert k K) = (if key_queue k = q then insert k (queue_keys q K) else queue_keys q K)"
  by (auto simp: queue_keys_def)

lemma queue_keys_remove:
  "queue_keys q (K - {k}) = (if key_queue k = q then queue_keys q K - {k} else queue_keys q K)"
  by (auto simp: queue_keys_def)

lemma queue_keys_member: "k \<in> queue_keys q K \<longleftrightarrow> k \<in> K \<and> key_queue k = q"
  by (simp add: queue_keys_def)

text \<open>Counters that follow the number of keys neither wrap nor saturate.\<close>

lemma unat_card_keys: "unat (of_nat (card (K :: command_key set)) :: u64) = card K"
  using card_keys [of K] by (simp add: unat_of_nat)

lemma card_keys_remove:
  assumes "k \<in> K"
  shows "saturating_sub (of_nat (card K) :: u64) 1 = of_nat (card (K - {k :: command_key}))"
proof (rule unsigned_word_eqI)
  show "unat (saturating_sub (of_nat (card K) :: u64) 1) = unat (of_nat (card (K - {k})) :: u64)"
    unfolding unat_saturating_sub unat_card_keys using assms by simp
qed

text \<open>\<open>if let Some(depth) = queue\_depths.get\_mut(&queue)\<close> decrements what is there.\<close>

definition decrement_depth :: "queue_key \<Rightarrow> (queue_key, u64) btree_map \<Rightarrow> (queue_key, u64) btree_map" where
  "decrement_depth queue depths =
     (case bt_get queue depths of
        None \<Rightarrow> depths
      | Some depth \<Rightarrow> bt_put queue (saturating_sub depth 1) depths)"

lemma bt_ok_decrement: "bt_ok m \<Longrightarrow> bt_ok (decrement_depth q m)"
  by (auto simp: decrement_depth_def bt_ok_put split: option.splits)

lemma bt_get_decrement:
  "bt_ok m \<Longrightarrow> bt_get q (decrement_depth q' m) =
     (if q = q' then map_option (\<lambda>d. saturating_sub d 1) (bt_get q m) else bt_get q m)"
  by (auto simp: decrement_depth_def bt_get_put split: option.splits)

lemma bt_get_or_decrement:
  "bt_ok m \<Longrightarrow> bt_get_or 0 q (decrement_depth q' m) =
     (if q = q' then saturating_sub (bt_get_or 0 q m) 1 else bt_get_or 0 q m)"
  by (auto simp: bt_get_or_def bt_get_decrement saturating_sub_def split: option.splits)

section \<open>The contract of an analysis\<close>

text \<open>
  The outstanding commands after a record, and its warnings. A duplicate submit leaves the set
  as it is; so does a completion without a submit.
\<close>

fun outstanding :: "command_key set \<Rightarrow> trace_record \<Rightarrow> command_key set" where
  "outstanding K (Submit s) = insert (command_key_of (s_header s)) K"
| "outstanding K (Complete c) = K - {command_key_of (c_header c)}"

fun track_warning :: "command_key set \<Rightarrow> trace_record \<Rightarrow> string list" where
  "track_warning K (Submit s) =
     (if command_key_of (s_header s) \<in> K then [duplicate_submit_warning (command_key_of (s_header s))] else [])"
| "track_warning K (Complete c) =
     (if command_key_of (c_header c) \<in> K then [] else [unmatched_completion_warning (command_key_of (c_header c))])"

primrec outstanding_after :: "command_key set \<Rightarrow> trace_record list \<Rightarrow> command_key set" where
  "outstanding_after K [] = K"
| "outstanding_after K (r # rs) = outstanding_after (outstanding K r) rs"

primrec track_warnings :: "command_key set \<Rightarrow> trace_record list \<Rightarrow> string list" where
  "track_warnings K [] = []"
| "track_warnings K (r # rs) = track_warning K r @ track_warnings (outstanding K r) rs"

text \<open>The loop \<open>for record in records\<close> of an analysis: state and warnings are threaded.\<close>

fun run_steps :: "('s \<Rightarrow> trace_record \<Rightarrow> ('s \<times> string list) outcome) \<Rightarrow> 's \<Rightarrow> trace_record list \<Rightarrow>
    ('s \<times> string list) outcome" where
  "run_steps step s [] = Ret (s, [])"
| "run_steps step s (r # rs) =
     out_bind (step s r) (\<lambda>(s', ws). out_bind (run_steps step s' rs) (\<lambda>(s'', ws'). Ret (s'', ws @ ws')))"

locale command_tracker =
  fixes step :: "'s \<Rightarrow> trace_record \<Rightarrow> ('s \<times> string list) outcome" and keys :: "'s \<Rightarrow> command_key set"
  assumes keys_step: "step s r = Ret (s', ws) \<Longrightarrow> keys s' = outstanding (keys s) r"
    and warnings_step: "step s r = Ret (s', ws) \<Longrightarrow> ws = track_warning (keys s) r"
begin

lemma run_tracks:
  "run_steps step s rs = Ret (s', ws) \<Longrightarrow>
     keys s' = outstanding_after (keys s) rs \<and> ws = track_warnings (keys s) rs"
proof (induction rs arbitrary: s ws)
  case (Cons r rs)
  then obtain s1 ws1 ws2 where "step s r = Ret (s1, ws1)" "run_steps step s1 rs = Ret (s', ws2)" "ws = ws1 @ ws2"
    by (auto simp: out_bind_Ret)
  then show ?case
    using Cons.IH [of s1 ws2] keys_step [of s r s1 ws1] warnings_step [of s r s1 ws1] by simp
qed simp

lemma run_invariant:
  assumes "\<And>s r s' ws. I s \<Longrightarrow> r \<in> set rs \<Longrightarrow> step s r = Ret (s', ws) \<Longrightarrow> I s'"
  shows "run_steps step s rs = Ret (s', ws) \<Longrightarrow> I s \<Longrightarrow> I s'"
  using assms
proof (induction rs arbitrary: s ws)
  case (Cons r rs)
  from Cons.prems(1) obtain s1 ws1 ws2 where "step s r = Ret (s1, ws1)" "run_steps step s1 rs = Ret (s', ws2)"
    by (auto simp: out_bind_Ret)
  then show ?case using Cons.IH [of s1 ws2] Cons.prems(2,3) by (metis list.set_intros)
qed simp

end

text \<open>A tracker whose steps are total runs on every sequence of records.\<close>

locale total_tracker = command_tracker step keys
  for step :: "'s \<Rightarrow> trace_record \<Rightarrow> ('s \<times> string list) outcome" and keys :: "'s \<Rightarrow> command_key set" +
  assumes no_panic: "step s r \<noteq> Panic"
begin

lemma run_total: "\<exists>s'. run_steps step s rs = Ret (s', track_warnings (keys s) rs)"
proof -
  have "\<exists>s' ws. run_steps step s rs = Ret (s', ws)"
  proof (induction rs arbitrary: s)
    case (Cons r rs)
    obtain s1 ws1 where "step s r = Ret (s1, ws1)"
      using no_panic [of s r] by (cases "step s r") auto
    then show ?case using Cons.IH [of s1] by auto
  qed simp
  then show ?thesis using run_tracks by blast
qed

end

lemma out_bind_assoc: "out_bind (out_bind m f) g = out_bind m (\<lambda>x. out_bind (f x) g)"
  by (cases m) auto

lemma out_bind_unit [simp]: "out_bind m Ret = m"
  by (cases m) auto

lemma run_steps_append:
  "run_steps step s (xs @ ys) =
     out_bind (run_steps step s xs) (\<lambda>(s', ws). out_bind (run_steps step s' ys) (\<lambda>(s'', ws'). Ret (s'', ws @ ws')))"
  by (induction xs arbitrary: s) (simp_all add: out_bind_assoc case_prod_beta')

lemma outstanding_after_append:
  "outstanding_after K (xs @ ys) = outstanding_after (outstanding_after K xs) ys"
  by (induction xs arbitrary: K) auto

lemma finite_outstanding_after: "finite K \<Longrightarrow> finite (outstanding_after K rs)"
proof (induction rs arbitrary: K)
  case (Cons r rs)
  then show ?case by (cases r) auto
qed simp

section \<open>A small trace\<close>

text \<open>Records for evaluating the analyses: a submit with an opcode and a length, a completion.\<close>

definition sample_submit_io :: "u64 \<Rightarrow> u8 \<Rightarrow> u8 \<Rightarrow> u16 \<Rightarrow> u8 \<Rightarrow> u32 \<Rightarrow> trace_record" where
  "sample_submit_io ts ctrl qid cid opcode data_len = Submit
     \<lparr>s_header = \<lparr>h_magic = NVME_TRACE_MAGIC, h_version = NVME_TRACE_VERSION,
        h_record_type = NVME_TRACE_SUBMIT, h_len = 100, h_timestamp_ns = ts, h_seq = 0,
        h_ctrl_id = ctrl, h_qid = qid, h_cid = cid\<rparr>,
      s_sqe = opcode # replicate 63 0, s_data_len = data_len, s_meta_len = 0, s_use_sgl = False,
      s_single_segment = False, s_nr_entries = 0, s_tail = Prp []\<rparr>"

definition sample_completion :: "u64 \<Rightarrow> u8 \<Rightarrow> u8 \<Rightarrow> u16 \<Rightarrow> trace_record" where
  "sample_completion ts ctrl qid cid = Complete
     \<lparr>c_header = \<lparr>h_magic = NVME_TRACE_MAGIC, h_version = NVME_TRACE_VERSION,
        h_record_type = NVME_TRACE_COMPLETE, h_len = 40, h_timestamp_ns = ts, h_seq = 0,
        h_ctrl_id = ctrl, h_qid = qid, h_cid = cid\<rparr>,
      c_result = 0, c_sq_head = 0, c_sq_id = 0, c_status = 0, c_retries = 0\<rparr>"

definition sample_run :: "trace_record list" where
  "sample_run = [sample_submit_io 1000 0 1 10 2 100, sample_submit_io 1050 0 1 11 1 200,
     sample_completion 1100 0 1 10, sample_completion 1250 0 1 11]"

lemmas sample_run_defs = sample_run_def sample_submit_io_def sample_completion_def

end
