(* ===== verification/Rust_F64.thy ===== *)
theory Rust_F64
  imports Rust_Text Complex_Main
begin

text \<open>
  The part of \<open>f64\<close> the program computes with: finite values that are not negative, in the normal
  range. A value is a fraction of naturals whose denominator is a power of two. Every operation
  rounds the exact result to 53 significant bits, ties to even, as IEEE 754 and Rust prescribe;
  \<open>{:.p}\<close> prints the exact value rounded to \<open>p\<close> decimals, ties to even. Overflow, underflow,
  infinities and NaN are not modelled: the program's values lie between \<open>2 ^ -60\<close> and \<open>2 ^ 160\<close>.
\<close>

section \<open>Rounding\<close>

type_synonym f64 = "nat \<times> nat"

definition f64_val :: "f64 \<Rightarrow> real" where
  "f64_val x = real (fst x) / real (snd x)"

text \<open>The integer nearest to \<open>n / d\<close>, the even one of two.\<close>

definition nearest_even :: "nat \<Rightarrow> nat \<Rightarrow> nat" where
  "nearest_even n d =
     (let q = n div d; r = n mod d in
      if 2 * r < d then q else if d < 2 * r then q + 1 else if even q then q else q + 1)"

fun bit_len :: "nat \<Rightarrow> nat" where
  "bit_len n = (if n = 0 then 0 else Suc (bit_len (n div 2)))"

declare bit_len.simps [simp del]

text \<open>\<open>n / d = (n * 2 ^ s) / (d * 2 ^ t)\<close> with a quotient of 53 bits, one of \<open>s\<close> and \<open>t\<close> being 0.\<close>

definition f64_scale :: "nat \<Rightarrow> nat \<Rightarrow> nat \<times> nat" where
  "f64_scale n d =
     (let b = 52 + bit_len d; s = b - bit_len n; t = bit_len n - b
      in if n * 2 ^ s < 2 ^ 52 * (d * 2 ^ t) then (if t = 0 then (s + 1, 0) else (s, t - 1)) else (s, t))"

definition f64_round :: "nat \<Rightarrow> nat \<Rightarrow> f64" where
  "f64_round n d =
     (if n = 0 then (0, 1)
      else let (s, t) = f64_scale n d in (nearest_even (n * 2 ^ s) (d * 2 ^ t) * 2 ^ t, 2 ^ s))"

definition f64_of_nat :: "nat \<Rightarrow> f64" where
  "f64_of_nat n = f64_round n 1"

definition f64_mul :: "f64 \<Rightarrow> f64 \<Rightarrow> f64" where
  "f64_mul x y = f64_round (fst x * fst y) (snd x * snd y)"

definition f64_div :: "f64 \<Rightarrow> f64 \<Rightarrow> f64" where
  "f64_div x y = f64_round (fst x * snd y) (snd x * fst y)"

section \<open>Printing\<close>

definition pad_left :: "nat \<Rightarrow> string \<Rightarrow> string" where
  "pad_left w s = replicate (w - length s) (CHR ''0'') @ s"

definition f64_fixed :: "nat \<Rightarrow> f64 \<Rightarrow> string" where
  "f64_fixed p x =
     (let m = nearest_even (fst x * 10 ^ p) (snd x)
      in show_nat (m div 10 ^ p) @ ''.'' @ pad_left p (show_nat (m mod 10 ^ p)))"

section \<open>Accuracy\<close>

lemma nearest_even_error:
  assumes "0 < d"
  shows "\<bar>real (nearest_even n d) - real n / real d\<bar> \<le> 1 / 2"
proof -
  let ?q = "n div d" and ?r = "n mod d"
  have n: "real n / real d = real ?q + real ?r / real d"
    using assms by (metis add_divide_distrib div_mult_mod_eq nonzero_mult_div_cancel_right
        of_nat_add of_nat_mult of_nat_0_less_iff less_irrefl)
  have r: "0 \<le> real ?r / real d" "real ?r / real d < 1"
    using assms by simp_all
  consider "2 * ?r < d" | "d < 2 * ?r" | "2 * ?r = d" by linarith
  then show ?thesis
  proof cases
    case 1
    then have "real ?r / real d < 1 / 2" using assms by (simp add: field_simps)
    then show ?thesis using 1 n r by (simp add: nearest_even_def Let_def)
  next
    case 2
    then have "1 / 2 < real ?r / real d" using assms by (simp add: field_simps)
    then show ?thesis using 2 n r by (simp add: nearest_even_def Let_def)
  next
    case 3
    then have "real ?r / real d = 1 / 2" using assms by (simp add: field_simps)
    then show ?thesis using n by (simp add: nearest_even_def Let_def)
  qed
qed

lemma bit_len_0 [simp]: "bit_len 0 = 0"
  by (simp add: bit_len.simps)

lemma bit_len_bounds: "0 < n \<Longrightarrow> 2 ^ bit_len n \<le> 2 * n \<and> n < 2 ^ bit_len n"
proof (induction n rule: bit_len.induct)
  case (1 n)
  show ?case
  proof (cases "n div 2 = 0")
    case True
    then have "n = 1" using "1.prems" by auto
    then show ?thesis by (simp add: bit_len.simps [of "Suc 0"])
  next
    case False
    then have "2 ^ bit_len (n div 2) \<le> 2 * (n div 2) \<and> n div 2 < 2 ^ bit_len (n div 2)"
      using 1 by auto
    then show ?thesis using "1.prems" by (subst (1 2) bit_len.simps) auto
  qed
qed

text \<open>The scaled quotient has at least 53 bits, so rounding it to an integer loses little.\<close>

lemma f64_scale_lower:
  assumes "0 < n" and "0 < d" and "f64_scale n d = (s, t)"
  shows "2 ^ 52 * (d * 2 ^ t) \<le> n * 2 ^ s"
proof -
  let ?b = "52 + bit_len d"
  define s0 where "s0 = ?b - bit_len n"
  define t0 where "t0 = bit_len n - ?b"
  have e: "bit_len n + s0 = ?b + t0" by (simp add: s0_def t0_def)
  have "2 ^ 52 * (d * 2 ^ t0) \<le> 2 ^ 52 * (2 ^ bit_len d * 2 ^ t0)"
    using bit_len_bounds [OF assms(2)] by simp
  also have "\<dots> = 2 ^ (?b + t0)" by (simp add: power_add)
  also have "\<dots> = 2 ^ bit_len n * 2 ^ s0" by (simp only: power_add flip: e)
  also have "\<dots> \<le> 2 * (n * 2 ^ s0)"
    using bit_len_bounds [OF assms(1)] by (metis mult.assoc mult_le_mono1)
  finally have half: "2 ^ 52 * (d * 2 ^ t0) \<le> 2 * (n * 2 ^ s0)" .
  show ?thesis
  proof (cases "n * 2 ^ s0 < 2 ^ 52 * (d * 2 ^ t0)")
    case False
    then show ?thesis using assms(3) by (simp add: f64_scale_def Let_def s0_def t0_def)
  next
    case True
    show ?thesis
    proof (cases "t0 = 0")
      case zero: True
      then have "s = s0 + 1" "t = 0"
        using True assms(3) by (simp_all add: f64_scale_def Let_def s0_def t0_def)
      then show ?thesis using half zero by simp
    next
      case False
      then obtain u where u: "t0 = Suc u" by (cases t0) auto
      then have "s = s0" "t = u"
        using True assms(3) by (auto simp: f64_scale_def Let_def s0_def t0_def)
      then show ?thesis using half u by simp
    qed
  qed
qed

text \<open>Every rounded result is within one part in \<open>2 ^ 53\<close> of the exact one.\<close>

lemma f64_round_accuracy:
  assumes d: "0 < d"
  shows "\<bar>f64_val (f64_round n d) - real n / real d\<bar> \<le> (real n / real d) / 2 ^ 53"
proof (cases "n = 0")
  case True
  then show ?thesis by (simp add: f64_round_def f64_val_def)
next
  case False
  obtain s t where st: "f64_scale n d = (s, t)" by (cases "f64_scale n d")
  let ?N = "n * 2 ^ s" and ?D = "d * 2 ^ t"
  have low: "2 ^ 52 * ?D \<le> ?N" using f64_scale_lower [OF _ d st] False by simp
  have D: "0 < ?D" using d by simp
  let ?x = "real ?N / real ?D" and ?u = "2 ^ t / 2 ^ s :: real"
  have "2 ^ 52 * real ?D \<le> real ?N" using low by (metis of_nat_le_iff of_nat_mult of_nat_numeral of_nat_power)
  then have x52: "2 ^ 52 \<le> ?x" using D by (simp add: le_divide_eq)
  have "1 / 2 \<le> y / 2 ^ 53" if "2 ^ 52 \<le> y" for y :: real
    using that by simp
  note half = this [OF x52]
  have err: "\<bar>real (nearest_even ?N ?D) - ?x\<bar> \<le> ?x / 2 ^ 53"
    by (rule order.trans [OF nearest_even_error [OF D] half])
  have val: "f64_val (f64_round n d) = real (nearest_even ?N ?D) * ?u"
    using False st by (simp add: f64_round_def f64_val_def)
  have u: "0 \<le> ?u" by simp
  have x: "real n / real d = ?x * ?u" using d by (simp add: field_simps)
  have scaled: "\<bar>a * c - y * c\<bar> \<le> y * c / 2 ^ 53" if "\<bar>a - y\<bar> \<le> y / 2 ^ 53" "0 \<le> c" for a y c :: real
    using mult_right_mono [OF that] that(2) by (simp add: abs_mult flip: left_diff_distrib)
  show ?thesis
    unfolding val x by (rule scaled [OF err u])
qed

lemma f64_round_pos [simp]: "0 < snd (f64_round n d)"
  by (auto simp: f64_round_def split: prod.splits)

lemma f64_val_nonneg [simp]: "0 \<le> f64_val x"
  by (simp add: f64_val_def)

text \<open>The unit roundoff, and the operations within it.\<close>

definition f64_unit :: real where
  "f64_unit = 1 / 2 ^ 53"

definition rounds_to :: "real \<Rightarrow> real \<Rightarrow> bool" where
  "rounds_to x y \<longleftrightarrow> (1 - f64_unit) * y \<le> x \<and> x \<le> (1 + f64_unit) * y"

lemma f64_round_within: "0 < d \<Longrightarrow> rounds_to (f64_val (f64_round n d)) (real n / real d)"
  using f64_round_accuracy [of d n] by (simp add: rounds_to_def f64_unit_def abs_le_iff algebra_simps)

lemma f64_of_nat_within: "rounds_to (f64_val (f64_of_nat n)) (real n)"
  using f64_round_within [of 1 n] by (simp add: f64_of_nat_def)

lemma f64_mul_within:
  "0 < snd x \<Longrightarrow> 0 < snd y \<Longrightarrow> rounds_to (f64_val (f64_mul x y)) (f64_val x * f64_val y)"
  using f64_round_within [of "snd x * snd y" "fst x * fst y"] by (simp add: f64_mul_def f64_val_def)

lemma f64_div_within:
  "0 < snd x \<Longrightarrow> 0 < snd y \<Longrightarrow> 0 < f64_val y \<Longrightarrow> rounds_to (f64_val (f64_div x y)) (f64_val x / f64_val y)"
  using f64_round_within [of "snd x * fst y" "fst x * snd y"]
  by (cases "fst y = 0") (simp_all add: f64_div_def f64_val_def)

lemma f64_snd_pos [simp]: "0 < snd (f64_of_nat n)" "0 < snd (f64_mul x y)" "0 < snd (f64_div x y)"
  by (simp_all add: f64_of_nat_def f64_mul_def f64_div_def)

lemma f64_unit_bounds: "0 < f64_unit" "f64_unit < 1" "0 < 1 - f64_unit"
  by (simp_all add: f64_unit_def)

lemma within_nonneg: "rounds_to x y \<Longrightarrow> 0 \<le> y \<Longrightarrow> 0 \<le> x"
  using f64_unit_bounds(3) unfolding rounds_to_def
  by (metis less_eq_real_def mult_nonneg_nonneg order.trans)

text \<open>\<open>n as f64 * c / d as f64\<close> for a constant \<open>c\<close> that is a double: four roundings.\<close>

lemma f64_scaled_ratio:
  assumes "0 < d" and c: "f64_val (f64_of_nat c) = real c"
  shows "\<bar>f64_val (f64_div (f64_mul (f64_of_nat n) (f64_of_nat c)) (f64_of_nat d)) - real n * real c / real d\<bar>
    \<le> (real n * real c / real d) / 2 ^ 50"
proof -
  let ?u = "f64_unit"
  let ?n = "f64_of_nat n" and ?d = "f64_of_nat d"
  let ?m = "f64_mul ?n (f64_of_nat c)"
  let ?r = "f64_val (f64_div ?m ?d)" and ?x = "real n * real c / real d"
  note u = f64_unit_bounds
  have d: "0 < real d" using assms by simp
  have fn: "(1 - ?u) * real n \<le> f64_val ?n" "f64_val ?n \<le> (1 + ?u) * real n"
    using f64_of_nat_within [of n] unfolding rounds_to_def by blast+
  have fd: "(1 - ?u) * real d \<le> f64_val ?d" "f64_val ?d \<le> (1 + ?u) * real d"
    using f64_of_nat_within [of d] unfolding rounds_to_def by blast+
  have dpos: "0 < f64_val ?d"
    using fd(1) mult_pos_pos [OF u(3) d] by linarith
  have fm: "(1 - ?u) * (f64_val ?n * real c) \<le> f64_val ?m" "f64_val ?m \<le> (1 + ?u) * (f64_val ?n * real c)"
    using f64_mul_within [of ?n "f64_of_nat c"] by (auto simp: rounds_to_def c)
  have fr: "(1 - ?u) * (f64_val ?m / f64_val ?d) \<le> ?r" "?r \<le> (1 + ?u) * (f64_val ?m / f64_val ?d)"
    using f64_div_within [OF _ _ dpos, of ?m] by (auto simp: rounds_to_def)
  have "f64_val ?m \<le> (1 + ?u) * ((1 + ?u) * real n * real c)"
    by (rule order.trans [OF fm(2)]) (use mult_right_mono [OF fn(2), of "real c"] u in simp)
  then have "f64_val ?m / f64_val ?d \<le> (1 + ?u) * ((1 + ?u) * real n * real c) / ((1 - ?u) * real d)"
    using fd(1) d u by (intro frac_le) auto
  then have up: "?r \<le> (1 + ?u) ^ 3 / (1 - ?u) * ?x"
    using fr(2) u mult_left_mono [of _ _ "1 + ?u"] by (fastforce simp: power3_eq_cube ac_simps)
  have "(1 - ?u) * ((1 - ?u) * real n * real c) \<le> f64_val ?m"
    by (rule order.trans [OF _ fm(1)]) (use mult_right_mono [OF fn(1), of "real c"] u in simp)
  then have "(1 - ?u) * ((1 - ?u) * real n * real c) / ((1 + ?u) * real d) \<le> f64_val ?m / f64_val ?d"
    using fd(2) dpos u by (intro frac_le) auto
  then have low: "(1 - ?u) ^ 3 / (1 + ?u) * ?x \<le> ?r"
    using fr(1) u mult_left_mono [of _ _ "1 - ?u"] by (fastforce simp: power3_eq_cube ac_simps)
  have p: "0 \<le> ?x" by simp
  have "(1 + ?u) ^ 3 / (1 - ?u) \<le> 1 + 1 / 2 ^ 50" and "1 - 1 / 2 ^ 50 \<le> (1 - ?u) ^ 3 / (1 + ?u)"
    by (simp_all add: f64_unit_def power3_eq_cube)
  from order.trans [OF up mult_right_mono [OF this(1) p]] order.trans [OF mult_right_mono [OF this(2) p] low]
  have "?r \<le> ?x + ?x / 2 ^ 50 \<and> ?x - ?x / 2 ^ 50 \<le> ?r"
    by (simp only: distrib_right left_diff_distrib mult_1 times_divide_eq_left) 
  then show ?thesis by (simp only: abs_le_iff) linarith
qed

end
