(* ===== verification/Throughput.thy ===== *)
theory Throughput
  imports Command_Tracker Rust_Io Rust_F64
begin

text \<open>
  \<open>analyze\_throughput\_records\<close> of \<open>analyze.rs\<close>: the bytes of completed reads and writes, per
  time bucket of the completion, and the rates printed for each bucket.
\<close>

section \<open>Commands and buckets\<close>

datatype data_direction = DirRead | DirWrite | DirOther

definition direction_from_opcode :: "u8 \<Rightarrow> data_direction" where
  "direction_from_opcode opcode =
     (if opcode = 0x01 then DirWrite else if opcode = 0x02 then DirRead else DirOther)"

record in_flight_command =
  i_data_len :: u32
  i_direction :: data_direction

record throughput_bucket =
  b_read_bytes :: u128
  b_write_bytes :: u128

definition bucket_default :: throughput_bucket where
  "bucket_default = \<lparr>b_read_bytes = 0, b_write_bytes = 0\<rparr>"

definition bucket_add :: "in_flight_command \<Rightarrow> throughput_bucket \<Rightarrow> throughput_bucket" where
  "bucket_add command b =
     (case i_direction command of
        DirRead \<Rightarrow> b\<lparr>b_read_bytes := b_read_bytes b + ucast (i_data_len command)\<rparr>
      | DirWrite \<Rightarrow> b\<lparr>b_write_bytes := b_write_bytes b + ucast (i_data_len command)\<rparr>
      | DirOther \<Rightarrow> b)"

section \<open>The loop over the records\<close>

record throughput_state =
  t_first_ts :: "u64 option"
  t_last_offset :: "u64 option"
  t_in_flight :: "command_key \<rightharpoonup> in_flight_command"
  t_buckets :: "(u64, throughput_bucket) btree_map"

definition throughput_init :: throughput_state where
  "throughput_init = \<lparr>t_first_ts = None, t_last_offset = None, t_in_flight = Map.empty, t_buckets = []\<rparr>"

text \<open>\<open>sqe\<close> is an array of 64 bytes, so \<open>sqe[0]\<close> exists. A division by a zero scale panics.\<close>

definition throughput_step ::
  "u64 \<Rightarrow> throughput_state \<Rightarrow> trace_record \<Rightarrow> (throughput_state \<times> string list) outcome" where
  "throughput_step scale_ns st record =
     (let header = record_header record;
          base_ts = (case t_first_ts st of None \<Rightarrow> h_timestamp_ns header | Some t \<Rightarrow> t);
          offset = saturating_sub (h_timestamp_ns header) base_ts;
          st1 = st\<lparr>t_first_ts := Some base_ts,
                   t_last_offset := Some (case t_last_offset st of None \<Rightarrow> offset | Some prev \<Rightarrow> max prev offset)\<rparr>
      in case record of
        Submit submit \<Rightarrow>
          let key = command_key_of (s_header submit);
              command = \<lparr>i_data_len = s_data_len submit,
                         i_direction = direction_from_opcode (s_sqe submit ! 0)\<rparr>
          in Ret (st1\<lparr>t_in_flight := (t_in_flight st1)(key \<mapsto> command)\<rparr>,
               if t_in_flight st1 key \<noteq> None then [duplicate_submit_warning key] else [])
      | Complete completion \<Rightarrow>
          let key = command_key_of (c_header completion)
          in case t_in_flight st1 key of
            None \<Rightarrow> Ret (st1, [unmatched_completion_warning key])
          | Some command \<Rightarrow>
              if scale_ns = 0 then Panic
              else Ret (st1\<lparr>t_in_flight := (t_in_flight st1)(key := None),
                            t_buckets := bt_entry ((offset div scale_ns) * scale_ns) bucket_default
                              (bucket_add command) (t_buckets st1)\<rparr>, []))"

section \<open>The report\<close>

text \<open>\<open>clamp(1, scale\_ns)\<close> panics when \<open>scale\_ns\<close> is 0.\<close>

definition throughput_bucket_duration_ns :: "u64 \<Rightarrow> u64 \<Rightarrow> u64 \<Rightarrow> u64 outcome" where
  "throughput_bucket_duration_ns bucket scale_ns last_offset =
     (if scale_ns < 1 then Panic
      else Ret (min (max (saturating_sub last_offset bucket) 1) scale_ns))"

definition throughput_rate :: "u128 \<Rightarrow> u64 \<Rightarrow> f64" where
  "throughput_rate bytes duration_ns =
     f64_div (f64_mul (f64_of_nat (unat bytes)) (f64_of_nat 1000000000)) (f64_of_nat (unat duration_ns))"

definition bytes_per_second_to_mb :: "f64 \<Rightarrow> f64" where
  "bytes_per_second_to_mb r = f64_div r (f64_of_nat 1000000)"

definition throughput_header :: string where
  "throughput_header =
     join_with tab [''time_ns'', ''read_bytes_per_second'', ''write_bytes_per_second'',
       ''read_mb_per_second'', ''write_mb_per_second'']"

definition throughput_line :: "u64 \<Rightarrow> throughput_bucket \<Rightarrow> u64 \<Rightarrow> string" where
  "throughput_line bucket bytes duration_ns =
     (let read_rate = throughput_rate (b_read_bytes bytes) duration_ns;
          write_rate = throughput_rate (b_write_bytes bytes) duration_ns
      in join_with tab [show_word bucket, f64_fixed 6 read_rate, f64_fixed 6 write_rate,
           f64_fixed 2 (bytes_per_second_to_mb read_rate), f64_fixed 2 (bytes_per_second_to_mb write_rate)])"

fun write_buckets ::
  "'w writer \<Rightarrow> u64 \<Rightarrow> u64 \<Rightarrow> (u64 \<times> throughput_bucket) list \<Rightarrow> 'w \<Rightarrow> ((io_error + unit) \<times> 'w) outcome" where
  "write_buckets write_all scale_ns last_offset [] out = Ret (Inr (), out)"
| "write_buckets write_all scale_ns last_offset ((bucket, bytes) # rest) out =
     out_bind (throughput_bucket_duration_ns bucket scale_ns last_offset) (\<lambda>duration_ns.
       case write_line write_all (throughput_line bucket bytes duration_ns) out of
         (Inl e, out') \<Rightarrow> Ret (Inl e, out')
       | (Inr _, out') \<Rightarrow> write_buckets write_all scale_ns last_offset rest out')"

text \<open>The result of the call, the output and the warnings.\<close>

definition analyze_throughput_records ::
  "'w writer \<Rightarrow> trace_record list \<Rightarrow> u64 \<Rightarrow> 'w \<Rightarrow> ((io_error + unit) \<times> 'w \<times> string list) outcome" where
  "analyze_throughput_records write_all records scale_ns out =
     out_bind (run_steps (throughput_step scale_ns) throughput_init records) (\<lambda>(st, warnings).
       let last_offset = (case t_last_offset st of None \<Rightarrow> 0 | Some prev \<Rightarrow> prev)
       in case write_line write_all throughput_header out of
         (Inl e, out') \<Rightarrow> Ret (Inl e, out', warnings)
       | (Inr _, out') \<Rightarrow>
           out_bind (write_buckets write_all scale_ns last_offset (t_buckets st) out')
             (\<lambda>(res, out''). Ret (res, out'', warnings)))"

section \<open>The contract of a tracker\<close>

interpretation throughput: command_tracker "throughput_step scale_ns" "\<lambda>st. dom (t_in_flight st)" for scale_ns
proof
  show "dom (t_in_flight s') = outstanding (dom (t_in_flight s)) r"
    and "ws = track_warning (dom (t_in_flight s)) r"
    if "throughput_step scale_ns s r = Ret (s', ws)" for s r s' ws
    using that by (cases r; auto simp: throughput_step_def Let_def split: option.splits if_splits)+
qed

lemma throughput_total:
  assumes "scale_ns \<noteq> 0"
  shows "total_tracker (throughput_step scale_ns) (\<lambda>st. dom (t_in_flight st))"
  using assms
  by unfold_locales (auto simp: throughput_step_def Let_def split: option.splits trace_record.splits)

section \<open>What the buckets hold\<close>

definition command_of :: "submit_record \<Rightarrow> in_flight_command" where
  "command_of s = \<lparr>i_data_len = s_data_len s, i_direction = direction_from_opcode (s_sqe s ! 0)\<rparr>"

text \<open>
  The completions that have a submit, each with its time since the first record and the command
  of the latest submit under its key.
\<close>

fun matched :: "u64 \<Rightarrow> (command_key \<rightharpoonup> in_flight_command) \<Rightarrow> trace_record list \<Rightarrow> (u64 \<times> in_flight_command) list" where
  "matched base m [] = []"
| "matched base m (Submit s # rs) = matched base (m(command_key_of (s_header s) \<mapsto> command_of s)) rs"
| "matched base m (Complete c # rs) =
     (let key = command_key_of (c_header c) in
      case m key of
        None \<Rightarrow> matched base m rs
      | Some command \<Rightarrow>
          (saturating_sub (h_timestamp_ns (c_header c)) base, command) # matched base (m(key := None)) rs)"

definition bucket_key :: "u64 \<Rightarrow> u64 \<Rightarrow> u64" where
  "bucket_key scale_ns offset = (offset div scale_ns) * scale_ns"

definition fill_buckets ::
  "u64 \<Rightarrow> (u64 \<times> in_flight_command) list \<Rightarrow> (u64, throughput_bucket) btree_map \<Rightarrow> (u64, throughput_bucket) btree_map" where
  "fill_buckets scale_ns cs bs =
     fold (\<lambda>(offset, command). bt_entry (bucket_key scale_ns offset) bucket_default (bucket_add command)) cs bs"

lemma run_buckets:
  "scale_ns \<noteq> 0 \<Longrightarrow> t_first_ts st = Some base \<Longrightarrow>
     run_steps (throughput_step scale_ns) st rs = Ret (st', ws) \<Longrightarrow>
     t_buckets st' = fill_buckets scale_ns (matched base (t_in_flight st) rs) (t_buckets st)"
proof (induction rs arbitrary: st ws)
  case Nil
  then show ?case by (simp add: fill_buckets_def)
next
  case (Cons r rs)
  then obtain st1 ws1 ws2 where st1: "throughput_step scale_ns st r = Ret (st1, ws1)"
    and run: "run_steps (throughput_step scale_ns) st1 rs = Ret (st', ws2)"
    by (auto simp: out_bind_Ret)
  have first: "t_first_ts st1 = Some base"
    using st1 Cons.prems by (cases r) (auto simp: throughput_step_def Let_def split: option.splits if_splits)
  note IH = Cons.IH [OF Cons.prems(1) first run]
  show ?case
  proof (cases r)
    case (Submit s)
    then have st1_eq: "t_in_flight st1 = (t_in_flight st)(command_key_of (s_header s) \<mapsto> command_of s)"
      "t_buckets st1 = t_buckets st"
      using st1 by (auto simp: throughput_step_def Let_def command_of_def)
    show ?thesis using IH unfolding st1_eq Submit matched.simps .
  next
    case (Complete c)
    then show ?thesis
      using st1 IH Cons.prems
      by (auto simp: throughput_step_def Let_def fill_buckets_def bucket_key_def
          split: option.splits if_splits)
  qed
qed

lemma t_first_step:
  "throughput_step scale_ns st r = Ret (st', ws) \<Longrightarrow>
     t_first_ts st' = Some (case t_first_ts st of None \<Rightarrow> h_timestamp_ns (record_header r) | Some t \<Rightarrow> t)"
  by (cases r) (auto simp: throughput_step_def Let_def split: option.splits if_splits)

text \<open>The bytes moved in a direction by the completions of one bucket.\<close>

definition moved :: "data_direction \<Rightarrow> u64 \<Rightarrow> u64 \<Rightarrow> (u64 \<times> in_flight_command) list \<Rightarrow> nat" where
  "moved dir scale_ns b cs =
     (\<Sum>(offset, command)\<leftarrow>cs. if bucket_key scale_ns offset = b \<and> i_direction command = dir
                          then unat (i_data_len command) else 0)"

definition bucket_of :: "u64 \<Rightarrow> (u64 \<times> in_flight_command) list \<Rightarrow> u64 \<Rightarrow> throughput_bucket" where
  "bucket_of scale_ns cs b =
     \<lparr>b_read_bytes = of_nat (moved DirRead scale_ns b cs),
      b_write_bytes = of_nat (moved DirWrite scale_ns b cs)\<rparr>"

lemma fill_buckets_Cons [simp]:
  "fill_buckets scale_ns ((o1, c) # cs) bs =
     fill_buckets scale_ns cs (bt_entry (bucket_key scale_ns o1) bucket_default (bucket_add c) bs)"
  by (simp add: fill_buckets_def)

lemma bt_ok_fill: "bt_ok bs \<Longrightarrow> bt_ok (fill_buckets scale_ns cs bs)"
proof (induction cs arbitrary: bs)
  case (Cons oc cs)
  then show ?case by (cases oc) simp
qed (simp add: fill_buckets_def)

lemma of_nat_ucast [simp]: "(of_nat (unat (x :: u32)) :: u128) = ucast x"
  by simp

lemma bucket_add_moved:
  "bucket_add c b = \<lparr>b_read_bytes = b_read_bytes b + (if i_direction c = DirRead then of_nat (unat (i_data_len c)) else 0),
     b_write_bytes = b_write_bytes b + (if i_direction c = DirWrite then of_nat (unat (i_data_len c)) else 0)\<rparr>"
  by (cases "i_direction c") (simp_all add: bucket_add_def)

lemma fill_buckets_get:
  "bt_ok bs \<Longrightarrow> bt_get k (fill_buckets scale_ns cs bs) =
     (if k \<in> (\<lambda>oc. bucket_key scale_ns (fst oc)) ` set cs \<or> bt_get k bs \<noteq> None
      then Some \<lparr>b_read_bytes = b_read_bytes (bt_get_or bucket_default k bs) + b_read_bytes (bucket_of scale_ns cs k),
                b_write_bytes = b_write_bytes (bt_get_or bucket_default k bs) + b_write_bytes (bucket_of scale_ns cs k)\<rparr>
      else None)"
proof (induction cs arbitrary: bs)
  case Nil
  then show ?case
    by (cases "bt_get k bs") (simp_all add: fill_buckets_def bucket_of_def moved_def bt_get_or_def)
next
  case (Cons oc cs)
  obtain off c where oc: "oc = (off, c)" by (cases oc)
  let ?k = "bucket_key scale_ns off"
  let ?bs = "bt_entry ?k bucket_default (bucket_add c) bs"
  note IH = Cons.IH [of ?bs, OF bt_ok_entry [OF Cons.prems]]
  show ?case
  proof (cases "k = ?k")
    case True
    then show ?thesis
      using IH Cons.prems
      by (simp add: oc bt_get_entry bucket_add_moved bucket_of_def moved_def)
  next
    case False
    then show ?thesis
      using IH Cons.prems by (simp add: oc bt_get_entry bucket_of_def moved_def)
  qed
qed

text \<open>The bindings of the final map, in order.\<close>

lemma fill_buckets_items:
  "fill_buckets scale_ns cs [] =
     map (\<lambda>b. (b, bucket_of scale_ns cs b)) (sorted_list_of_set ((\<lambda>oc. bucket_key scale_ns (fst oc)) ` set cs))"
    (is "?m = map ?f (sorted_list_of_set ?K)")
proof (rule bt.items_unique)
  show "bt_ok ?m" by (simp add: bt_ok_fill)
  have keys: "map fst (map ?f xs) = xs" for xs by (induction xs) auto
  show "bt_ok (map ?f (sorted_list_of_set ?K))"
    unfolding bt_ok_def keys by simp
  have of_keys: "map_of (map (\<lambda>b. (b, g b)) xs) k = (if k \<in> set xs then Some (g k) else None)"
    for g :: "u64 \<Rightarrow> throughput_bucket" and xs k
    by (induction xs) auto
  fix k
  show "bt_get k ?m = bt_get k (map ?f (sorted_list_of_set ?K))"
    using fill_buckets_get [of "[]" k scale_ns cs]
    by (simp add: bt_get_def of_keys bt_get_or_def bucket_default_def bucket_of_def)
qed

section \<open>The time of the last record\<close>

definition matched_completions :: "trace_record list \<Rightarrow> (u64 \<times> in_flight_command) list" where
  "matched_completions rs = matched (base_of rs) Map.empty rs"

lemma run_last_offset:
  "t_first_ts st = Some base \<Longrightarrow> t_last_offset st = Some l \<Longrightarrow>
     run_steps (throughput_step scale_ns) st rs = Ret (st', ws) \<Longrightarrow>
     t_last_offset st' = Some (fold max (map (record_offset base) rs) l)"
proof (induction rs arbitrary: st ws l)
  case (Cons r rs)
  then obtain st1 ws1 ws2 where st1: "throughput_step scale_ns st r = Ret (st1, ws1)"
    and run: "run_steps (throughput_step scale_ns) st1 rs = Ret (st', ws2)"
    by (auto simp: out_bind_Ret)
  have "t_first_ts st1 = Some base"
    using t_first_step [OF st1] Cons.prems by simp
  moreover have "t_last_offset st1 = Some (max (record_offset base r) l)"
    using st1 Cons.prems
    by (cases r) (auto simp: throughput_step_def Let_def record_offset_def max.commute split: option.splits if_splits)
  ultimately show ?case using Cons.IH [OF _ _ run] by simp
qed simp

lemma run_throughput:
  assumes scale: "scale_ns \<noteq> 0"
  shows "\<exists>st. run_steps (throughput_step scale_ns) throughput_init rs = Ret (st, track_warnings {} rs)
    \<and> t_buckets st = fill_buckets scale_ns (matched_completions rs) []
    \<and> (case t_last_offset st of None \<Rightarrow> 0 | Some l \<Rightarrow> l) = last_offset_of rs"
proof -
  obtain st where run: "run_steps (throughput_step scale_ns) throughput_init rs = Ret (st, track_warnings {} rs)"
    using total_tracker.run_total [OF throughput_total [OF scale], of throughput_init rs]
    by (auto simp: throughput_init_def)
  have "t_buckets st = fill_buckets scale_ns (matched_completions rs) []
    \<and> (case t_last_offset st of None \<Rightarrow> 0 | Some l \<Rightarrow> l) = last_offset_of rs"
  proof (cases rs)
    case Nil
    then show ?thesis
      using run by (auto simp: throughput_init_def fill_buckets_def matched_completions_def last_offset_of_def)
  next
    case (Cons r rs')
    let ?base = "h_timestamp_ns (record_header r)"
    let ?init = "throughput_init\<lparr>t_first_ts := Some ?base, t_last_offset := Some 0\<rparr>"
    have "throughput_step scale_ns throughput_init r = throughput_step scale_ns ?init r"
      by (simp add: throughput_step_def throughput_init_def Let_def)
    then have run': "run_steps (throughput_step scale_ns) ?init rs = Ret (st, track_warnings {} rs)"
      using run Cons by simp
    show ?thesis
      using run_buckets [OF scale _ run', of ?base] run_last_offset [OF _ _ run', of ?base 0] Cons
      by (simp add: matched_completions_def last_offset_of_def base_of_def) (simp add: throughput_init_def)
  qed
  then show ?thesis using run by blast
qed

section \<open>The report on a byte vector\<close>

definition bucket_duration :: "u64 \<Rightarrow> u64 \<Rightarrow> u64 \<Rightarrow> u64" where
  "bucket_duration scale_ns last_offset b = min (max (saturating_sub last_offset b) 1) scale_ns"

lemma write_buckets_vec:
  assumes "scale_ns \<noteq> 0"
  shows "write_buckets vec_write scale_ns last_offset bs out = Ret (Inr (), out @ lines_bytes
    (map (\<lambda>(b, bytes). throughput_line b bytes (bucket_duration scale_ns last_offset b)) bs))"
  using assms
  by (induction bs arbitrary: out)
    (auto simp: throughput_bucket_duration_ns_def bucket_duration_def word_less_1 simp flip: One_nat_def)

definition report_buckets :: "u64 \<Rightarrow> trace_record list \<Rightarrow> u64 list" where
  "report_buckets scale_ns rs =
     sorted_list_of_set ((\<lambda>oc. bucket_key scale_ns (fst oc)) ` set (matched_completions rs))"

text \<open>Which buckets there are, and that they share out the bytes without loss.\<close>

lemma bucket_key_mult: "unat (bucket_key scale_ns offset) = unat offset div unat scale_ns * unat scale_ns"
proof -
  have "unat offset div unat scale_ns * unat scale_ns < 2 ^ LENGTH(64)"
    using div_times_less_eq_dividend [of "unat offset" "unat scale_ns"] unsigned_less [of offset]
    by (rule le_less_trans)
  then show ?thesis
    by (simp add: bucket_key_def unat_mult_lem [THEN iffD1] unat_div)
qed

lemma length_matched: "length (matched base m rs) \<le> length rs"
proof (induction rs arbitrary: m)
  case (Cons r rs)
  show ?case
  proof (cases r)
    case (Submit s)
    then show ?thesis using Cons.IH [of "m(command_key_of (s_header s) \<mapsto> command_of s)"]
      by (simp del: fun_upd_apply)
  next
    case (Complete c)
    then show ?thesis
      using Cons.IH [of m] Cons.IH [of "m(command_key_of (c_header c) := None)"]
      by (simp add: Let_def del: fun_upd_apply split: option.splits)
  qed
qed simp

lemma length_matched_completions: "length (matched_completions rs) \<le> length rs"
  by (simp add: matched_completions_def length_matched)

lemma moved_bound: "moved dir scale_ns b cs \<le> length cs * 2 ^ 32"
proof (induction cs)
  case (Cons oc cs)
  have "unat (i_data_len (snd oc)) < 2 ^ LENGTH(32)" by (rule unsigned_less)
  then show ?case using Cons by (auto simp: moved_def split_beta)
qed (simp add: moved_def)

lemma moved_total:
  assumes "\<And>oc. oc \<in> set cs \<Longrightarrow> bucket_key scale_ns (fst oc) \<in> set ks" and "distinct ks"
  shows "(\<Sum>b\<leftarrow>ks. moved dir scale_ns b cs)
    = (\<Sum>(offset, command)\<leftarrow>cs. if i_direction command = dir then unat (i_data_len command) else 0)"
  using assms(1)
proof (induction cs)
  case Nil
  then show ?case by (simp add: moved_def)
next
  case (Cons oc cs)
  obtain off c where oc: "oc = (off, c)" by (cases oc)
  let ?k = "bucket_key scale_ns off"
  have "(\<Sum>b\<leftarrow>ks. moved dir scale_ns b (oc # cs))
      = (\<Sum>b\<leftarrow>ks. (if b = ?k then (if i_direction c = dir then unat (i_data_len c) else 0) else 0)
          + moved dir scale_ns b cs)"
    by (intro arg_cong [where f = sum_list] map_cong) (auto simp: moved_def oc)
  also have "\<dots> = (if i_direction c = dir then unat (i_data_len c) else 0) + (\<Sum>b\<leftarrow>ks. moved dir scale_ns b cs)"
    using Cons.prems [of oc] assms(2)
    by (simp add: sum_list_addf oc sum_list_distinct_conv_sum_set)
  finally show ?case using Cons by (simp add: oc)
qed

section \<open>The accuracy of a rate\<close>

definition bytes_per_second :: "u128 \<Rightarrow> u64 \<Rightarrow> real" where
  "bytes_per_second bytes duration_ns = real (unat bytes) * 10 ^ 9 / real (unat duration_ns)"

lemma billion: "f64_val (f64_of_nat 1000000000) = 10 ^ 9"
  by (simp add: f64_of_nat_def f64_round_def f64_scale_def bit_len.simps nearest_even_def Let_def f64_val_def)

section \<open>Properties\<close>

text \<open>
  C11. The throughput report, for every sequence of records and every scale but 0: after the
  header, one line per bucket that has a completion with a submit, in increasing order, with the
  read and write bytes of the commands completed in it, over the bucket's duration; and the
  warnings of a command tracker.
\<close>

theorem throughput_report:
  assumes "scale_ns \<noteq> 0"
  shows "analyze_throughput_records vec_write records scale_ns out = Ret (Inr (),
    out @ lines_bytes (throughput_header #
      map (\<lambda>b. throughput_line b (bucket_of scale_ns (matched_completions records) b)
               (bucket_duration scale_ns (last_offset_of records) b))
        (report_buckets scale_ns records)),
    track_warnings {} records)"
proof -
  obtain st where "run_steps (throughput_step scale_ns) throughput_init records = Ret (st, track_warnings {} records)"
    and "t_buckets st = fill_buckets scale_ns (matched_completions records) []"
    and "(case t_last_offset st of None \<Rightarrow> 0 | Some l \<Rightarrow> l) = last_offset_of records"
    using run_throughput [OF assms] by blast
  then show ?thesis
    using assms
    by (simp add: analyze_throughput_records_def fill_buckets_items write_buckets_vec comp_def
        report_buckets_def)
qed

lemma throughput_report_witness:
  "analyze_throughput_records vec_write sample_run 100 [] = Ret (Inr (),
     lines_bytes [throughput_header,
       throughput_line 100 \<lparr>b_read_bytes = 100, b_write_bytes = 0\<rparr> 100,
       throughput_line 200 \<lparr>b_read_bytes = 0, b_write_bytes = 200\<rparr> 50], [])"
proof -
  have m: "matched_completions sample_run = [(100, \<lparr>i_data_len = 100, i_direction = DirRead\<rparr>),
      (250, \<lparr>i_data_len = 200, i_direction = DirWrite\<rparr>)]"
    by (simp add: matched_completions_def sample_run_def base_of_def sample_submit_io_def
        sample_completion_def command_key_of_def command_of_def direction_from_opcode_def saturating_sub_def)
  have "last_offset_of sample_run = 250"
    by (simp add: last_offset_of_def sample_run_def base_of_def sample_submit_io_def
        sample_completion_def record_offset_def saturating_sub_def)
  moreover have "report_buckets 100 sample_run = [100, 200]"
    by (simp add: report_buckets_def m bucket_key_def insort_insert_key_def)
  moreover have "track_warnings {} sample_run = []"
    by (simp add: sample_run_def sample_submit_io_def sample_completion_def command_key_of_def)
  ultimately show ?thesis
    using throughput_report [of 100 sample_run "[]"] m
    by (simp add: bucket_of_def moved_def bucket_key_def bucket_duration_def saturating_sub_def)
qed

text \<open>
  C19. No byte is lost or counted twice: over the buckets of the final map, the read bytes add up
  to the lengths of all completed reads and the write bytes to those of all completed writes, and
  every bucket starts at a multiple of the scale.
\<close>

theorem throughput_conserves_bytes:
  assumes "scale_ns \<noteq> 0" and "length records < 2 ^ 96"
    and "run_steps (throughput_step scale_ns) throughput_init records = Ret (st, ws)"
  shows "(\<Sum>(b, bytes)\<leftarrow>t_buckets st. unat (b_read_bytes bytes))
      = (\<Sum>(offset, command)\<leftarrow>matched_completions records.
           if i_direction command = DirRead then unat (i_data_len command) else 0)
    \<and> (\<Sum>(b, bytes)\<leftarrow>t_buckets st. unat (b_write_bytes bytes))
      = (\<Sum>(offset, command)\<leftarrow>matched_completions records.
           if i_direction command = DirWrite then unat (i_data_len command) else 0)
    \<and> (\<forall>(b, bytes) \<in> set (t_buckets st). unat scale_ns dvd unat b)"
proof -
  let ?cs = "matched_completions records" and ?ks = "report_buckets scale_ns records"
  have ts: "t_buckets st = map (\<lambda>b. (b, bucket_of scale_ns ?cs b)) ?ks"
    using run_throughput [OF assms(1), of records] assms(3)
    by (simp add: fill_buckets_items report_buckets_def)
  have small: "moved dir scale_ns b ?cs < 2 ^ 128" for dir b
    using moved_bound [of dir scale_ns b ?cs] length_matched_completions [of records] assms(2)
    by (simp add: less_le_trans)
  have total: "(\<Sum>b\<leftarrow>?ks. moved dir scale_ns b ?cs)
    = (\<Sum>(offset, command)\<leftarrow>?cs. if i_direction command = dir then unat (i_data_len command) else 0)" for dir
    by (rule moved_total) (auto simp: report_buckets_def)
  show ?thesis
    using total [of DirRead] total [of DirWrite] small
    by (auto simp: ts comp_def bucket_of_def unat_of_nat report_buckets_def bucket_key_mult)
qed

lemma throughput_conserves_bytes_witness:
  "\<exists>st ws. run_steps (throughput_step 100) throughput_init sample_run = Ret (st, ws)
    \<and> (\<Sum>(b, bytes)\<leftarrow>t_buckets st. unat (b_read_bytes bytes)) = 100"
proof -
  obtain st where st: "run_steps (throughput_step 100) throughput_init sample_run
      = Ret (st, track_warnings {} sample_run)"
    using run_throughput [of 100 sample_run] by auto
  have m: "matched_completions sample_run = [(100, \<lparr>i_data_len = 100, i_direction = DirRead\<rparr>),
      (250, \<lparr>i_data_len = 200, i_direction = DirWrite\<rparr>)]"
    by (simp add: matched_completions_def sample_run_def base_of_def sample_submit_io_def
        sample_completion_def command_key_of_def command_of_def direction_from_opcode_def saturating_sub_def)
  have "length sample_run < 2 ^ 96" by (simp add: sample_run_def)
  from throughput_conserves_bytes [OF _ this st] st m show ?thesis by simp
qed

text \<open>The decimal text of \<open>m / 10 ^ p\<close>, and how near that is to \<open>x\<close>: an error of the double and one of the rounding.\<close>

definition decimal_text :: "nat \<Rightarrow> nat \<Rightarrow> string" where
  "decimal_text p m = show_nat (m div 10 ^ p) @ ''.'' @ pad_left p (show_nat (m mod 10 ^ p))"

definition decimal_near :: "nat \<Rightarrow> nat \<Rightarrow> real \<Rightarrow> real \<Rightarrow> bool" where
  "decimal_near p m x err \<longleftrightarrow> \<bar>real m / 10 ^ p - x\<bar> \<le> x * err + 1 / (2 * 10 ^ p)"

lemma f64_fixed_near:
  assumes "0 < snd v" and "\<bar>f64_val v - x\<bar> \<le> x * err"
  shows "\<exists>m. f64_fixed p v = decimal_text p m \<and> decimal_near p m x err"
proof -
  define m where "m = nearest_even (fst v * 10 ^ p) (snd v)"
  have "\<bar>real m - f64_val v * 10 ^ p\<bar> \<le> 1 / 2"
    using nearest_even_error [OF assms(1), of "fst v * 10 ^ p"] by (simp add: m_def f64_val_def)
  then have "\<bar>real m - f64_val v * 10 ^ p\<bar> / 10 ^ p \<le> 1 / 2 / 10 ^ p" by (rule divide_right_mono) simp
  then have "\<bar>(real m - f64_val v * 10 ^ p) / 10 ^ p\<bar> \<le> 1 / (2 * 10 ^ p)" by (simp add: abs_divide)
  then have "\<bar>real m / 10 ^ p - f64_val v\<bar> \<le> 1 / (2 * 10 ^ p)" by (simp add: diff_divide_distrib)
  then have "decimal_near p m x err" using assms(2) unfolding decimal_near_def by linarith
  then show ?thesis by (intro exI [of _ m]) (simp add: f64_fixed_def decimal_text_def m_def Let_def)
qed

lemma rate_near:
  assumes "0 < unat d"
  shows "\<bar>f64_val (throughput_rate bytes d) - bytes_per_second bytes d\<bar> \<le> bytes_per_second bytes d * (1 / 2 ^ 50)"
proof -
  from f64_scaled_ratio [OF assms, of 1000000000 "unat bytes"] billion
  have "\<bar>f64_val (throughput_rate bytes d) - bytes_per_second bytes d\<bar> \<le> bytes_per_second bytes d / 2 ^ 50"
    by (simp only: throughput_rate_def bytes_per_second_def of_nat_numeral) simp
  then show ?thesis by simp
qed

lemma million: "f64_val (f64_of_nat 1000000) = 10 ^ 6"
  by (simp add: f64_of_nat_def f64_round_def f64_scale_def bit_len.simps nearest_even_def f64_val_def Let_def)

lemma mb_near:
  assumes "\<bar>f64_val r - x\<bar> \<le> x * (1 / 2 ^ 50)" and "0 < snd r" and "0 \<le> x"
  shows "\<bar>f64_val (bytes_per_second_to_mb r) - x / 10 ^ 6\<bar> \<le> x / 10 ^ 6 * (1 / 2 ^ 49)"
proof -
  let ?m = "f64_val (bytes_per_second_to_mb r)"
  have "rounds_to ?m (f64_val r / 10 ^ 6)"
    using f64_div_within [OF assms(2), of "f64_of_nat 1000000"] by (simp add: bytes_per_second_to_mb_def million)
  then have m: "(1 - 1 / 2 ^ 53) * (f64_val r / 10 ^ 6) \<le> ?m" "?m \<le> (1 + 1 / 2 ^ 53) * (f64_val r / 10 ^ 6)"
    unfolding rounds_to_def f64_unit_def by blast+
  have r: "f64_val r \<le> x + x * (1 / 2 ^ 50)" "x - x * (1 / 2 ^ 50) \<le> f64_val r"
    using assms(1) unfolding abs_le_iff by linarith+
  show ?thesis
  proof (rule abs_leI)
    show "?m - x / 10 ^ 6 \<le> x / 10 ^ 6 * (1 / 2 ^ 49)" using m(2) r(1) assms(3) by simp
    show "- (?m - x / 10 ^ 6) \<le> x / 10 ^ 6 * (1 / 2 ^ 49)" using m(1) r(2) assms(3) by simp
  qed
qed

text \<open>
  C20. The printed rates: every line has, after its bucket, decimals with six digits for the read and
  written bytes per second, within one part in \<open>2 ^ 50\<close> and half a unit of the last digit of the exact
  rates, and decimals with two digits for the megabytes per second, within one part in \<open>2 ^ 49\<close> and half
  a unit of the last digit; the division is by a duration between 1 and the scale.
\<close>

theorem throughput_rate_accurate:
  assumes "scale_ns \<noteq> 0" and "d = bucket_duration scale_ns last_offset b"
  shows "1 \<le> d \<and> d \<le> scale_ns
    \<and> (\<exists>r w rm wm. throughput_line b bytes d
          = join_with tab [show_word b, decimal_text 6 r, decimal_text 6 w, decimal_text 2 rm, decimal_text 2 wm]
        \<and> decimal_near 6 r (bytes_per_second (b_read_bytes bytes) d) (1 / 2 ^ 50)
        \<and> decimal_near 6 w (bytes_per_second (b_write_bytes bytes) d) (1 / 2 ^ 50)
        \<and> decimal_near 2 rm (bytes_per_second (b_read_bytes bytes) d / 10 ^ 6) (1 / 2 ^ 49)
        \<and> decimal_near 2 wm (bytes_per_second (b_write_bytes bytes) d / 10 ^ 6) (1 / 2 ^ 49))"
proof -
  have "1 \<le> scale_ns" using assms(1) by (simp add: word_le_nat_alt Suc_leI unat_gt_0)
  then have d: "1 \<le> d \<and> d \<le> scale_ns" using assms(2) by (auto simp: bucket_duration_def min_def max_def)
  then have pos: "0 < unat d" by (metis unat_gt_0 word_le_0_iff zero_neq_one)
  have rate: "\<exists>m. f64_fixed 6 (throughput_rate n d) = decimal_text 6 m \<and> decimal_near 6 m (bytes_per_second n d) (1 / 2 ^ 50)" for n
    using rate_near [OF pos] by (intro f64_fixed_near) (simp_all only: throughput_rate_def f64_snd_pos)
  have mb: "\<exists>m. f64_fixed 2 (bytes_per_second_to_mb (throughput_rate n d)) = decimal_text 2 m
      \<and> decimal_near 2 m (bytes_per_second n d / 10 ^ 6) (1 / 2 ^ 49)" for n
  proof (rule f64_fixed_near)
    show "0 < snd (bytes_per_second_to_mb (throughput_rate n d))" by (simp add: bytes_per_second_to_mb_def)
    show "\<bar>f64_val (bytes_per_second_to_mb (throughput_rate n d)) - bytes_per_second n d / 10 ^ 6\<bar>
        \<le> bytes_per_second n d / 10 ^ 6 * (1 / 2 ^ 49)"
    proof (rule mb_near [OF rate_near [OF pos]])
      show "0 < snd (throughput_rate n d)" by (simp add: throughput_rate_def)
      show "0 \<le> bytes_per_second n d"
        unfolding bytes_per_second_def by (intro divide_nonneg_nonneg mult_nonneg_nonneg of_nat_0_le_iff) simp
    qed
  qed
  obtain r w rm wm where decimals:
    "f64_fixed 6 (throughput_rate (b_read_bytes bytes) d) = decimal_text 6 r" "decimal_near 6 r (bytes_per_second (b_read_bytes bytes) d) (1 / 2 ^ 50)"
    "f64_fixed 6 (throughput_rate (b_write_bytes bytes) d) = decimal_text 6 w" "decimal_near 6 w (bytes_per_second (b_write_bytes bytes) d) (1 / 2 ^ 50)"
    "f64_fixed 2 (bytes_per_second_to_mb (throughput_rate (b_read_bytes bytes) d)) = decimal_text 2 rm"
    "decimal_near 2 rm (bytes_per_second (b_read_bytes bytes) d / 10 ^ 6) (1 / 2 ^ 49)"
    "f64_fixed 2 (bytes_per_second_to_mb (throughput_rate (b_write_bytes bytes) d)) = decimal_text 2 wm"
    "decimal_near 2 wm (bytes_per_second (b_write_bytes bytes) d / 10 ^ 6) (1 / 2 ^ 49)"
    using rate [of "b_read_bytes bytes"] rate [of "b_write_bytes bytes"] mb [of "b_read_bytes bytes"] mb [of "b_write_bytes bytes"]
    by blast
  have "throughput_line b bytes d
      = join_with tab [show_word b, decimal_text 6 r, decimal_text 6 w, decimal_text 2 rm, decimal_text 2 wm]"
    by (simp only: throughput_line_def Let_def decimals)
  then show ?thesis using d decimals(2,4,6,8) by blast
qed

lemma throughput_rate_accurate_witness:
  "\<exists>r w rm wm. throughput_line 0 \<lparr>b_read_bytes = 12345, b_write_bytes = 7\<rparr> 7
      = join_with tab [show_word (0 :: u64), decimal_text 6 r, decimal_text 6 w, decimal_text 2 rm, decimal_text 2 wm]
    \<and> decimal_near 6 r (bytes_per_second 12345 7) (1 / 2 ^ 50)"
  using throughput_rate_accurate [of 10 7 7 0 "\<lparr>b_read_bytes = 12345, b_write_bytes = 7\<rparr>"]
  by (auto simp: bucket_duration_def saturating_sub_def)

end
