(* ===== verification/Queue_Depth.thy ===== *)
theory Queue_Depth
  imports Command_Tracker Rust_Io
begin

text \<open>
  \<open>analyze\_queue\_depth\_records\<close> of \<open>analyze.rs\<close>: the state \<open>QueueDepthState\<close>, and the sampling of
  its depths at multiples of the scale. The sampling loop ends only if the scale is not 0, so it
  is a partial function whose value \<open>None\<close> is a run that does not end.
\<close>

section \<open>QueueDepthState\<close>

record queue_depth_state =
  d_in_flight :: "command_key set"
  d_known_queues :: "queue_key list"
  d_queue_depths :: "(queue_key, u64) btree_map"
  d_global_depth :: u64

definition depth_init :: queue_depth_state where
  "depth_init = \<lparr>d_in_flight = {}, d_known_queues = [], d_queue_depths = [], d_global_depth = 0\<rparr>"

fun apply_record :: "queue_depth_state \<Rightarrow> trace_record \<Rightarrow> queue_depth_state \<times> string list" where
  "apply_record st (Submit submit) =
     (let key = command_key_of (s_header submit);
          queue = key_queue key;
          st1 = st\<lparr>d_known_queues := insort_insert queue (d_known_queues st)\<rparr>
      in if key \<in> d_in_flight st1 then (st1, [duplicate_submit_warning key])
         else (st1\<lparr>d_in_flight := insert key (d_in_flight st1),
                   d_global_depth := d_global_depth st1 + 1,
                   d_queue_depths := bt_entry queue 0 (\<lambda>depth. depth + 1) (d_queue_depths st1)\<rparr>, []))"
| "apply_record st (Complete completion) =
     (let key = command_key_of (c_header completion)
      in if key \<notin> d_in_flight st then (st, [unmatched_completion_warning key])
         else (st\<lparr>d_in_flight := d_in_flight st - {key},
                  d_global_depth := saturating_sub (d_global_depth st) 1,
                  d_queue_depths := decrement_depth (key_queue key) (d_queue_depths st)\<rparr>, []))"

section \<open>Samples\<close>

definition global_line :: "u64 \<Rightarrow> queue_depth_state \<Rightarrow> string" where
  "global_line time_ns st = show_word time_ns @ tab @ ''global'' @ tab @ tab @ tab @ show_word (d_global_depth st)"

definition queue_line :: "u64 \<Rightarrow> queue_depth_state \<Rightarrow> queue_key \<Rightarrow> string" where
  "queue_line time_ns st queue =
     join_with tab [show_word time_ns, ''queue'', show_word (qk_ctrl_id queue), show_word (qk_qid queue),
       show_word (bt_get_or 0 queue (d_queue_depths st))]"

definition sample_lines :: "u64 \<Rightarrow> queue_depth_state \<Rightarrow> string list" where
  "sample_lines time_ns st = global_line time_ns st # map (queue_line time_ns st) (d_known_queues st)"

definition write_depth_sample ::
  "'w writer \<Rightarrow> 'w \<Rightarrow> u64 \<Rightarrow> queue_depth_state \<Rightarrow> (io_error + unit) \<times> 'w" where
  "write_depth_sample write_all out time_ns st = write_lines write_all (sample_lines time_ns st) out"

text \<open>The loop of \<open>emit\_due\_samples\<close>; it carries \<open>next\_sample\<close> and the output.\<close>

partial_function (option) emit_due_samples ::
  "'w writer \<Rightarrow> queue_depth_state \<Rightarrow> u64 \<Rightarrow> u64 \<Rightarrow> bool \<Rightarrow> u64 \<Rightarrow> 'w \<Rightarrow>
     ((io_error + unit) \<times> u64 \<times> 'w) option" where
  "emit_due_samples write_all st scale_ns limit include_limit next_sample out =
     (if next_sample < limit \<or> (include_limit \<and> next_sample = limit) then
        (case write_depth_sample write_all out next_sample st of
           (Inl e, out') \<Rightarrow> Some (Inl e, next_sample, out')
         | (Inr _, out') \<Rightarrow>
             (case checked_add next_sample scale_ns of
                None \<Rightarrow> Some (Inr (), next_sample, out')
              | Some next \<Rightarrow> emit_due_samples write_all st scale_ns limit include_limit next out'))
      else Some (Inr (), next_sample, out))"

section \<open>The loop over the records\<close>

record 'w depth_run =
  dr_state :: queue_depth_state
  dr_first_ts :: "u64 option"
  dr_offset :: "u64 option"
  dr_next :: u64
  dr_out :: 'w
  dr_warnings :: "string list"

text \<open>\<open>emit\_due\_samples(...)?\<close> on the run, followed by the rest of the function.\<close>

definition emit_then ::
  "'w writer \<Rightarrow> u64 \<Rightarrow> u64 \<Rightarrow> bool \<Rightarrow> 'w depth_run \<Rightarrow>
     ('w depth_run \<Rightarrow> ((io_error + unit) \<times> 'w depth_run) option) \<Rightarrow> ((io_error + unit) \<times> 'w depth_run) option" where
  "emit_then write_all scale_ns limit include_limit run rest =
     Option.bind (emit_due_samples write_all (dr_state run) scale_ns limit include_limit (dr_next run) (dr_out run))
       (\<lambda>(res, next, out).
          let run' = run\<lparr>dr_next := next, dr_out := out\<rparr>
          in case res of Inl e \<Rightarrow> Some (Inl e, run') | Inr _ \<Rightarrow> rest run')"

definition apply_run :: "'w depth_run \<Rightarrow> trace_record \<Rightarrow> 'w depth_run" where
  "apply_run run record =
     (let (st, ws) = apply_record (dr_state run) record
      in run\<lparr>dr_state := st, dr_warnings := dr_warnings run @ ws\<rparr>)"

fun depth_loop ::
  "'w writer \<Rightarrow> u64 \<Rightarrow> 'w depth_run \<Rightarrow> trace_record list \<Rightarrow> ((io_error + unit) \<times> 'w depth_run) option" where
  "depth_loop write_all scale_ns run [] =
     (case dr_offset run of
        Some offset \<Rightarrow> emit_then write_all scale_ns offset True run (\<lambda>run'. Some (Inr (), run'))
      | None \<Rightarrow> Some (Inr (), run))"
| "depth_loop write_all scale_ns run (record # records) =
     (let header = record_header record;
          base_ts = (case dr_first_ts run of None \<Rightarrow> h_timestamp_ns header | Some t \<Rightarrow> t);
          offset = saturating_sub (h_timestamp_ns header) base_ts;
          run1 = run\<lparr>dr_first_ts := Some base_ts\<rparr>;
          continue = (\<lambda>run'. depth_loop write_all scale_ns (apply_run run' record) records)
      in case dr_offset run1 of
        None \<Rightarrow> continue (run1\<lparr>dr_offset := Some offset\<rparr>)
      | Some previous_offset \<Rightarrow>
          if offset \<noteq> previous_offset then
            emit_then write_all scale_ns previous_offset True run1 (\<lambda>run2.
              emit_then write_all scale_ns offset False run2 (\<lambda>run3.
                continue (run3\<lparr>dr_offset := Some offset\<rparr>)))
          else continue run1)"

definition depth_header :: string where
  "depth_header = join_with tab [''time_ns'', ''scope'', ''ctrl_id'', ''qid'', ''queue_depth'']"

definition analyze_queue_depth_records ::
  "'w writer \<Rightarrow> trace_record list \<Rightarrow> u64 \<Rightarrow> 'w \<Rightarrow> ((io_error + unit) \<times> 'w \<times> string list) option" where
  "analyze_queue_depth_records write_all records scale_ns out =
     (case write_line write_all depth_header out of
        (Inl e, out') \<Rightarrow> Some (Inl e, out', [])
      | (Inr _, out') \<Rightarrow>
          map_option (\<lambda>(res, run). (res, dr_out run, dr_warnings run))
            (depth_loop write_all scale_ns
               \<lparr>dr_state = depth_init, dr_first_ts = None, dr_offset = None, dr_next = 0,
                dr_out = out', dr_warnings = []\<rparr> records))"

section \<open>The contract of a tracker\<close>

interpretation depth: total_tracker "\<lambda>st r. Ret (apply_record st r)" d_in_flight
proof unfold_locales
  show "d_in_flight s' = outstanding (d_in_flight s) r" "ws = track_warning (d_in_flight s) r"
    if "Ret (apply_record s r) = Ret (s', ws)" for s r s' ws
    using that by (cases r; auto simp: Let_def split: if_splits)+
qed simp

section \<open>The depths are the numbers of outstanding commands\<close>

definition depth_ok :: "queue_depth_state \<Rightarrow> bool" where
  "depth_ok st \<longleftrightarrow>
     d_global_depth st = of_nat (card (d_in_flight st))
     \<and> bt_ok (d_queue_depths st)
     \<and> (\<forall>q. bt_get_or 0 q (d_queue_depths st) = of_nat (card (queue_keys q (d_in_flight st))))
     \<and> sorted_wrt (<) (d_known_queues st)
     \<and> (\<forall>k \<in> d_in_flight st. key_queue k \<in> set (d_known_queues st) \<and> bt_get (key_queue k) (d_queue_depths st) \<noteq> None)"

lemma depth_ok_init: "depth_ok depth_init"
  by (simp add: depth_ok_def depth_init_def queue_keys_def)

lemma insort_insert_strict: "sorted_wrt (<) xs \<Longrightarrow> sorted_wrt (<) (insort_insert x xs)"
  by (simp add: strict_sorted_iff sorted_insort_insert distinct_insort_insert)

lemma depth_ok_step:
  assumes "depth_ok st"
  shows "depth_ok (fst (apply_record st r))"
proof (cases r)
  case (Submit s)
  let ?k = "command_key_of (s_header s)"
  show ?thesis
  proof (cases "?k \<in> d_in_flight st")
    case True
    then show ?thesis
      using assms Submit by (auto simp: depth_ok_def Let_def insort_insert_strict set_insort_insert)
  next
    case False
    then have "?k \<notin> queue_keys q (d_in_flight st)" for q by (simp add: queue_keys_member)
    then show ?thesis
      using assms Submit False
      by (auto simp: depth_ok_def Let_def insort_insert_strict set_insort_insert queue_keys_insert
          finite_subset bt_get_entry)
  qed
next
  case (Complete c)
  let ?k = "command_key_of (c_header c)"
  show ?thesis
  proof (cases "?k \<in> d_in_flight st")
    case True
    then have mem: "?k \<in> queue_keys (key_queue ?k) (d_in_flight st)" by (simp add: queue_keys_member)
    have "bt_get_or 0 q (decrement_depth (key_queue ?k) (d_queue_depths st))
        = of_nat (card (queue_keys q (d_in_flight st - {?k})))" for q
    proof (cases "q = key_queue ?k")
      case eq: True
      obtain d where d: "bt_get q (d_queue_depths st) = Some d"
        using assms True eq by (auto simp: depth_ok_def)
      then have "d = of_nat (card (queue_keys q (d_in_flight st)))"
        using assms by (auto simp: depth_ok_def bt_get_or_def dest: spec [of _ q])
      then show ?thesis
        using assms d eq card_keys_remove [OF mem]
        by (simp add: depth_ok_def bt_get_or_def bt_get_decrement queue_keys_remove)
    next
      case False
      then show ?thesis
        using assms by (simp add: depth_ok_def bt_get_or_def bt_get_decrement queue_keys_remove)
    qed
    then show ?thesis
      using assms Complete True card_keys_remove [OF True]
      by (auto simp: depth_ok_def Let_def bt_ok_decrement bt_get_decrement)
  next
    case False
    then show ?thesis using assms Complete by simp
  qed
qed

text \<open>The state after a sequence of records.\<close>

definition depth_after :: "trace_record list \<Rightarrow> queue_depth_state" where
  "depth_after rs = fold (\<lambda>r st. fst (apply_record st r)) rs depth_init"

lemma depth_after_snoc [simp]: "depth_after (rs @ [r]) = fst (apply_record (depth_after rs) r)"
  by (simp add: depth_after_def)

lemma depth_after_ok: "depth_ok (depth_after rs)"
  by (induction rs rule: rev_induct) (simp_all add: depth_ok_step, simp add: depth_after_def depth_ok_init)

section \<open>The samples that are due\<close>

text \<open>The sample times from \<open>n\<close> on that lie below \<open>l\<close>, and the first one that does not.\<close>

function due_times :: "nat \<Rightarrow> nat \<Rightarrow> nat \<Rightarrow> nat list" where
  "due_times s n l = (if s \<noteq> 0 \<and> n < l then n # due_times s (n + s) l else [])"
  by pat_completeness auto
termination by (relation "measure (\<lambda>(s, n, l). l - n)") auto

function next_due :: "nat \<Rightarrow> nat \<Rightarrow> nat \<Rightarrow> nat" where
  "next_due s n l = (if s \<noteq> 0 \<and> n < l then next_due s (n + s) l else n)"
  by pat_completeness auto
termination by (relation "measure (\<lambda>(s, n, l). l - n)") auto

declare due_times.simps [simp del] next_due.simps [simp del]

lemma next_due_ge: "s \<noteq> 0 \<Longrightarrow> l \<le> next_due s n l \<and> n \<le> next_due s n l"
proof (induction s n l rule: next_due.induct)
  case (1 s n l)
  then show ?case by (subst (1 2) next_due.simps) auto
qed

lemma due_times_split:
  "m \<le> l \<Longrightarrow> due_times s n l = due_times s n m @ due_times s (next_due s n m) l"
proof (induction s n m rule: due_times.induct)
  case (1 s n m)
  show ?case
  proof (cases "s \<noteq> 0 \<and> n < m")
    case True
    then show ?thesis
      using 1 by (simp add: due_times.simps [of s n l] due_times.simps [of s n m] next_due.simps [of s n m])
  next
    case False
    then show ?thesis
      by (auto simp: due_times.simps [of s n m] next_due.simps [of s n m])
  qed
qed

lemma due_times_bounds: "t \<in> set (due_times s n l) \<Longrightarrow> n \<le> t \<and> t < l"
proof (induction s n l rule: due_times.induct)
  case (1 s n l)
  then show ?case
    by (cases "s \<noteq> 0 \<and> n < l") (auto simp: due_times.simps [of s n l])
qed

lemma due_times_multiples:
  assumes "0 < s"
  shows "set (due_times s n l) = {t. n \<le> t \<and> t < l \<and> s dvd (t - n)}"
  using assms
proof (induction s n l rule: due_times.induct)
  case (1 s n l)
  show ?case
  proof (cases "n < l")
    case True
    have "{t. n \<le> t \<and> t < l \<and> s dvd (t - n)} = insert n {t. n + s \<le> t \<and> t < l \<and> s dvd (t - (n + s))}"
    proof -
      have "s dvd (t - n) \<longleftrightarrow> s dvd (t - (n + s))" if "n + s \<le> t" for t
      proof -
        have "t - n = t - (n + s) + s" using that by simp
        then show ?thesis by (metis dvd_add_triv_right_iff)
      qed
      moreover have "n + s \<le> t" if "n \<le> t" "t \<noteq> n" "s dvd (t - n)" for t
        using dvd_imp_le [OF that(3)] that(1,2) by simp
      ultimately show ?thesis using True by auto
    qed
    then show ?thesis
      using 1 True by (simp add: due_times.simps [of s n l])
  next
    case False
    then show ?thesis by (auto simp: due_times.simps [of s n l])
  qed
qed

lemma due_times_sorted: "sorted_wrt (<) (due_times s n l)"
proof (induction s n l rule: due_times.induct)
  case (1 s n l)
  show ?case
  proof (cases "s \<noteq> 0 \<and> n < l")
    case True
    then have "n < t" if "t \<in> set (due_times s (n + s) l)" for t using due_times_bounds [OF that] by simp
    then show ?thesis using 1 True by (simp add: due_times.simps [of s n l])
  next
    case False
    then have "due_times s n l = []" by (subst due_times.simps) simp
    then show ?thesis by simp
  qed
qed

lemma due_times_list: "0 < s \<Longrightarrow> due_times s 0 l = filter (\<lambda>t. s dvd t) [0..<l]"
  using due_times_sorted [of s 0 l] due_times_multiples [of s 0 l]
  by (intro sorted_distinct_set_unique) (auto simp: strict_sorted_iff sorted_wrt_filter)

definition due_limit :: "u64 \<Rightarrow> bool \<Rightarrow> nat" where
  "due_limit limit include_limit = (if include_limit then unat limit + 1 else unat limit)"

text \<open>On a byte vector and away from the end of the number range, the loop ends with these samples.\<close>

lemma emit_due_vec:
  assumes "scale_ns \<noteq> 0" and "unat limit + unat scale_ns < 2 ^ 64"
  shows "\<exists>next'. emit_due_samples vec_write st scale_ns limit incl next out = Some (Inr (), next',
      out @ lines_bytes (concat (map (\<lambda>t. sample_lines (of_nat t) st)
        (due_times (unat scale_ns) (unat next) (due_limit limit incl)))))
    \<and> unat next' = next_due (unat scale_ns) (unat next) (due_limit limit incl)"
proof (induction "2 ^ 64 - unat next" arbitrary: "next" out rule: less_induct)
  case less
  let ?s = "unat scale_ns" and ?l = "due_limit limit incl"
  have cond: "(next < limit \<or> incl \<and> next = limit) \<longleftrightarrow> unat next < ?l"
    by (auto simp: due_limit_def word_less_nat_alt word_unat_eq_iff)
  have s: "?s \<noteq> 0" using assms(1) by (simp add: unat_eq_0)
  show ?case
  proof (cases "unat next < ?l")
    case False
    then show ?thesis
      using cond by (subst emit_due_samples.simps)
        (auto simp: due_times.simps [of ?s "unat next"] next_due.simps [of ?s "unat next"])
  next
    case True
    then have room: "unat next + ?s < 2 ^ 64" using assms(2) by (auto simp: due_limit_def split: if_splits)
    then have add: "checked_add next scale_ns = Some (next + scale_ns)" by (simp add: checked_add_def)
    have u: "unat (next + scale_ns) = unat next + ?s" by (rule unat_checked_add [OF add])
    have "2 ^ 64 - unat (next + scale_ns) < 2 ^ 64 - unat next"
      using u s room by simp
    from less [OF this, of "out @ lines_bytes (sample_lines next st)"] show ?thesis
      using cond True add s u
      by (subst emit_due_samples.simps)
        (simp add: write_depth_sample_def due_times.simps [of ?s "unat next"] next_due.simps [of ?s "unat next"])
  qed
qed

section \<open>The loop on records in time order\<close>

text \<open>The records up to time \<open>t\<close>, and the samples from \<open>n\<close> up to \<open>l\<close> they give.\<close>

definition upto_time :: "u64 \<Rightarrow> nat \<Rightarrow> trace_record list \<Rightarrow> trace_record list" where
  "upto_time base t rs = filter (\<lambda>r. unat (record_offset base r) \<le> t) rs"

definition samples :: "u64 \<Rightarrow> trace_record list \<Rightarrow> nat list \<Rightarrow> byte list" where
  "samples base rs ts =
     lines_bytes (concat (map (\<lambda>t. sample_lines (of_nat t) (depth_after (upto_time base t rs))) ts))"

lemma samples_append: "samples base rs (ts @ us) = samples base rs ts @ samples base rs us"
  by (simp add: samples_def)

lemma samples_const:
  assumes "\<And>t. t \<in> set ts \<Longrightarrow> upto_time base t rs = ps"
  shows "samples base rs ts = lines_bytes (concat (map (\<lambda>t. sample_lines (of_nat t) (depth_after ps)) ts))"
  unfolding samples_def using assms by (intro arg_cong [where f = lines_bytes] arg_cong [where f = concat]) simp

lemma upto_time_split:
  assumes "\<forall>r \<in> set ps. unat (record_offset base r) \<le> t" and "\<forall>r \<in> set rs. t < unat (record_offset base r)"
  shows "upto_time base t (ps @ rs) = ps"
  using assms by (auto simp: upto_time_def filter_empty_conv not_le)

text \<open>\<open>emit\_due\_samples\<close> at a moment when the processed records are \<open>ps\<close>.\<close>

lemma emit_then_vec:
  assumes "scale_ns \<noteq> 0" and "unat limit + unat scale_ns < 2 ^ 64" and "dr_state run = depth_after ps"
    and "\<forall>r \<in> set ps. unat (record_offset base r) \<le> unat (dr_next run)"
    and "\<forall>r \<in> set rs. due_limit limit incl \<le> unat (record_offset base r)"
  shows "\<exists>next'. emit_then vec_write scale_ns limit incl run rest
      = rest (run\<lparr>dr_next := next', dr_out := dr_out run @ samples base (ps @ rs)
          (due_times (unat scale_ns) (unat (dr_next run)) (due_limit limit incl))\<rparr>)
    \<and> unat next' = next_due (unat scale_ns) (unat (dr_next run)) (due_limit limit incl)"
proof -
  have "upto_time base t (ps @ rs) = ps"
    if "t \<in> set (due_times (unat scale_ns) (unat (dr_next run)) (due_limit limit incl))" for t
    using due_times_bounds [OF that] assms(4,5) by (intro upto_time_split) auto
  then show ?thesis
    using emit_due_vec [OF assms(1,2), of "dr_state run" incl "dr_next run" "dr_out run"] assms(3)
    by (auto simp: emit_then_def samples_const [where ps = ps])
qed

lemma depth_loop_run:
  assumes s: "scale_ns \<noteq> 0"
  shows "dr_first_ts run = Some base \<Longrightarrow> dr_offset run = Some cur \<Longrightarrow> dr_state run = depth_after ps \<Longrightarrow>
     (\<forall>r \<in> set ps. record_offset base r \<le> cur) \<Longrightarrow> cur \<le> dr_next run \<Longrightarrow>
     sorted (cur # map (record_offset base) rs) \<Longrightarrow>
     unat (fold max (map (record_offset base) rs) cur) + unat scale_ns < 2 ^ 64 \<Longrightarrow>
     \<exists>run'. depth_loop vec_write scale_ns run rs = Some (Inr (), run')
       \<and> dr_out run' = dr_out run @ samples base (ps @ rs)
           (due_times (unat scale_ns) (unat (dr_next run)) (unat (fold max (map (record_offset base) rs) cur) + 1))
       \<and> dr_warnings run' = dr_warnings run @ track_warnings (d_in_flight (dr_state run)) rs"
proof (induction rs arbitrary: run cur ps)
  case Nil
  then have "\<forall>r \<in> set ps. unat (record_offset base r) \<le> unat (dr_next run)"
    by (metis order.trans word_le_nat_alt)
  from emit_then_vec [OF s _ Nil.prems(3) this, of cur "[]" True "\<lambda>run'. Some (Inr (), run')"] Nil
  show ?case by (auto simp: due_limit_def)
next
  case (Cons r rs)
  let ?o = "record_offset base r" and ?s = "unat scale_ns"
  let ?l = "fold max (map (record_offset base) rs) ?o"
  have le: "cur \<le> ?o" using Cons.prems(6) by simp
  have fold: "fold max (map (record_offset base) (r # rs)) cur = ?l" using le by (simp add: max_absorb1)
  have ol: "?o \<le> ?l" by (rule fold_max_ge)
  have later: "\<forall>r' \<in> set (r # rs). ?o \<le> record_offset base r'" using Cons.prems(6) by auto
  have srt: "sorted (?o # map (record_offset base) rs)" using Cons.prems(6) by simp
  have lim: "unat ?l + ?s < 2 ^ 64" using Cons.prems(7) fold by simp
  obtain st ws where ap: "apply_record (depth_after ps) r = (st, ws)" by (cases "apply_record (depth_after ps) r")
  then have st: "st = depth_after (ps @ [r])" by simp
  have tr: "d_in_flight st = outstanding (d_in_flight (depth_after ps)) r"
    "ws = track_warning (d_in_flight (depth_after ps)) r"
    using depth.keys_step [of "depth_after ps" r st ws] depth.warnings_step [of "depth_after ps" r st ws] ap
    by simp_all
  have continue: "\<exists>run'. depth_loop vec_write scale_ns (apply_run run1 r) rs = Some (Inr (), run')
       \<and> dr_out run' = dr_out run1 @ samples base (ps @ r # rs) (due_times ?s (unat (dr_next run1)) (unat ?l + 1))
       \<and> dr_warnings run' = dr_warnings run1 @ track_warnings (d_in_flight (depth_after ps)) (r # rs)"
    if "dr_first_ts run1 = Some base" "dr_offset run1 = Some ?o" "dr_state run1 = depth_after ps"
      "?o \<le> dr_next run1" for run1
  proof -
    let ?run = "apply_run run1 r"
    have upd: "?run = run1\<lparr>dr_state := st, dr_warnings := dr_warnings run1 @ ws\<rparr>"
      using that(3) ap by (simp add: apply_run_def)
    have run: "dr_first_ts ?run = Some base" "dr_offset ?run = Some ?o" "dr_state ?run = depth_after (ps @ [r])"
      "?o \<le> dr_next ?run" "dr_out ?run = dr_out run1" "dr_next ?run = dr_next run1"
      "dr_warnings ?run = dr_warnings run1 @ ws"
      using that st unfolding upd by simp_all
    have "\<forall>p \<in> set (ps @ [r]). record_offset base p \<le> ?o"
      using Cons.prems(4) le by auto
    from Cons.IH [OF run(1-3) this run(4) srt lim] show ?thesis
      using run(3,5-7) tr st by simp
  qed
  show ?case
  proof (cases "?o = cur")
    case True
    have "saturating_sub (h_timestamp_ns (record_header r)) base = cur"
      using True by (simp add: record_offset_def)
    then have "depth_loop vec_write scale_ns run (r # rs)
        = depth_loop vec_write scale_ns (apply_run (run\<lparr>dr_first_ts := Some base\<rparr>) r) rs"
      using Cons.prems(1,2) by (simp add: Let_def)
    then show ?thesis
      using continue [of "run\<lparr>dr_first_ts := Some base\<rparr>"] Cons.prems(2,3,5) fold True by simp
  next
    case False
    have cl: "unat cur < unat ?o" using False le by (metis order_less_le word_less_nat_alt)
    have ps: "\<forall>r \<in> set ps. unat (record_offset base r) \<le> unat cur"
      using Cons.prems(4) by (simp add: word_le_nat_alt)
    have n: "unat cur \<le> unat (dr_next run)" using Cons.prems(5) by (simp add: word_le_nat_alt)
    let ?run = "run\<lparr>dr_first_ts := Some base\<rparr>"
    let ?cont = "\<lambda>run. depth_loop vec_write scale_ns (apply_run (run\<lparr>dr_offset := Some ?o\<rparr>) r) rs"
    have cons: "depth_loop vec_write scale_ns run (r # rs)
        = emit_then vec_write scale_ns cur True ?run (\<lambda>run2. emit_then vec_write scale_ns ?o False run2 ?cont)"
      using Cons.prems(1,2) False by (simp add: Let_def record_offset_def)
    have "unat cur + unat scale_ns < 2 ^ 64" "unat ?o + unat scale_ns < 2 ^ 64"
      using lim ol cl by (simp_all add: word_le_nat_alt)
    note limits = this
    have later': "\<forall>r' \<in> set (r # rs). unat ?o \<le> unat (record_offset base r')"
      using later by (simp add: word_le_nat_alt)
    let ?n = "unat (dr_next run)" and ?rs = "ps @ r # rs"
    have past: "\<forall>r \<in> set ps. unat (record_offset base r) \<le> unat (dr_next ?run)" using ps n by auto
    have st0: "dr_state ?run = depth_after ps" using Cons.prems(3) by simp
    have lim1: "\<forall>r' \<in> set (r # rs). due_limit cur True \<le> unat (record_offset base r')"
      using later' cl by (auto simp: due_limit_def)
    have lim2: "\<forall>r' \<in> set (r # rs). due_limit ?o False \<le> unat (record_offset base r')"
      using later' by (simp add: due_limit_def)
    from emit_then_vec [OF s limits(1) st0 past lim1, of "\<lambda>run2. emit_then vec_write scale_ns ?o False run2 ?cont"]
    obtain n1 where e1: "depth_loop vec_write scale_ns run (r # rs) = emit_then vec_write scale_ns ?o False
        (?run\<lparr>dr_next := n1, dr_out := dr_out run @ samples base ?rs (due_times ?s ?n (unat cur + 1))\<rparr>) ?cont"
      and n1: "unat n1 = next_due ?s ?n (unat cur + 1)"
      unfolding cons by (auto simp: due_limit_def)
    let ?run1 = "?run\<lparr>dr_next := n1, dr_out := dr_out run @ samples base ?rs (due_times ?s ?n (unat cur + 1))\<rparr>"
    have s0: "?s \<noteq> 0" using s by (simp add: unat_eq_0)
    have "unat cur + 1 \<le> unat n1" using next_due_ge [OF s0] n1 by simp
    then have past1: "\<forall>r \<in> set ps. unat (record_offset base r) \<le> unat (dr_next ?run1)" using ps by auto
    have st1: "dr_state ?run1 = depth_after ps" using Cons.prems(3) by simp
    from emit_then_vec [OF s limits(2) st1 past1 lim2, of ?cont]
    obtain n2 where e2: "emit_then vec_write scale_ns ?o False ?run1 ?cont = ?cont (?run1\<lparr>dr_next := n2,
        dr_out := dr_out ?run1 @ samples base ?rs (due_times ?s (unat n1) (unat ?o))\<rparr>)"
      and n2: "unat n2 = next_due ?s (unat n1) (unat ?o)"
      by (auto simp: due_limit_def)
    have "?o \<le> n2" using next_due_ge [OF s0] n2 by (simp add: word_le_nat_alt)
    moreover have "due_times ?s ?n (unat ?l + 1) = due_times ?s ?n (unat cur + 1)
        @ due_times ?s (unat n1) (unat ?o) @ due_times ?s (unat n2) (unat ?l + 1)"
      using due_times_split [of "unat cur + 1" "unat ?l + 1" ?s ?n] due_times_split [of "unat ?o" "unat ?l + 1" ?s "unat n1"]
        n1 n2 cl ol by (simp add: word_le_nat_alt)
    ultimately show ?thesis
      using continue [of "?run1\<lparr>dr_next := n2, dr_out := dr_out ?run1 @ samples base ?rs (due_times ?s (unat n1) (unat ?o)),
          dr_offset := Some ?o\<rparr>"] Cons.prems(3) e1 e2 fold
      by (simp add: samples_append)
  qed
qed

section \<open>Termination\<close>

lemma emit_total:
  assumes "scale_ns \<noteq> 0"
  shows "emit_due_samples w st scale_ns limit incl next out \<noteq> None"
proof (induction "2 ^ 64 - unat next" arbitrary: "next" out rule: less_induct)
  case less
  have "emit_due_samples w st scale_ns limit incl next' out' \<noteq> None"
    if "checked_add next scale_ns = Some next'" for next' out'
  proof (rule less)
    have "0 < unat scale_ns" using assms by (simp add: unat_gt_0)
    moreover have "unat next' = unat next + unat scale_ns" by (rule unat_checked_add [OF that])
    moreover have "unat next' < 2 ^ LENGTH(64)" by (rule unsigned_less)
    ultimately show "2 ^ 64 - unat next' < 2 ^ 64 - unat next" by simp
  qed
  then show ?case
    by (subst emit_due_samples.simps)
      (auto simp del: split_paired_Ex split: prod.split sum.split option.split)
qed

lemma emit_then_total:
  assumes "scale_ns \<noteq> 0" and "\<And>run'. rest run' \<noteq> None"
  shows "emit_then w scale_ns limit incl run rest \<noteq> None"
  using emit_total [OF assms(1), of w "dr_state run" limit incl "dr_next run" "dr_out run"] assms(2)
  by (auto simp: emit_then_def Let_def split: sum.splits)

lemma depth_loop_total: "scale_ns \<noteq> 0 \<Longrightarrow> depth_loop w scale_ns run rs \<noteq> None"
proof (induction rs arbitrary: run)
  case Nil
  then show ?case by (cases "dr_offset run") (simp_all add: emit_then_total del: not_None_eq)
next
  case (Cons r rs)
  then show ?case
    by (cases "dr_offset run") (simp_all add: Let_def emit_then_total del: not_None_eq)
qed

text \<open>With a scale of 0 the loop never ends once a sample is due.\<close>

lemma emit_zero_scale:
  assumes "emit_due_samples w st scale_ns limit incl next out = Some r"
  shows "w = vec_write \<longrightarrow> scale_ns = 0 \<longrightarrow> \<not> (next < limit \<or> incl \<and> next = limit)"
proof (rule emit_due_samples.raw_induct [where P = "\<lambda>w st s l i n out r. w = vec_write \<longrightarrow> s = 0
      \<longrightarrow> \<not> (n < l \<or> i \<and> n = l)", OF _ assms], goal_cases)
  case (1 emit w st scale_ns limit incl m out r)
  have "checked_add m 0 = Some m"
    using unsigned_less [of m] by (simp add: checked_add_def)
  with 1(2) show ?case
    by (auto simp: write_depth_sample_def split: if_splits dest!: 1(1))
qed

lemma emit_never_ends: "emit_due_samples vec_write st 0 n True n out = None"
  using emit_zero_scale [of vec_write st 0 n True n out]
  by (cases "emit_due_samples vec_write st 0 n True n out") auto

lemma depth_loop_zero_scale:
  "dr_offset run = Some (dr_next run) \<Longrightarrow> depth_loop vec_write 0 run rs = None"
proof (induction rs arbitrary: run)
  case Nil
  then show ?case by (simp add: emit_then_def emit_never_ends)
next
  case (Cons r rs)
  then show ?case
    by (auto simp: Let_def emit_then_def emit_never_ends apply_run_def split: prod.splits)
qed

section \<open>Properties\<close>

lemma d_in_flight_after: "d_in_flight (depth_after rs) = outstanding_after {} rs"
proof (induction rs rule: rev_induct)
  case Nil
  then show ?case by (simp add: depth_after_def depth_init_def)
next
  case (snoc r rs)
  then show ?case
    using depth.keys_step [of "depth_after rs" r "fst (apply_record (depth_after rs) r)"
        "snd (apply_record (depth_after rs) r)"] by (simp add: outstanding_after_append)
qed

lemma card_by_queue:
  assumes "\<forall>k \<in> K. key_queue k \<in> set qs" and "distinct qs"
  shows "card K = (\<Sum>q\<leftarrow>qs. card (queue_keys q K))"
proof -
  have "K = (\<Union>q \<in> set qs. queue_keys q K)" using assms(1) by (auto simp: queue_keys_def)
  also have "card \<dots> = (\<Sum>q\<in>set qs. card (queue_keys q K))"
    by (rule card_UN_disjoint) (auto simp: queue_keys_def)
  finally show ?thesis using assms(2) by (simp add: sum_list_distinct_conv_sum_set)
qed

text \<open>
  C9. The depths reported are the true ones after any sequence of records, with duplicates and
  unmatched completions: the global depth is the number of outstanding commands, each queue's is
  the number outstanding on it, the known queues add up to the global depth, and no counter
  wraps around or saturates.
\<close>

theorem queue_depths_count_outstanding:
  "unat (d_global_depth (depth_after rs)) = card (outstanding_after {} rs)
   \<and> (\<forall>q. unat (bt_get_or 0 q (d_queue_depths (depth_after rs))) = card (queue_keys q (outstanding_after {} rs)))
   \<and> unat (d_global_depth (depth_after rs))
      = (\<Sum>q\<leftarrow>d_known_queues (depth_after rs). unat (bt_get_or 0 q (d_queue_depths (depth_after rs))))
   \<and> sorted_wrt (<) (d_known_queues (depth_after rs))"
proof -
  have ok: "depth_ok (depth_after rs)" by (rule depth_after_ok)
  then have "\<forall>k \<in> outstanding_after {} rs. key_queue k \<in> set (d_known_queues (depth_after rs))"
    and "distinct (d_known_queues (depth_after rs))"
    by (auto simp: depth_ok_def d_in_flight_after strict_sorted_iff)
  note sum = card_by_queue [OF this]
  have "unat (d_global_depth (depth_after rs)) = card (outstanding_after {} rs)"
    and "unat (bt_get_or 0 q (d_queue_depths (depth_after rs))) = card (queue_keys q (outstanding_after {} rs))" for q
    using ok unat_card_keys by (auto simp: depth_ok_def d_in_flight_after)
  then show ?thesis
    using sum ok by (simp add: depth_ok_def)
qed

text \<open>
  C10. The queue-depth report on records in time order (captures of one CPU, or merged by \<open>splice\<close>) whose
  last time plus the scale is below \<open>2 ^ 64\<close>: its samples are taken at exactly the multiples of the scale
  from 0 to the time of the last record, each once, in this order, and the sample at time \<open>t\<close> shows the
  state after all records up to and including \<open>t\<close>. At the end of the number range a sample is repeated
  (\<open>queue\_depth\_repeats\_last\_sample\<close> below).
\<close>

theorem queue_depth_report:
  assumes "scale_ns \<noteq> 0" and "sorted (map (\<lambda>r. h_timestamp_ns (record_header r)) records)" and "records \<noteq> []"
    and "unat (last_offset_of records) + unat scale_ns < 2 ^ 64"
  shows "analyze_queue_depth_records vec_write records scale_ns out = Some (Inr (),
      out @ lines_bytes [depth_header] @ lines_bytes (concat (map
        (\<lambda>t. sample_lines (of_nat t)
            (depth_after (filter (\<lambda>r. unat (record_offset (base_of records) r) \<le> t) records)))
        (filter (\<lambda>t. unat scale_ns dvd t) [0..<unat (last_offset_of records) + 1]))),
      track_warnings {} records)"
proof -
  obtain r rs where rs: "records = r # rs" using assms(3) by (cases records) auto
  let ?base = "base_of records"
  have base: "?base = h_timestamp_ns (record_header r)" by (simp add: rs base_of_def)
  let ?init = "\<lambda>ft off. \<lparr>dr_state = depth_init, dr_first_ts = ft, dr_offset = off, dr_next = 0,
    dr_out = out @ lines_bytes [depth_header], dr_warnings = []\<rparr>"
  have "depth_loop vec_write scale_ns (?init None None) records
      = depth_loop vec_write scale_ns (?init (Some ?base) (Some 0)) records"
    by (simp add: rs base_of_def Let_def)
  moreover have "sorted (0 # map (record_offset ?base) records)"
    using assms(2) by (auto simp: sorted_map record_offset_def
        intro!: sorted_wrt_mono_rel [OF _ assms(2) [unfolded sorted_map]] saturating_sub_mono)
  moreover have "unat (fold max (map (record_offset ?base) records) 0) + unat scale_ns < 2 ^ 64"
    using assms(4) by (simp only: last_offset_of_def)
  ultimately obtain run' where
    "depth_loop vec_write scale_ns (?init None None) records = Some (Inr (), run')"
    "dr_out run' = (out @ lines_bytes [depth_header]) @ samples ?base ([] @ records)
       (due_times (unat scale_ns) (unat (0 :: u64)) (unat (last_offset_of records) + 1))"
    "dr_warnings run' = [] @ track_warnings (d_in_flight depth_init) records"
    using depth_loop_run [OF assms(1), of "?init (Some ?base) (Some 0)" ?base 0 "[]" records]
    by (auto simp: depth_after_def last_offset_of_def)
  then have "analyze_queue_depth_records vec_write records scale_ns out = Some (Inr (),
      out @ lines_bytes [depth_header] @ samples ?base records
        (due_times (unat scale_ns) 0 (unat (last_offset_of records) + 1)), track_warnings {} records)"
    by (simp add: analyze_queue_depth_records_def depth_init_def)
  moreover have "due_times (unat scale_ns) 0 (unat (last_offset_of records) + 1)
      = filter (\<lambda>t. unat scale_ns dvd t) [0..<unat (last_offset_of records) + 1]"
    using assms(1) by (intro due_times_list) (simp add: unat_gt_0)
  ultimately show ?thesis by (simp only: samples_def upto_time_def)
qed

lemma queue_depth_report_witness:
  "\<exists>out. analyze_queue_depth_records vec_write sample_run 100 [] = Some (Inr (), out, [])"
proof -
  have l: "last_offset_of sample_run = 250"
    by (simp add: last_offset_of_def sample_run_defs base_of_def record_offset_def saturating_sub_def)
  have w: "track_warnings {} sample_run = []" by (simp add: sample_run_defs command_key_of_def)
  have "sorted (map (\<lambda>r. h_timestamp_ns (record_header r)) sample_run)" "sample_run \<noteq> []"
    by (simp_all add: sample_run_defs)
  moreover have "unat (last_offset_of sample_run) + unat (100 :: u64) < 2 ^ 64" by (simp add: l)
  ultimately show ?thesis
    using queue_depth_report [of 100 sample_run "[]"] w by auto
qed

text \<open>
  C35. On any nonempty sequence of records the queue-depth analysis returns when the scale is not 0, and
  never for a scale of 0, which \<open>parse\_scale\_ns\<close> rejects.
\<close>

theorem queue_depth_terminates:
  assumes "records \<noteq> []"
  shows "(\<exists>r. analyze_queue_depth_records vec_write records scale_ns out = Some r) \<longleftrightarrow> scale_ns \<noteq> 0"
proof (cases "scale_ns = 0")
  case False
  then show ?thesis
    using depth_loop_total [OF False] by (auto simp: analyze_queue_depth_records_def)
next
  case True
  obtain r rs where rs: "records = r # rs" using assms by (cases records) auto
  have "depth_loop vec_write 0 (apply_run \<lparr>dr_state = depth_init, dr_first_ts = Some t, dr_offset = Some 0,
      dr_next = 0, dr_out = out', dr_warnings = []\<rparr> r) rs = None" for t out'
    by (rule depth_loop_zero_scale) (simp add: apply_run_def split: prod.splits)
  then show ?thesis
    using True by (simp add: rs analyze_queue_depth_records_def Let_def)
qed

lemma queue_depth_terminates_witness:
  "\<exists>r. analyze_queue_depth_records vec_write sample_run 7 [] = Some r"
  using queue_depth_terminates [of sample_run 7 "[]"] by (simp add: sample_run_defs)

text \<open>One turn of the sampling loop on a byte vector.\<close>

lemma emit_turn:
  "\<not> (n < limit \<or> incl \<and> n = limit) \<Longrightarrow>
     emit_due_samples vec_write st scale_ns limit incl n out = Some (Inr (), n, out)"
  "n < limit \<or> incl \<and> n = limit \<Longrightarrow> checked_add n scale_ns = None \<Longrightarrow>
     emit_due_samples vec_write st scale_ns limit incl n out
       = Some (Inr (), n, out @ lines_bytes (sample_lines n st))"
  "n < limit \<or> incl \<and> n = limit \<Longrightarrow> checked_add n scale_ns = Some n' \<Longrightarrow>
     emit_due_samples vec_write st scale_ns limit incl n out
       = emit_due_samples vec_write st scale_ns limit incl n' (out @ lines_bytes (sample_lines n st))"
  by (subst emit_due_samples.simps; auto simp: write_depth_sample_def)+

lemma analyze_at_range_end:
  assumes ts: "h_timestamp_ns (record_header r1) = 0" "h_timestamp_ns (record_header r2) = 2 ^ 63"
      "h_timestamp_ns (record_header r3) = 2 ^ 63 + 1"
    and st: "apply_record depth_init r1 = (s1, [])" "apply_record s1 r2 = (s2, [])" "apply_record s2 r3 = (s3, [])"
  shows "analyze_queue_depth_records vec_write [r1, r2, r3] (2 ^ 63) [] = Some (Inr (),
     lines_bytes (depth_header # sample_lines 0 s1 @ sample_lines (2 ^ 63) s2
       @ sample_lines (2 ^ 63) s2 @ sample_lines (2 ^ 63) s3), [])"
proof -
  have add: "checked_add 0 (2 ^ 63 :: u64) = Some (2 ^ 63)" "checked_add (2 ^ 63) (2 ^ 63 :: u64) = None"
    by (simp_all add: checked_add_def)
  note emit = emit_turn(3) [OF _ add(1)] emit_turn(2) [OF _ add(2)] emit_turn(1)
  show ?thesis
    by (simp add: analyze_queue_depth_records_def Let_def apply_run_def emit_then_def saturating_sub_def
        ts st emit [simplified])
qed

definition late_run :: "trace_record list" where
  "late_run = [sample_submit_io 0 0 1 10 2 100, sample_submit_io (2 ^ 63) 0 1 11 2 100,
     sample_submit_io (2 ^ 63 + 1) 0 1 12 2 100]"

text \<open>
  At the end of the number range the sampling is wrong: where the next sample time would
  overflow, \<open>emit\_due\_samples\<close> leaves its loop without advancing, so later calls write the same
  sample time again. Here the time \<open>2 ^ 63\<close>, one multiple of the scale, is reported three times.
\<close>

theorem queue_depth_repeats_last_sample:
  "analyze_queue_depth_records vec_write late_run (2 ^ 63) [] = Some (Inr (),
     lines_bytes (depth_header # sample_lines 0 (depth_after (take 1 late_run))
       @ sample_lines (2 ^ 63) (depth_after (take 2 late_run))
       @ sample_lines (2 ^ 63) (depth_after (take 2 late_run))
       @ sample_lines (2 ^ 63) (depth_after late_run)), [])"
proof -
  have "\<exists>s1 s2 s3. apply_record depth_init (late_run ! 0) = (s1, []) \<and> apply_record s1 (late_run ! 1) = (s2, [])
      \<and> apply_record s2 (late_run ! 2) = (s3, [])"
    by (simp add: late_run_def sample_submit_io_def depth_init_def command_key_of_def Let_def)
  then obtain s1 s2 s3 where st: "apply_record depth_init (late_run ! 0) = (s1, [])"
    "apply_record s1 (late_run ! 1) = (s2, [])" "apply_record s2 (late_run ! 2) = (s3, [])" by blast
  have run: "late_run = [late_run ! 0, late_run ! 1, late_run ! 2]" by (simp add: late_run_def)
  have after: "depth_after (take 1 late_run) = s1" "depth_after (take 2 late_run) = s2" "depth_after late_run = s3"
    using st by (subst run, simp add: depth_after_def numeral_2_eq_2)+
  show ?thesis
    unfolding after
    by (subst run, rule analyze_at_range_end [OF _ _ _ st]) (simp_all add: late_run_def sample_submit_io_def)
qed

end
