(* ===== verification/Depth_Percent.thy ===== *)
theory Depth_Percent
  imports Command_Tracker Rust_Io Rust_F64
begin

text \<open>
  \<open>analyze\_queue\_depth\_percent\_records\<close> of \<open>analyze.rs\<close>: at every submit, the depth found before
  it is counted, globally and for its queue; the report gives each depth's share of the submits.
\<close>

section \<open>The loop over the records\<close>

type_synonym distribution = "(u64, u64) btree_map"

record percent_state =
  p_in_flight :: "command_key set"
  p_global_depth :: u64
  p_queue_depths :: "(queue_key, u64) btree_map"
  p_global_distribution :: distribution
  p_queue_distributions :: "(queue_key, distribution) btree_map"
  p_global_samples :: u64
  p_queue_samples :: "(queue_key, u64) btree_map"

definition percent_init :: percent_state where
  "percent_init = \<lparr>p_in_flight = {}, p_global_depth = 0, p_queue_depths = [], p_global_distribution = [],
     p_queue_distributions = [], p_global_samples = 0, p_queue_samples = []\<rparr>"

abbreviation count_up :: "u64 \<Rightarrow> u64" where
  "count_up n \<equiv> n + 1"

fun percent_step :: "percent_state \<Rightarrow> trace_record \<Rightarrow> percent_state \<times> string list" where
  "percent_step st (Submit submit) =
     (let key = command_key_of (s_header submit);
          queue = key_queue key;
          queue_depth = bt_get_or 0 queue (p_queue_depths st);
          st1 = st\<lparr>p_global_distribution := bt_entry (p_global_depth st) 0 count_up (p_global_distribution st),
                   p_queue_distributions :=
                     bt_entry queue [] (bt_entry queue_depth 0 count_up) (p_queue_distributions st),
                   p_global_samples := p_global_samples st + 1,
                   p_queue_samples := bt_entry queue 0 count_up (p_queue_samples st)\<rparr>
      in if key \<in> p_in_flight st1 then (st1, [duplicate_submit_warning key])
         else (st1\<lparr>p_in_flight := insert key (p_in_flight st1),
                   p_global_depth := p_global_depth st1 + 1,
                   p_queue_depths := bt_entry queue 0 count_up (p_queue_depths st1)\<rparr>, []))"
| "percent_step st (Complete completion) =
     (let key = command_key_of (c_header completion)
      in if key \<notin> p_in_flight st then (st, [unmatched_completion_warning key])
         else (st\<lparr>p_in_flight := p_in_flight st - {key},
                  p_global_depth := saturating_sub (p_global_depth st) 1,
                  p_queue_depths := decrement_depth (key_queue key) (p_queue_depths st)\<rparr>, []))"

section \<open>The report\<close>

definition percent_of :: "u64 \<Rightarrow> u64 \<Rightarrow> f64" where
  "percent_of n samples =
     (if samples = 0 then (0, 1)
      else f64_div (f64_mul (f64_of_nat (unat n)) (f64_of_nat 100)) (f64_of_nat (unat samples)))"

definition distribution_line :: "string \<Rightarrow> queue_key option \<Rightarrow> u64 \<Rightarrow> u64 \<times> u64 \<Rightarrow> string" where
  "distribution_line scope queue samples dc =
     (let (depth, n) = dc;
          ids = (case queue of Some q \<Rightarrow> [show_word (qk_ctrl_id q), show_word (qk_qid q)] | None \<Rightarrow> [[], []])
      in join_with tab ([scope] @ ids @ [show_word depth, show_word n, f64_fixed 6 (percent_of n samples)]))"

definition write_distribution ::
  "'w writer \<Rightarrow> 'w \<Rightarrow> string \<Rightarrow> queue_key option \<Rightarrow> distribution \<Rightarrow> u64 \<Rightarrow> (io_error + unit) \<times> 'w" where
  "write_distribution write_all out scope queue distribution samples =
     write_lines write_all (map (distribution_line scope queue samples) distribution) out"

fun write_queue_distributions ::
  "'w writer \<Rightarrow> (queue_key, u64) btree_map \<Rightarrow> (queue_key \<times> distribution) list \<Rightarrow> 'w \<Rightarrow> (io_error + unit) \<times> 'w" where
  "write_queue_distributions write_all queue_samples [] out = (Inr (), out)"
| "write_queue_distributions write_all queue_samples ((queue, distribution) # rest) out =
     (case write_distribution write_all out ''queue'' (Some queue) distribution (bt_get_or 0 queue queue_samples) of
        (Inl e, out') \<Rightarrow> (Inl e, out')
      | (Inr _, out') \<Rightarrow> write_queue_distributions write_all queue_samples rest out')"

definition percent_header :: string where
  "percent_header = join_with tab [''scope'', ''ctrl_id'', ''qid'', ''queue_depth'', ''count'', ''percent'']"

definition analyze_queue_depth_percent_records ::
  "'w writer \<Rightarrow> trace_record list \<Rightarrow> 'w \<Rightarrow> ((io_error + unit) \<times> 'w \<times> string list) outcome" where
  "analyze_queue_depth_percent_records write_all records out =
     out_bind (run_steps (\<lambda>st r. Ret (percent_step st r)) percent_init records) (\<lambda>(st, warnings).
       case write_line write_all percent_header out of
         (Inl e, out') \<Rightarrow> Ret (Inl e, out', warnings)
       | (Inr _, out') \<Rightarrow>
         (case write_distribution write_all out' ''global'' None (p_global_distribution st) (p_global_samples st) of
            (Inl e, out'') \<Rightarrow> Ret (Inl e, out'', warnings)
          | (Inr _, out'') \<Rightarrow>
            (case write_queue_distributions write_all (p_queue_samples st) (p_queue_distributions st) out'' of
               (res, out3) \<Rightarrow> Ret (res, out3, warnings))))"

section \<open>The contract of a tracker\<close>

interpretation percent: total_tracker "\<lambda>st r. Ret (percent_step st r)" p_in_flight
proof unfold_locales
  show "p_in_flight s' = outstanding (p_in_flight s) r" "ws = track_warning (p_in_flight s) r"
    if "Ret (percent_step s r) = Ret (s', ws)" for s r s' ws
    using that by (cases r; auto simp: Let_def split: if_splits)+
qed simp

section \<open>What the distributions count\<close>

text \<open>Of every submit: its queue, and the numbers of commands outstanding before it, in all and on its queue.\<close>

fun depth_samples :: "command_key set \<Rightarrow> trace_record list \<Rightarrow> (queue_key \<times> nat \<times> nat) list" where
  "depth_samples K [] = []"
| "depth_samples K (Submit s # rs) =
     (let key = command_key_of (s_header s); q = key_queue key
      in (q, card K, card (queue_keys q K)) # depth_samples (insert key K) rs)"
| "depth_samples K (Complete c # rs) = depth_samples (K - {command_key_of (c_header c)}) rs"

text \<open>The occurrences of every element of a list, in the order of the elements.\<close>

definition counts_of :: "'k::linorder list \<Rightarrow> ('k, u64) btree_map" where
  "counts_of xs = map (\<lambda>k. (k, of_nat (count_list xs k))) (sorted_list_of_set (set xs))"

definition queue_counts :: "(queue_key \<times> u64) list \<Rightarrow> (queue_key \<times> distribution) list" where
  "queue_counts xs = map (\<lambda>q. (q, counts_of (map snd (filter (\<lambda>x. fst x = q) xs)))) (sorted_list_of_set (fst ` set xs))"

lemma bt_get_keyed: "finite K \<Longrightarrow> bt_get k (map (\<lambda>k. (k, f k)) (sorted_list_of_set K)) = (if k \<in> K then Some (f k) else None)"
  by (simp add: bt_get_def map_of_map_restrict restrict_map_def)

lemma bt_ok_keyed: "bt_ok (map (\<lambda>k. (k, f k)) (sorted_list_of_set K))"
  by (simp add: bt_ok_def comp_def)

lemma bt_get_counts:
  "bt_get k (counts_of xs) = (if k \<in> set xs then Some (of_nat (count_list xs k)) else None)"
  unfolding counts_of_def by (rule bt_get_keyed) simp

lemma bt_ok_counts [simp]: "bt_ok (counts_of xs)"
  unfolding counts_of_def by (rule bt_ok_keyed)

lemma bt_get_or_counts: "bt_get_or 0 k (counts_of xs) = of_nat (count_list xs k)"
  by (auto simp: bt_get_or_def bt_get_counts)

lemma bt_get_queue_counts:
  "bt_get q (queue_counts xs) =
     (if q \<in> fst ` set xs then Some (counts_of (map snd (filter (\<lambda>x. fst x = q) xs))) else None)"
  unfolding queue_counts_def by (rule bt_get_keyed) simp

lemma bt_ok_queue_counts [simp]: "bt_ok (queue_counts xs)"
  unfolding queue_counts_def by (rule bt_ok_keyed)

lemma counts_Nil [simp]: "counts_of [] = []" "queue_counts [] = []"
  by (simp_all add: counts_of_def queue_counts_def)

text \<open>Counting one more element is an update of its entry.\<close>

lemma count_entry: "bt_entry x 0 count_up (counts_of xs) = counts_of (xs @ [x])"
  by (rule bt.items_unique) (auto simp: bt_get_entry bt_get_or_counts bt_get_counts count_list_0_iff)

lemma queue_entry:
  "bt_entry q [] (bt_entry d 0 count_up) (queue_counts xs) = queue_counts (xs @ [(q, d)])"
proof (rule bt.items_unique)
  fix k
  have none: "q \<notin> fst ` set xs \<Longrightarrow> filter (\<lambda>x. fst x = q) xs = []" by (auto simp: filter_empty_conv)
  then have "bt_get_or [] q (queue_counts xs) = counts_of (map snd (filter (\<lambda>x. fst x = q) xs))"
    by (auto simp: bt_get_or_def bt_get_queue_counts)
  then show "bt_get k (bt_entry q [] (bt_entry d 0 count_up) (queue_counts xs)) = bt_get k (queue_counts (xs @ [(q, d)]))"
    using none by (auto simp: bt_get_entry bt_get_queue_counts count_entry)
qed simp_all

lemma counts_total: "length xs < 2 ^ 64 \<Longrightarrow> (\<Sum>(k, n)\<leftarrow>counts_of xs. unat n) = length xs"
proof -
  assume n: "length xs < 2 ^ 64"
  have "unat (of_nat (count_list xs k) :: u64) = count_list xs k" for k
    using count_le_length [of xs k] n by (simp add: unat_of_nat)
  then show ?thesis
    by (simp add: counts_of_def comp_def sum_list_distinct_conv_sum_set sum_count_set)
qed

definition percent_counts :: "percent_state \<Rightarrow> (queue_key \<times> nat \<times> nat) list \<Rightarrow> bool" where
  "percent_counts st ss \<longleftrightarrow>
     p_global_distribution st = counts_of (map (\<lambda>(q, g, d). of_nat g) ss)
     \<and> p_queue_distributions st = queue_counts (map (\<lambda>(q, g, d). (q, of_nat d)) ss)
     \<and> p_global_samples st = of_nat (length ss)
     \<and> p_queue_samples st = counts_of (map fst ss)"

definition percent_depths :: "percent_state \<Rightarrow> bool" where
  "percent_depths st \<longleftrightarrow>
     p_global_depth st = of_nat (card (p_in_flight st))
     \<and> bt_ok (p_queue_depths st)
     \<and> (\<forall>q. bt_get_or 0 q (p_queue_depths st) = of_nat (card (queue_keys q (p_in_flight st))))"

lemma percent_init_ok: "percent_counts percent_init [] \<and> percent_depths percent_init"
  by (simp add: percent_counts_def percent_depths_def percent_init_def queue_keys_def bt_get_or_def bt_get_def)

lemma percent_depths_step:
  assumes "percent_depths st"
  shows "percent_depths (fst (percent_step st r))"
proof (cases r)
  case (Submit s)
  let ?k = "command_key_of (s_header s)"
  have "?k \<notin> p_in_flight st \<Longrightarrow> ?k \<notin> queue_keys q (p_in_flight st)" for q by (simp add: queue_keys_member)
  then show ?thesis
    using assms Submit
    by (auto simp: percent_depths_def Let_def queue_keys_insert)
next
  case (Complete c)
  let ?k = "command_key_of (c_header c)"
  show ?thesis
  proof (cases "?k \<in> p_in_flight st")
    case True
    then have "?k \<in> queue_keys (key_queue ?k) (p_in_flight st)" by (simp add: queue_keys_member)
    then show ?thesis
      using assms Complete True card_keys_remove [OF True] card_keys_remove [of ?k]
      by (auto simp: percent_depths_def Let_def bt_ok_decrement bt_get_or_decrement queue_keys_remove)
  next
    case False
    then show ?thesis using assms Complete by simp
  qed
qed

text \<open>The sample a submit adds.\<close>

lemma percent_counts_submit:
  assumes "percent_counts st ss" and "percent_depths st"
  shows "percent_counts (fst (percent_step st (Submit s)))
    (ss @ [(key_queue (command_key_of (s_header s)), card (p_in_flight st),
            card (queue_keys (key_queue (command_key_of (s_header s))) (p_in_flight st)))])"
  using assms
  by (simp add: percent_counts_def percent_depths_def Let_def count_entry queue_entry)

lemma percent_counts_complete:
  "percent_counts st ss \<Longrightarrow> percent_counts (fst (percent_step st (Complete c))) ss"
  by (auto simp: percent_counts_def Let_def)

lemma run_percent:
  "percent_counts st ss \<Longrightarrow> percent_depths st \<Longrightarrow>
     run_steps (\<lambda>st r. Ret (percent_step st r)) st rs = Ret (st', ws) \<Longrightarrow>
     percent_counts st' (ss @ depth_samples (p_in_flight st) rs)"
proof (induction rs arbitrary: st ss ws)
  case (Cons r rs)
  let ?st = "fst (percent_step st r)"
  obtain ws2 where run: "run_steps (\<lambda>st r. Ret (percent_step st r)) ?st rs = Ret (st', ws2)"
    using Cons.prems(3) by (auto simp: out_bind_Ret split: prod.splits)
  have keys: "p_in_flight ?st = outstanding (p_in_flight st) r"
    using percent.keys_step [of st r ?st "snd (percent_step st r)"] by simp
  show ?case
  proof (cases r)
    case (Submit s)
    then show ?thesis
      using Cons.IH [OF percent_counts_submit [OF Cons.prems(1,2), of s]
          percent_depths_step [OF Cons.prems(2), of "Submit s"], of ws2]
        run keys by (simp add: Let_def)
  next
    case (Complete c)
    then show ?thesis
      using Cons.IH [OF percent_counts_complete [OF Cons.prems(1), of c]
          percent_depths_step [OF Cons.prems(2), of "Complete c"], of ws2]
        run keys by simp
  qed
qed simp

lemma length_depth_samples: "length (depth_samples K rs) \<le> length rs"
  by (induction K rs rule: depth_samples.induct) (auto simp: Let_def)

lemma percent_run_exists: "\<exists>st. run_steps (\<lambda>st r. Ret (percent_step st r)) percent_init rs
    = Ret (st, track_warnings {} rs) \<and> percent_counts st (depth_samples {} rs)"
proof -
  obtain st where "run_steps (\<lambda>st r. Ret (percent_step st r)) percent_init rs = Ret (st, track_warnings {} rs)"
    using percent.run_total [of percent_init rs] by (auto simp: percent_init_def)
  with run_percent [of percent_init "[]" rs st] percent_init_ok show ?thesis
    by (simp add: percent_init_def)
qed

text \<open>The lines of the samples of one scope: each depth that was found, its count, and its share.\<close>

definition share_lines :: "string \<Rightarrow> queue_key option \<Rightarrow> u64 list \<Rightarrow> string list" where
  "share_lines scope queue depths = map (distribution_line scope queue (of_nat (length depths))) (counts_of depths)"

definition depths_on :: "queue_key \<Rightarrow> (queue_key \<times> nat \<times> nat) list \<Rightarrow> u64 list" where
  "depths_on q ss = map (\<lambda>(q, g, d). of_nat d) (filter (\<lambda>s. fst s = q) ss)"

lemma write_queue_lines:
  "write_queue_distributions vec_write samples qds out =
     (Inr (), out @ lines_bytes (concat (map (\<lambda>(q, d). map (distribution_line ''queue'' (Some q) (bt_get_or 0 q samples)) d) qds)))"
  by (induction qds arbitrary: out) (auto simp: write_distribution_def)

lemma queue_share_lines:
  "concat (map (\<lambda>(q, d). map (distribution_line ''queue'' (Some q) (bt_get_or 0 q (counts_of (map fst ss)))) d)
       (queue_counts (map (\<lambda>(q, g, d). (q, of_nat d)) ss)))
     = concat (map (\<lambda>q. share_lines ''queue'' (Some q) (depths_on q ss)) (sorted_list_of_set (fst ` set ss)))"
proof -
  have depths: "map snd (filter (\<lambda>x. fst x = q) (map (\<lambda>(q, g, d). (q, of_nat d)) ss)) = depths_on q ss" for q
    unfolding depths_on_def by (induction ss) auto
  have samples: "count_list (map fst ss) q = length (depths_on q ss)" for q
    unfolding depths_on_def by (induction ss) auto
  have keys: "fst ` set (map (\<lambda>(q, g, d). (q, of_nat d)) ss) = fst ` set ss" by force
  show ?thesis
    unfolding queue_counts_def depths keys bt_get_or_counts samples
    by (simp add: share_lines_def comp_def)
qed

section \<open>Properties\<close>

text \<open>
  C21. The whole report of the depth distribution. A submit (a duplicate one too) is a sample of the
  number of commands outstanding before it, in all and on its own queue. For all samples, and then for
  the samples of every queue that has any, in the order of the queues, the report has one line for each
  depth that was found, in increasing order, with the number of its samples and their share of the samples
  of the same scope; and the numbers of a scope add up to its samples, so the shares are of one whole.
\<close>

theorem depth_percent_report:
  assumes "length records < 2 ^ 64"
  shows "let ss = depth_samples {} records; all_depths = map (\<lambda>(q, g, d). of_nat g) ss;
      queues = sorted_list_of_set (fst ` set ss)
    in analyze_queue_depth_percent_records vec_write records out = Ret (Inr (),
         out @ lines_bytes ([percent_header] @ share_lines ''global'' None all_depths
           @ concat (map (\<lambda>q. share_lines ''queue'' (Some q) (depths_on q ss)) queues)),
         track_warnings {} records)
      \<and> (\<Sum>(d, n)\<leftarrow>counts_of all_depths. unat n) = length all_depths
      \<and> (\<forall>q. (\<Sum>(d, n)\<leftarrow>counts_of (depths_on q ss). unat n) = length (depths_on q ss))"
proof -
  let ?ss = "depth_samples {} records"
  obtain st where run: "run_steps (\<lambda>st r. Ret (percent_step st r)) percent_init records
      = Ret (st, track_warnings {} records)" and pc: "percent_counts st ?ss"
    using percent_run_exists by blast
  have len: "length ?ss < 2 ^ 64" using length_depth_samples [of "{}" records] assms by simp
  have "length (depths_on q ?ss) < 2 ^ 64" for q
    using le_less_trans [OF length_filter_le len] by (simp add: depths_on_def)
  then show ?thesis
    using pc len
    by (simp add: Let_def analyze_queue_depth_percent_records_def run write_distribution_def write_queue_lines
        percent_counts_def queue_share_lines counts_total share_lines_def)
qed

lemma depth_percent_report_witness:
  "analyze_queue_depth_percent_records vec_write sample_run [] = Ret (Inr (),
     lines_bytes (percent_header # map (distribution_line ''global'' None 2) [(0, 1), (1, 1)]
        @ map (distribution_line ''queue'' (Some (QueueKey 0 1)) 2) [(0, 1), (1, 1)]), [])"
proof -
  let ?q = "QueueKey 0 1"
  have none: "queue_keys q {} = {}" for q by (simp add: queue_keys_def)
  have ss: "depth_samples {} sample_run = [(?q, 0, 0), (?q, 1, 1)]"
    by (simp add: sample_run_defs command_key_of_def key_queue_def queue_keys_insert none Let_def)
  have "set [0, 1 :: u64] = {0, 1}" by simp
  moreover have "sorted_list_of_set {0, 1 :: u64} = [0, 1]" by (simp add: insert_Diff_if)
  ultimately have c: "counts_of [0, 1 :: u64] = [(0, 1), (1, 1)]" by (simp add: counts_of_def)
  have d: "depths_on ?q [(?q, 0, 0), (?q, Suc 0, Suc 0)] = [0, 1]" by (simp add: depths_on_def)
  have w: "track_warnings {} sample_run = []" by (simp add: sample_run_defs command_key_of_def)
  have "length sample_run < 2 ^ 64" by (simp add: sample_run_def)
  from conjunct1 [OF depth_percent_report [OF this, of "[]", unfolded Let_def ss w]]
  show ?thesis by (simp add: share_lines_def c d)
qed

end
