(* ===== verification/Trace_Commands.thy ===== *)
theory Trace_Commands
  imports Input_Paths Splice_Correct Throughput Queue_Depth Depth_Percent
begin

text \<open>
  The commands over files: \<open>analyze throughput\<close>, \<open>analyze queue-depth\<close> and
  \<open>analyze queue-depth-percent\<close> (\<open>analyze.rs\<close>) and \<open>splice\<close> (\<open>splice.rs\<close>), from the input paths to
  the output. The scale is read by the crate \<open>humantime\<close>, whose parser is the parameter
  \<open>parse_duration\<close>: it gives the nanoseconds of a duration, or its own error.
\<close>

section \<open>The scale\<close>

datatype 'h scale_error = BadScale 'h | ZeroScale | ScaleTooLarge

definition parse_scale_ns :: "(string \<Rightarrow> 'h + nat) \<Rightarrow> string \<Rightarrow> 'h scale_error + u64" where
  "parse_scale_ns parse_duration scale =
     (case parse_duration scale of
        Inl e \<Rightarrow> Inl (BadScale e)
      | Inr nanos \<Rightarrow>
          if nanos = 0 then Inl ZeroScale
          else if nanos < 2 ^ 64 then Inr (of_nat nanos) else Inl ScaleTooLarge)"

section \<open>Reading the records of all inputs\<close>

text \<open>One file after the other: opened, read to its end, its records appended.\<close>

fun read_files :: "file_system \<Rightarrow> 'e binrw \<Rightarrow> path list \<Rightarrow> 'e command_error + trace_record list" where
  "read_files fs br [] = Inr []"
| "read_files fs br (p # ps) =
     (case fs_open fs p of
        Inl e \<Rightarrow> Inl (Opening p e)
      | Inr s \<Rightarrow>
        (case drain_records br (reader_new s) of
           (raws, Some e, r') \<Rightarrow> Inl (Parsing p e)
         | (raws, None, r') \<Rightarrow> try_bind (read_files fs br ps) (\<lambda>rest. Inr (map raw_record raws @ rest))))"

definition analyze_records ::
  "file_system \<Rightarrow> 'e binrw \<Rightarrow> path list \<Rightarrow> 'e command_error + trace_record list" where
  "analyze_records fs br inputs =
     try_bind (expand_input_paths fs inputs) (\<lambda>input_files.
       if input_files = [] then Inl NoInputFiles else read_files fs br input_files)"

section \<open>The analyze commands\<close>

text \<open>
  A command that fails before its analysis has no output. \<open>Panic\<close> and \<open>None\<close> are those of the
  analysis itself.
\<close>

type_synonym ('h, 'e) analyze_error = "'h scale_error + 'e command_error"

fun with_records :: "'e command_error + trace_record list \<Rightarrow> (trace_record list \<Rightarrow> 'r) \<Rightarrow>
    ('e command_error \<Rightarrow> 'r) \<Rightarrow> 'r" where
  "with_records (Inl e) analyze fail = fail e"
| "with_records (Inr records) analyze fail = analyze records"

definition throughput_command ::
  "(string \<Rightarrow> 'h + nat) \<Rightarrow> file_system \<Rightarrow> 'e binrw \<Rightarrow> 'w writer \<Rightarrow> path list \<Rightarrow> string \<Rightarrow> 'w \<Rightarrow>
     (('h, 'e) analyze_error + (io_error + unit) \<times> 'w \<times> string list) outcome" where
  "throughput_command parse_duration fs br write_all inputs scale out =
     (case parse_scale_ns parse_duration scale of
        Inl e \<Rightarrow> Ret (Inl (Inl e))
      | Inr scale_ns \<Rightarrow>
          with_records (analyze_records fs br inputs)
            (\<lambda>records. out_bind (analyze_throughput_records write_all records scale_ns out) (\<lambda>r. Ret (Inr r)))
            (\<lambda>e. Ret (Inl (Inr e))))"

definition queue_depth_command ::
  "(string \<Rightarrow> 'h + nat) \<Rightarrow> file_system \<Rightarrow> 'e binrw \<Rightarrow> 'w writer \<Rightarrow> path list \<Rightarrow> string \<Rightarrow> 'w \<Rightarrow>
     (('h, 'e) analyze_error + (io_error + unit) \<times> 'w \<times> string list) option" where
  "queue_depth_command parse_duration fs br write_all inputs scale out =
     (case parse_scale_ns parse_duration scale of
        Inl e \<Rightarrow> Some (Inl (Inl e))
      | Inr scale_ns \<Rightarrow>
          with_records (analyze_records fs br inputs)
            (\<lambda>records. map_option Inr (analyze_queue_depth_records write_all records scale_ns out))
            (\<lambda>e. Some (Inl (Inr e))))"

definition queue_depth_percent_command ::
  "file_system \<Rightarrow> 'e binrw \<Rightarrow> 'w writer \<Rightarrow> path list \<Rightarrow> 'w \<Rightarrow>
     ('e command_error + (io_error + unit) \<times> 'w \<times> string list) outcome" where
  "queue_depth_percent_command fs br write_all inputs out =
     with_records (analyze_records fs br inputs)
       (\<lambda>records. out_bind (analyze_queue_depth_percent_records write_all records out) (\<lambda>r. Ret (Inr r)))
       (\<lambda>e. Ret (Inl e))"

section \<open>The splice command\<close>

text \<open>
  The file operations on the output. \<open>path\_parent\<close> is \<open>Path::parent\<close> up to redundant separators.
\<close>

record 'w out_ops =
  oo_create_dir_all :: "path \<Rightarrow> io_error + unit"
  oo_create :: "path \<Rightarrow> io_error + 'w"
  oo_write_all :: "'w writer"
  oo_flush :: "'w \<Rightarrow> io_error + 'w"

definition path_parent :: "path \<Rightarrow> path option" where
  "path_parent p =
     (if path_components p = [] then None
      else Some ((if starts_with ''/'' p then ''/'' else []) @ join_with ''/'' (butlast (path_components p))))"

definition create_parent :: "'w out_ops \<Rightarrow> path \<Rightarrow> 'e command_error + unit" where
  "create_parent oo out =
     (case path_parent out of
        None \<Rightarrow> Inr ()
      | Some parent \<Rightarrow>
          if parent = [] then Inr ()
          else (case oo_create_dir_all oo parent of Inl e \<Rightarrow> Inl (CreatingDir parent e) | Inr _ \<Rightarrow> Inr ()))"

fun open_streams :: "file_system \<Rightarrow> path list \<Rightarrow> 'e command_error + (string \<times> source) list" where
  "open_streams fs [] = Inr []"
| "open_streams fs (p # ps) =
     (case fs_open fs p of
        Inl e \<Rightarrow> Inl (Opening p e)
      | Inr s \<Rightarrow> try_bind (open_streams fs ps) (\<lambda>rest. Inr ((p, s) # rest)))"

definition splice_command ::
  "file_system \<Rightarrow> 'w out_ops \<Rightarrow> 'e binrw \<Rightarrow> path list \<Rightarrow> path \<Rightarrow>
     ('e command_error + u64 \<times> 'w \<times> string list) option" where
  "splice_command fs oo br inputs out =
     (case try_bind (expand_input_paths fs inputs) (\<lambda>input_files.
             if input_files = [] then Inl NoInputFiles
             else try_bind (create_parent oo out) (\<lambda>_. open_streams fs input_files)) of
        Inl e \<Rightarrow> Some (Inl e)
      | Inr streams \<Rightarrow>
        (case oo_create oo out of
           Inl e \<Rightarrow> Some (Inl (Creating out e))
         | Inr output \<Rightarrow>
             map_option (\<lambda>(res, st).
               case res of
                 Inl e \<Rightarrow> Inl (Splicing e)
               | Inr written \<Rightarrow>
                   (case oo_flush oo (st_output st) of
                      Inl e \<Rightarrow> Inl (Flushing out e)
                    | Inr output' \<Rightarrow> Inr (written, output', st_warnings st)))
               (splice_named_streams br (oo_write_all oo) streams output)))"

section \<open>Facts\<close>

lemma scale_not_zero: "parse_scale_ns pd scale = Inr s \<Longrightarrow> s \<noteq> 0"
  by (auto simp: parse_scale_ns_def unat_of_nat dest: arg_cong [where f = unat] split: sum.splits if_splits)

lemma write_buckets_total:
  "scale_ns \<noteq> 0 \<Longrightarrow> write_buckets w scale_ns last_offset bs out \<noteq> Panic"
proof (induction bs arbitrary: out)
  case (Cons b bs)
  obtain k v where b: "b = (k, v)" by (cases b)
  have "\<not> scale_ns < 1" using Cons.prems by (simp add: word_less_1)
  then show ?case
    using Cons by (auto simp: b throughput_bucket_duration_ns_def split: prod.splits sum.splits)
qed simp

lemma analyze_throughput_total:
  assumes "scale_ns \<noteq> 0"
  shows "analyze_throughput_records w records scale_ns out \<noteq> Panic"
proof -
  obtain st where st: "run_steps (throughput_step scale_ns) throughput_init records
      = Ret (st, track_warnings {} records)"
    using run_throughput [OF assms, of records] by blast
  have "write_buckets w scale_ns l bs out' \<noteq> Panic" for l bs out'
    by (rule write_buckets_total [OF assms])
  then show ?thesis
    by (auto simp: analyze_throughput_records_def st out_bind_Panic Let_def split: prod.splits sum.splits)
qed

lemma analyze_depth_total:
  assumes "scale_ns \<noteq> 0"
  shows "analyze_queue_depth_records w records scale_ns out \<noteq> None"
proof -
  have "depth_loop w scale_ns run records \<noteq> None" for run
    by (rule depth_loop_total [OF assms])
  then show ?thesis
    by (simp add: analyze_queue_depth_records_def del: not_None_eq split: prod.split sum.split)
qed

lemma analyze_percent_total: "analyze_queue_depth_percent_records w records out \<noteq> Panic"
proof -
  obtain st where "run_steps (\<lambda>st r. Ret (percent_step st r)) percent_init records
      = Ret (st, track_warnings {} records)"
    using percent_run_exists by blast
  then show ?thesis
    by (simp add: analyze_queue_depth_percent_records_def split: prod.split sum.split)
qed

text \<open>On a byte vector nothing interrupts the loop, so its warnings are those of the tracker.\<close>

lemma emit_vec_ok:
  assumes "emit_due_samples w st scale_ns limit incl n out = Some r"
  shows "w = vec_write \<longrightarrow> \<not> isl (fst r)"
proof (rule emit_due_samples.raw_induct [where P = "\<lambda>w st s l i n out r. w = vec_write \<longrightarrow> \<not> isl (fst r)",
      OF _ assms], goal_cases)
  case (1 emit w st scale_ns limit incl m out r)
  from 1(2) show ?case
    by (auto simp: write_depth_sample_def split: if_splits option.splits dest!: 1(1))
qed

lemma emit_then_warnings:
  assumes "emit_then vec_write scale_ns limit incl run rest = Some (res, run')"
  shows "\<exists>run1. rest run1 = Some (res, run') \<and> dr_state run1 = dr_state run \<and> dr_warnings run1 = dr_warnings run
    \<and> dr_first_ts run1 = dr_first_ts run \<and> dr_offset run1 = dr_offset run"
proof -
  obtain r m out where e: "emit_due_samples vec_write (dr_state run) scale_ns limit incl (dr_next run) (dr_out run)
      = Some (r, m, out)"
    using assms by (auto simp: emit_then_def bind_eq_Some_conv)
  then have "\<not> isl r" using emit_vec_ok by fastforce
  then show ?thesis
    using assms e by (cases r) (auto simp: emit_then_def)
qed

lemma depth_loop_warnings:
  "depth_loop vec_write scale_ns run rs = Some (res, run') \<Longrightarrow>
     res = Inr () \<and> dr_warnings run' = dr_warnings run @ track_warnings (d_in_flight (dr_state run)) rs"
proof (induction rs arbitrary: run)
  case Nil
  then show ?case
    by (auto split: option.splits dest!: emit_then_warnings)
next
  case (Cons r rs)
  let ?ts = "h_timestamp_ns (record_header r)"
  define run1 where "run1 = run\<lparr>dr_first_ts := Some (case dr_first_ts run of None \<Rightarrow> ?ts | Some t \<Rightarrow> t)\<rparr>"
  define offset where "offset = saturating_sub ?ts (case dr_first_ts run of None \<Rightarrow> ?ts | Some t \<Rightarrow> t)"
  have [simp]: "dr_state run1 = dr_state run" "dr_warnings run1 = dr_warnings run" "dr_offset run1 = dr_offset run"
    by (simp_all add: run1_def)
  have step: "res = Inr () \<and> dr_warnings run' = dr_warnings run @ track_warnings (d_in_flight (dr_state run)) (r # rs)"
    if "depth_loop vec_write scale_ns (apply_run run2 r) rs = Some (res, run')"
      "dr_state run2 = dr_state run" "dr_warnings run2 = dr_warnings run" for run2
  proof -
    obtain st ws where st: "apply_record (dr_state run) r = (st, ws)" by (cases "apply_record (dr_state run) r")
    show ?thesis
      using Cons.IH [OF that(1)] depth.keys_step [of "dr_state run" r st ws] depth.warnings_step [of "dr_state run" r st ws]
      by (simp add: apply_run_def that(2,3) st)
  qed
  note loop = Cons.prems [unfolded depth_loop.simps Let_def, folded run1_def offset_def]
  show ?case
  proof (cases "dr_offset run")
    case None
    then show ?thesis using loop step by simp
  next
    case (Some prev)
    show ?thesis
    proof (cases "offset = prev")
      case True
      then show ?thesis using loop Some step [of run1] by simp
    next
      case False
      then have "emit_then vec_write scale_ns prev True run1 (\<lambda>run2. emit_then vec_write scale_ns offset False run2
          (\<lambda>run3. depth_loop vec_write scale_ns (apply_run (run3\<lparr>dr_offset := Some offset\<rparr>) r) rs)) = Some (res, run')"
        using loop Some by simp
      from emit_then_warnings [OF this] obtain run2 where run2: "dr_state run2 = dr_state run" "dr_warnings run2 = dr_warnings run"
        and e: "emit_then vec_write scale_ns offset False run2
          (\<lambda>run3. depth_loop vec_write scale_ns (apply_run (run3\<lparr>dr_offset := Some offset\<rparr>) r) rs) = Some (res, run')"
        by auto
      from emit_then_warnings [OF e] obtain run3 where
        "depth_loop vec_write scale_ns (apply_run (run3\<lparr>dr_offset := Some offset\<rparr>) r) rs = Some (res, run')"
        "dr_state run3 = dr_state run" "dr_warnings run3 = dr_warnings run"
        using run2 by auto
      then show ?thesis using step [of "run3\<lparr>dr_offset := Some offset\<rparr>"] by simp
    qed
  qed
qed

lemma percent_report_warnings:
  "\<exists>out'. analyze_queue_depth_percent_records vec_write records out = Ret (Inr (), out', track_warnings {} records)"
proof -
  have w: "\<exists>out'. write_queue_distributions vec_write qs ds out = (Inr (), out')" for qs ds out
    by (induction vec_write qs ds out rule: write_queue_distributions.induct)
      (auto simp: write_distribution_def)
  obtain st where st: "run_steps (\<lambda>st r. Ret (percent_step st r)) percent_init records
      = Ret (st, track_warnings {} records)"
    using percent_run_exists by blast
  define out1 where "out1 = out @ lines_bytes [percent_header]"
  define out2 where "out2 = out1 @ lines_bytes (map (distribution_line ''global'' None (p_global_samples st)) (p_global_distribution st))"
  obtain out' where "write_queue_distributions vec_write (p_queue_samples st) (p_queue_distributions st) out2 = (Inr (), out')"
    using w by blast
  then show ?thesis
    by (simp add: analyze_queue_depth_percent_records_def write_distribution_def st out1_def out2_def)
qed

lemma depth_report_warnings:
  assumes "scale_ns \<noteq> 0"
  shows "\<exists>out'. analyze_queue_depth_records vec_write records scale_ns out
    = Some (Inr (), out', track_warnings {} records)"
proof -
  let ?run = "\<lparr>dr_state = depth_init, dr_first_ts = None, dr_offset = None, dr_next = 0,
    dr_out = out @ lines_bytes [depth_header], dr_warnings = []\<rparr>"
  have "depth_loop vec_write scale_ns ?run records \<noteq> None" by (rule depth_loop_total [OF assms])
  then obtain res run' where "depth_loop vec_write scale_ns ?run records = Some (res, run')" by auto
  moreover from depth_loop_warnings [OF this]
  have "res = Inr ()" "dr_warnings run' = track_warnings {} records"
    by (simp_all add: depth_init_def)
  ultimately show ?thesis by (simp add: analyze_queue_depth_records_def)
qed

lemma throughput_report_warnings:
  assumes "scale_ns \<noteq> 0"
  shows "\<exists>out'. analyze_throughput_records vec_write records scale_ns out
    = Ret (Inr (), out', track_warnings {} records)"
proof -
  obtain st where st: "run_steps (throughput_step scale_ns) throughput_init records
      = Ret (st, track_warnings {} records)"
    using run_throughput [OF assms, of records] by blast
  obtain out' where "write_buckets vec_write scale_ns (case t_last_offset st of None \<Rightarrow> 0 | Some prev \<Rightarrow> prev)
      (t_buckets st) (out @ lines_bytes [throughput_header]) = Ret (Inr (), out')"
    using write_buckets_vec [OF assms] by blast
  then show ?thesis by (simp add: analyze_throughput_records_def st)
qed

lemma throughput_returns: "throughput_command pd fs br w inputs scale out \<noteq> Panic"
  using analyze_throughput_total [of _ w _ out] scale_not_zero [of pd scale]
  by (cases "parse_scale_ns pd scale"; cases "analyze_records fs br inputs")
    (auto simp: throughput_command_def out_bind_Panic)

lemma queue_depth_returns: "queue_depth_command pd fs br w inputs scale out \<noteq> None"
  using analyze_depth_total [of _ w _ out] scale_not_zero [of pd scale]
  by (cases "parse_scale_ns pd scale"; cases "analyze_records fs br inputs") (auto simp: queue_depth_command_def)

lemma percent_returns: "queue_depth_percent_command fs br w inputs out \<noteq> Panic"
  using analyze_percent_total [of w _ out]
  by (cases "analyze_records fs br inputs") (auto simp: queue_depth_percent_command_def out_bind_Panic)

text \<open>A file that opens to a source of whole records.\<close>

definition file_delivers :: "file_system \<Rightarrow> path \<Rightarrow> byte list list \<Rightarrow> bool" where
  "file_delivers fs p bss \<longleftrightarrow>
     (case fs_open fs p of
        Inl e \<Rightarrow> False
      | Inr s \<Rightarrow> steady s \<and> source_bytes s = concat bss \<and> list_all valid_record bss)"

lemma read_files_delivers:
  assumes br: "binrw_le br"
  shows "list_all2 (file_delivers fs) files bsss \<Longrightarrow>
    read_files fs br files = Inr (map record_of (concat bsss))"
proof (induction files bsss rule: list_all2_induct)
  case (Cons p ps bss bsss)
  then obtain s where s: "fs_open fs p = Inr s" "steady s" "source_bytes s = concat bss" "list_all valid_record bss"
    by (auto simp: file_delivers_def split: sum.splits)
  have "\<exists>r'. drain_records br (reader_new s) = (raws_at 0 bss, None, r')"
    using drain_is_parse_stream [OF s(2), of br 0] parse_stream_complete [OF br, of 0 "concat bss" "raws_at 0 bss"]
      s by (auto simp: reader_new_def)
  then show ?case using Cons.IH s(1) by auto
qed simp

lemma open_streams_delivers:
  "list_all2 (file_delivers fs) files bsss \<Longrightarrow>
     \<exists>streams. open_streams fs files = (Inr streams :: 'e command_error + _) \<and> delivers streams bsss"
proof (induction files bsss rule: list_all2_induct)
  case Nil
  then show ?case by (simp add: delivers_def)
next
  case (Cons p ps bss bsss)
  then obtain s streams where s: "fs_open fs p = Inr s" "steady s" "source_bytes s = concat bss" "list_all valid_record bss"
    and streams: "open_streams fs ps = (Inr streams :: 'e command_error + _)" "delivers streams bsss"
    by (auto simp: file_delivers_def split: sum.splits)
  have "delivers ((p, s) # streams) (bss # bsss)"
    using s(2-4) streams(2) by (auto simp: delivers_def nth_Cons split: nat.splits)
  then show ?case using s(1) streams(1) by simp
qed

text \<open>An output that is kept in memory.\<close>

definition vec_ops :: "byte list out_ops" where
  "vec_ops = \<lparr>oo_create_dir_all = (\<lambda>_. Inr ()), oo_create = (\<lambda>_. Inr []), oo_write_all = vec_write, oo_flush = Inr\<rparr>"

text \<open>An output of files: creating a directory, creating an empty file and flushing it may fail.\<close>

definition file_ops ::
  "(path \<Rightarrow> io_error + unit) \<Rightarrow> (path \<Rightarrow> io_error option) \<Rightarrow> (byte list \<Rightarrow> io_error + byte list) \<Rightarrow> byte list out_ops" where
  "file_ops mkdir create flush =
     \<lparr>oo_create_dir_all = mkdir, oo_create = (\<lambda>p. case create p of None \<Rightarrow> Inr [] | Some e \<Rightarrow> Inl e),
      oo_write_all = vec_write, oo_flush = flush\<rparr>"

text \<open>The directory that \<open>splice\<close> makes for its output, if the path names one.\<close>

definition output_dir :: "path \<Rightarrow> path option" where
  "output_dir out = (case path_parent out of None \<Rightarrow> None | Some d \<Rightarrow> if d = [] then None else Some d)"

lemma create_parent_dir:
  "create_parent oo out = (case output_dir out of None \<Rightarrow> Inr ()
     | Some d \<Rightarrow> (case oo_create_dir_all oo d of Inl e \<Rightarrow> Inl (CreatingDir d e) | Inr _ \<Rightarrow> Inr ()))"
  by (auto simp: create_parent_def output_dir_def split: option.split)

lemma splice_command_files:
  assumes "binrw_le br" and "expand_input_paths fs inputs = (Inr files :: 'e command_error + path list)"
    and "files \<noteq> []" and "list_all2 (file_delivers fs) files bsss" and "coherent H"
    and "\<forall>bss \<in> set bsss. records_sorted bss \<and> length (concat bss) < 2 ^ 64
      \<and> (\<forall>b \<in> set bss. header_of b \<in> H)"
  obtains obss where "mset obss = mset (concat bsss)" "list_all valid_record obss" "records_sorted obss"
    "\<And>mkdir create flush out. splice_command fs (file_ops mkdir create flush) (br :: 'e binrw) inputs out = Some (
       case (case output_dir out of None \<Rightarrow> Inr ()
             | Some d \<Rightarrow> (case mkdir d of Inl e \<Rightarrow> Inl (CreatingDir d e) | Inr _ \<Rightarrow> Inr ())) of
         Inl e \<Rightarrow> Inl e
       | Inr _ \<Rightarrow>
         (case create out of
            Some e \<Rightarrow> Inl (Creating out e)
          | None \<Rightarrow>
            (case flush (concat obss) of
               Inl e \<Rightarrow> Inl (Flushing out e)
             | Inr written \<Rightarrow> Inr (of_nat (length (concat obss)), written, []))))"
proof -
  obtain streams where streams: "open_streams fs files = (Inr streams :: 'e command_error + _)" "delivers streams bsss"
    using open_streams_delivers [OF assms(4)] by blast
  obtain obss st where obss: "splice_named_streams br vec_write streams [] = Some (Inr (of_nat (length (concat obss))), st)"
    "st_output st = concat obss" "mset obss = mset (concat bsss)" "list_all valid_record obss" "records_sorted obss" "st_warnings st = []"
    using splice_delivers_sorted [OF assms(1) streams(2) assms(5,6)] by blast
  show thesis
    by (rule that [OF obss(3,4,5)], use assms(2,3) streams(1) obss(1,2,6) in
        \<open>simp add: splice_command_def create_parent_dir file_ops_def del: length_concat split: option.split sum.split\<close>)
qed

lemma vec_ops_files: "vec_ops = file_ops (\<lambda>_. Inr ()) (\<lambda>_. None) Inr"
  by (simp add: vec_ops_def file_ops_def)

lemma splice_command_delivers:
  assumes "binrw_le br" and "expand_input_paths fs inputs = (Inr files :: 'e command_error + path list)"
    and "files \<noteq> []" and "list_all2 (file_delivers fs) files bsss" and "coherent H"
    and "\<forall>bss \<in> set bsss. records_sorted bss \<and> length (concat bss) < 2 ^ 64
      \<and> (\<forall>b \<in> set bss. header_of b \<in> H)"
  shows "\<exists>obss. splice_command fs vec_ops (br :: 'e binrw) inputs out
      = Some (Inr (of_nat (length (concat obss)), concat obss, []))
    \<and> mset obss = mset (concat bsss) \<and> list_all valid_record obss \<and> records_sorted obss"
proof (rule splice_command_files [OF assms])
  fix obss
  assume "mset obss = mset (concat bsss)" "list_all valid_record obss" "records_sorted obss"
    and run: "\<And>mkdir create flush out. splice_command fs (file_ops mkdir create flush) br inputs out = Some (
       case (case output_dir out of None \<Rightarrow> Inr ()
             | Some d \<Rightarrow> (case mkdir d of Inl e \<Rightarrow> Inl (CreatingDir d e) | Inr _ \<Rightarrow> Inr ())) of
         Inl e \<Rightarrow> Inl e
       | Inr _ \<Rightarrow>
         (case create out of
            Some e \<Rightarrow> Inl (Creating out e)
          | None \<Rightarrow>
            (case flush (concat obss) of
               Inl e \<Rightarrow> Inl (Flushing out e)
             | Inr written \<Rightarrow> Inr (of_nat (length (concat obss)), written, []))))"
  then show ?thesis
    unfolding vec_ops_files run by (intro exI [of _ obss]) (simp split: option.split)
qed

section \<open>Properties\<close>

text \<open>
  Whatever the files hold, however their reads behave and whatever the output does, the
  analyze commands return: the throughput report divides by no zero and clamps to no empty range,
  and the sampling loop of the queue depths ends, because \<open>parse\_scale\_ns\<close> refuses a zero scale.
\<close>

theorem analyze_commands_return:
  "throughput_command pd fs br write_all inputs scale out \<noteq> Panic
   \<and> queue_depth_command pd fs br write_all inputs scale out \<noteq> None
   \<and> queue_depth_percent_command fs br write_all inputs out \<noteq> Panic"
  by (simp add: throughput_returns queue_depth_returns percent_returns)

text \<open>Two captures: CPU 0 saw the completion of a command that CPU 1 had submitted.\<close>

definition migrated_submit :: trace_record where
  "migrated_submit = sample_submit_io 10 0 1 7 2 512"

definition migrated_completion :: trace_record where
  "migrated_completion = sample_completion 20 0 1 7"

definition migrated_fs :: file_system where
  "migrated_fs = \<lparr>fs_is_dir = (\<lambda>p. False), fs_is_file = (\<lambda>p. True), fs_read_dir = (\<lambda>p. Inl (IoError Interrupted [])),
     fs_open = (\<lambda>p. if p = ''cpu0.bin'' then Inr [Data (wire_record migrated_completion)]
                    else if p = ''cpu1.bin'' then Inr [Data (wire_record migrated_submit)]
                    else Inr [Data (wire_record migrated_submit @ wire_record migrated_completion)])\<rparr>"

lemma migrated_wf:
  "wf_record migrated_submit" "wf_header (record_header migrated_submit) (length (wire_record migrated_submit))"
  "wf_record migrated_completion" "wf_header (record_header migrated_completion) (length (wire_record migrated_completion))"
  by (simp_all add: migrated_submit_def migrated_completion_def sample_submit_io_def sample_completion_def
      wf_header_def wire_submit_fixed_def)

lemma migrated_valid: "valid_record (wire_record migrated_submit)" "valid_record (wire_record migrated_completion)"
  by (rule valid_wire; rule migrated_wf)+

lemma migrated_records:
  "record_of (wire_record migrated_submit) = migrated_submit"
  "record_of (wire_record migrated_completion) = migrated_completion"
  by (simp_all add: record_of_wire migrated_wf)

lemma migrated_names: "expand_input_paths migrated_fs [''cpu0.bin'', ''cpu1.bin''] = Inr [''cpu0.bin'', ''cpu1.bin'']"
  "expand_input_paths migrated_fs [''spliced.bin''] = Inr [''spliced.bin'']"
proof -
  have names: "file_name ''cpu0.bin'' = Some ''cpu0.bin''" "file_name ''cpu1.bin'' = Some ''cpu1.bin''" by code_simp+
  have "cpu_bin_name 0 = ''cpu0.bin''" "cpu_bin_name 1 = ''cpu1.bin''" by code_simp+
  then have cpus: "parse_cpu_bin ''cpu0.bin'' = Some 0" "parse_cpu_bin ''cpu1.bin'' = Some 1"
    using parse_cpu_bin_name [of 0] parse_cpu_bin_name [of 1] by simp_all
  show "expand_input_paths migrated_fs [''cpu0.bin'', ''cpu1.bin''] = Inr [''cpu0.bin'', ''cpu1.bin'']"
    by (simp add: expand_input_paths_def migrated_fs_def names cpus sort_input_path_def)
  show "expand_input_paths migrated_fs [''spliced.bin''] = Inr [''spliced.bin'']"
    by (simp add: expand_input_paths_def migrated_fs_def)
qed

lemma migrated_files:
  "list_all2 (file_delivers migrated_fs) [''cpu0.bin'', ''cpu1.bin'']
     [[wire_record migrated_completion], [wire_record migrated_submit]]"
  "list_all2 (file_delivers migrated_fs) [''spliced.bin''] [[wire_record migrated_submit, wire_record migrated_completion]]"
proof -
  have "wire_record migrated_completion \<noteq> []" "wire_record migrated_submit \<noteq> []"
    using migrated_valid by (simp_all add: valid_record_nonempty)
  then show "list_all2 (file_delivers migrated_fs) [''cpu0.bin'', ''cpu1.bin'']
     [[wire_record migrated_completion], [wire_record migrated_submit]]"
  "list_all2 (file_delivers migrated_fs) [''spliced.bin''] [[wire_record migrated_submit, wire_record migrated_completion]]"
    using migrated_valid by (simp_all add: file_delivers_def migrated_fs_def)
qed

lemma analyze_records_delivers:
  assumes "binrw_le br" and "expand_input_paths fs inputs = (Inr files :: 'e command_error + path list)"
    and "files \<noteq> []" and "list_all2 (file_delivers fs) files bsss"
  shows "analyze_records fs (br :: 'e binrw) inputs = Inr (map record_of (concat bsss))"
  using assms by (simp add: analyze_records_def read_files_delivers)

lemma migrated_headers:
  "header_of (wire_record migrated_submit) = record_header migrated_submit"
  "header_of (wire_record migrated_completion) = record_header migrated_completion"
  by simp_all

lemma migrated_sorted:
  "\<forall>bss \<in> set [[wire_record migrated_completion], [wire_record migrated_submit]].
     records_sorted bss \<and> length (concat bss) < 2 ^ 64 \<and> (\<forall>b \<in> set bss. header_of b \<in> {h. h_seq h = 0})"
  by (simp add: records_sorted_def migrated_submit_def migrated_completion_def sample_submit_io_def
      sample_completion_def wire_submit_fixed_def)



text \<open>
  Records of distinct times without sequence numbers are in one order only.
\<close>

lemma sorted_by_time:
  assumes "mset obss = mset bss" and "records_sorted obss" and "\<forall>b \<in> set bss. h_seq (header_of b) = 0"
    and "distinct (map (h_timestamp_ns \<circ> header_of) bss)"
  shows "obss = sort_key (h_timestamp_ns \<circ> header_of) bss"
proof -
  let ?f = "h_timestamp_ns \<circ> header_of"
  have set: "set obss = set bss" using assms(1) by (metis set_mset_mset)
  then have "\<forall>b \<in> set obss. h_seq (header_of b) = 0" using assms(3) by simp
  moreover have "h_timestamp_ns a \<le> h_timestamp_ns b" if "h_seq a = 0" "record_order a b \<noteq> Greater" for a b
    using that by (auto simp: record_order_def ord_cmp_def split: if_splits)
  ultimately have srt: "sorted (map ?f obss)"
    using assms(2) unfolding records_sorted_def by (induction obss) auto
  have "mset (map ?f obss) = mset (map ?f (sort_key ?f bss))" using assms(1) by (simp add: mset_map)
  then have "map ?f obss = map ?f (sort_key ?f bss)"
    using srt by (metis properties_for_sort sorted_sort_key)
  moreover have "inj_on ?f (set obss \<union> set (sort_key ?f bss))"
    using assms(4) set by (simp add: distinct_map)
  ultimately show ?thesis by (rule map_inj_on)
qed

text \<open>What the three analyses warn of, on the same inputs.\<close>

definition analyses_warn ::
  "(string \<Rightarrow> 'h + nat) \<Rightarrow> file_system \<Rightarrow> 'e binrw \<Rightarrow> path list \<Rightarrow> string \<Rightarrow> string list \<Rightarrow> bool" where
  "analyses_warn pd fs br inputs scale ws \<longleftrightarrow> (\<exists>out1 out2 out3.
     throughput_command pd fs br vec_write inputs scale [] = Ret (Inr (Inr (), out1, ws))
     \<and> queue_depth_command pd fs br vec_write inputs scale [] = Some (Inr (Inr (), out2, ws))
     \<and> queue_depth_percent_command fs br vec_write inputs [] = Ret (Inr (Inr (), out3, ws)))"

lemma analyses_warn_records:
  assumes "parse_scale_ns pd scale = Inr scale_ns" and "analyze_records fs br inputs = Inr records"
  shows "analyses_warn pd fs br inputs scale (track_warnings {} records)"
proof -
  have s: "scale_ns \<noteq> 0" by (rule scale_not_zero [OF assms(1)])
  obtain out1 out2 out3 where
    "analyze_throughput_records vec_write records scale_ns [] = Ret (Inr (), out1, track_warnings {} records)"
    "analyze_queue_depth_records vec_write records scale_ns [] = Some (Inr (), out2, track_warnings {} records)"
    "analyze_queue_depth_percent_records vec_write records [] = Ret (Inr (), out3, track_warnings {} records)"
    using throughput_report_warnings [OF s] depth_report_warnings [OF s] percent_report_warnings by metis
  then show ?thesis
    by (simp add: analyses_warn_def throughput_command_def queue_depth_command_def queue_depth_percent_command_def assms)
qed

text \<open>
  C39. The analyses take the records of their files one file after the other: on the captures of
  several CPUs (records in order, without sequence numbers, at distinct times) all three succeed and
  warn of what is unmatched in the order of the files, and on the file that \<open>splice\<close> writes of the
  same captures they warn of what is unmatched in the order of time. A command that moved between CPUs
  is unmatched in the first and not in the second.
\<close>

theorem analysis_needs_splice:
  assumes "binrw_le br" and "expand_input_paths fs inputs = (Inr files :: 'e command_error + path list)"
    and "files \<noteq> []" and "list_all2 (file_delivers fs) files bsss"
    and "\<forall>bss \<in> set bsss. records_sorted bss \<and> length (concat bss) < 2 ^ 64"
    and "\<forall>b \<in> set (concat bsss). h_seq (header_of b) = 0"
    and "distinct (map (h_timestamp_ns \<circ> header_of) (concat bsss))"
    and "parse_scale_ns pd scale = Inr scale_ns"
    and "expand_input_paths fs2 [out] = (Inr [out] :: 'e command_error + path list)"
    and "\<forall>n file ws. splice_command fs vec_ops (br :: 'e binrw) inputs out = Some (Inr (n, file, ws)) \<longrightarrow>
      (\<exists>s. fs_open fs2 out = Inr s \<and> steady s \<and> source_bytes s = file)"
  shows "analyses_warn pd fs br inputs scale (track_warnings {} (map record_of (concat bsss)))
    \<and> analyses_warn pd fs2 br [out] scale
        (track_warnings {} (map record_of (sort_key (h_timestamp_ns \<circ> header_of) (concat bsss))))"
proof
  show "analyses_warn pd fs br inputs scale (track_warnings {} (map record_of (concat bsss)))"
    by (rule analyses_warn_records [OF assms(8) analyze_records_delivers [OF assms(1-4)]])
  have hs: "\<forall>bss \<in> set bsss. records_sorted bss \<and> length (concat bss) < 2 ^ 64 \<and> (\<forall>b \<in> set bss. header_of b \<in> {h. h_seq h = 0})"
    using assms(5,6) by auto
  from splice_command_delivers [OF assms(1-4) coherent_unsequenced this, of out] obtain obss where
    o: "splice_command fs vec_ops br inputs out = Some (Inr (of_nat (length (concat obss)), concat obss, []))"
      "mset obss = mset (concat bsss)" "list_all valid_record obss" "records_sorted obss" by blast
  have eq: "obss = sort_key (h_timestamp_ns \<circ> header_of) (concat bsss)"
    by (rule sorted_by_time [OF o(2,4) assms(6,7)])
  have "list_all2 (file_delivers fs2) [out] [obss]"
    using assms(10) o(1,3) by (auto simp: file_delivers_def)
  then have "analyze_records fs2 br [out] = Inr (map record_of (concat [obss]))"
    using analyze_records_delivers [OF assms(1,9), of "[obss]"] by simp
  from analyses_warn_records [OF assms(8) this]
  show "analyses_warn pd fs2 br [out] scale
      (track_warnings {} (map record_of (sort_key (h_timestamp_ns \<circ> header_of) (concat bsss))))"
    by (simp add: eq)
qed

lemma analysis_needs_splice_witness:
  "analyses_warn (\<lambda>_. Inr 1000 :: unit + nat) migrated_fs le_binrw [''cpu0.bin'', ''cpu1.bin''] ''1us''
       [unmatched_completion_warning (command_key_of (record_header migrated_completion))]
   \<and> analyses_warn (\<lambda>_. Inr 1000 :: unit + nat) migrated_fs le_binrw [''spliced.bin''] ''1us'' []"
proof -
  have scale: "parse_scale_ns (\<lambda>_. Inr 1000 :: unit + nat) ''1us'' = Inr 1000" by (simp add: parse_scale_ns_def)
  have files: "\<forall>bss \<in> set [[wire_record migrated_completion], [wire_record migrated_submit]].
      records_sorted bss \<and> length (concat bss) < 2 ^ 64"
    "\<forall>b \<in> set (concat [[wire_record migrated_completion], [wire_record migrated_submit]]). h_seq (header_of b) = 0"
    using migrated_sorted by auto
  have warns: "track_warnings {} [migrated_completion, migrated_submit]
      = [unmatched_completion_warning (command_key_of (record_header migrated_completion))]"
    "track_warnings {} [migrated_submit, migrated_completion] = []"
    by (simp_all add: migrated_submit_def migrated_completion_def sample_submit_io_def sample_completion_def command_key_of_def)
  have times: "h_timestamp_ns (header_of (wire_record migrated_submit)) = 10"
    "h_timestamp_ns (header_of (wire_record migrated_completion)) = 20"
    by (simp_all add: migrated_submit_def migrated_completion_def sample_submit_io_def sample_completion_def)
  then have times': "distinct (map (h_timestamp_ns \<circ> header_of) (concat [[wire_record migrated_completion], [wire_record migrated_submit]]))"
    by simp
  have order: "sort_key (h_timestamp_ns \<circ> header_of) (concat [[wire_record migrated_completion], [wire_record migrated_submit]])
      = [wire_record migrated_submit, wire_record migrated_completion]"
    using times by (simp del: header_of_wire)
  have "\<exists>obss. splice_command migrated_fs vec_ops (le_binrw :: unit binrw) [''cpu0.bin'', ''cpu1.bin''] ''spliced.bin''
      = Some (Inr (of_nat (length (concat obss)), concat obss, []))
    \<and> mset obss = mset (concat [[wire_record migrated_completion], [wire_record migrated_submit]]) \<and> list_all valid_record obss \<and> records_sorted obss"
    by (rule splice_command_delivers [OF binrw_le_le_binrw migrated_names(1) _ migrated_files(1) coherent_unsequenced migrated_sorted]) simp
  then obtain obss where o: "splice_command migrated_fs vec_ops (le_binrw :: unit binrw) [''cpu0.bin'', ''cpu1.bin''] ''spliced.bin''
      = Some (Inr (of_nat (length (concat obss)), concat obss, []))"
    "mset obss = mset (concat [[wire_record migrated_completion], [wire_record migrated_submit]])" "records_sorted obss" by blast
  have "obss = [wire_record migrated_submit, wire_record migrated_completion]"
    using sorted_by_time [OF o(2,3) files(2) times'] order by simp
  then have merged: "\<forall>n file ws. splice_command migrated_fs vec_ops (le_binrw :: unit binrw) [''cpu0.bin'', ''cpu1.bin''] ''spliced.bin'' = Some (Inr (n, file, ws)) \<longrightarrow>
      (\<exists>s. fs_open migrated_fs ''spliced.bin'' = Inr s \<and> steady s \<and> source_bytes s = file)"
    using o(1) valid_record_nonempty [OF migrated_valid(1)] by (simp add: migrated_fs_def)
  show ?thesis
    using analysis_needs_splice [OF binrw_le_le_binrw migrated_names(1) _ migrated_files(1) files times' scale migrated_names(2) merged]
    unfolding order
    by (simp add: migrated_records del: track_warnings.simps) (simp only: warns)
qed


end
