(* ===== verification/Capture.thy ===== *)
theory Capture
  imports Ftrace_Session Trace_Commands
begin

text \<open>
  The capture loop of \<open>capture.rs\<close>: reading pages from a CPU's pipe, converting them and writing the
  records, and the drain after the stop signal. A pipe is a script
  of reads (\<open>Record\_Reader\<close>); what a thread observes of its environment, the stop flag and the
  results of \<open>poll\<close>, is a list.
\<close>

section \<open>Reading one page\<close>

text \<open>
  The loop of \<open>read\_one\_page\<close> on \<open>page[total\_read..]\<close>. The result \<open>False\<close> is the return of
  \<open>Ok(None)\<close>; \<open>True\<close> is the end of the loop.
\<close>

function fill_page :: "source \<Rightarrow> byte list \<Rightarrow> nat \<Rightarrow> (io_error + bool) \<times> byte list \<times> source" where
  "fill_page input page total_read =
     (if \<not> total_read < PAGE_SIZE then (Inr True, page, input)
      else case read_call input (PAGE_SIZE - total_read) of
        (Inr bs, s) \<Rightarrow>
          if bs = [] then (Inr (total_read \<noteq> 0), page, s)
          else fill_page s (take total_read page @ bs @ drop (total_read + length bs) page) (total_read + length bs)
      | (Inl e, s) \<Rightarrow>
          if io_kind e = WouldBlock then (Inr (total_read \<noteq> 0), page, s)
          else if io_kind e = Interrupted then fill_page s page total_read
          else (Inl e, page, s))"
  by pat_completeness auto
termination
  by (relation "measure (\<lambda>(s, page, n). source_size s)")
    (auto simp: neq_Nil_conv dest!: read_call_Inl_size [OF sym] read_call_Inr_size [OF sym])

declare fill_page.simps [simp del]

text \<open>The state of a reader: its pipe, its page buffer and its vector of records.\<close>

record page_reader =
  pr_input :: source
  pr_page :: "byte list"
  pr_records :: "byte list"

definition read_one_page ::
  "ftrace_capture \<Rightarrow> page_reader \<Rightarrow> ((io_error + (u64 \<times> u64) option) \<times> page_reader) outcome" where
  "read_one_page fc pr =
     (case fill_page (pr_input pr) (pr_page pr) 0 of
        (Inl e, page, s) \<Rightarrow> Ret (Inl e, pr\<lparr>pr_input := s, pr_page := page\<rparr>)
      | (Inr False, page, s) \<Rightarrow> Ret (Inr None, pr\<lparr>pr_input := s, pr_page := page\<rparr>)
      | (Inr True, page, s) \<Rightarrow>
          out_bind (parse_page fc page []) (\<lambda>(n, recs).
            Ret (Inr (Some (of_nat n, of_nat (length recs))),
                 pr\<lparr>pr_input := s, pr_page := page, pr_records := recs\<rparr>)))"

lemma fill_page_size:
  "fill_page s page n = (res, page', s') \<Longrightarrow>
     source_size s' \<le> source_size s \<and> (res = Inr True \<and> n = 0 \<longrightarrow> source_size s' < source_size s)"
proof (induction s page n arbitrary: res page' s' rule: fill_page.induct)
  case (1 s page n)
  show ?case
  proof (cases "n < PAGE_SIZE")
    case False
    then show ?thesis using "1.prems" by (subst (asm) fill_page.simps) auto
  next
    case less: True
    obtain r s1 where rc: "read_call s (PAGE_SIZE - n) = (r, s1)" by (cases "read_call s (PAGE_SIZE - n)")
    show ?thesis
    proof (cases r)
      case (Inl e)
      note sz = read_call_Inl_size [OF rc [unfolded Inl]]
      show ?thesis
      proof (cases "io_kind e \<noteq> WouldBlock \<and> io_kind e = Interrupted")
        case True
        then have "fill_page s1 page n = (res, page', s')"
          using "1.prems" less rc Inl by (subst (asm) fill_page.simps) simp
        from "1.IH"(1) [OF _ rc [symmetric] Inl _ _ this] show ?thesis using less True sz by auto
      next
        case False
        then show ?thesis
          using "1.prems" less rc Inl sz by (subst (asm) fill_page.simps) (auto split: if_splits)
      qed
    next
      case (Inr bs)
      show ?thesis
      proof (cases "bs = []")
        case True
        then show ?thesis
          using "1.prems" less rc Inr read_call_Inr_size [OF rc [unfolded Inr]]
          by (subst (asm) fill_page.simps) auto
      next
        case False
        then have "fill_page s1 (take n page @ bs @ drop (n + length bs) page) (n + length bs) = (res, page', s')"
          using "1.prems" less rc Inr by (subst (asm) fill_page.simps) simp
        from "1.IH"(2) [OF _ rc [symmetric] Inr False this] show ?thesis
          using less read_call_Inr_size [OF rc [unfolded Inr]] False by (cases bs) auto
      qed
    qed
  qed
qed

lemma read_one_page_size:
  "read_one_page fc pr = Ret (Inr (Some nb), pr') \<Longrightarrow> source_size (pr_input pr') < source_size (pr_input pr)"
  by (auto simp: read_one_page_def result_simps split: prod.splits sum.splits bool.splits dest!: fill_page_size)

section \<open>Draining a pipe\<close>

datatype capture_error =
    CapOpen path io_error
  | CapCreate path io_error
  | CapPoll path io_error
  | CapRead io_error
  | CapWrite path io_error
  | CapFlush path io_error

record 'w cpu_state =
  cs_reader :: page_reader
  cs_output :: 'w
  cs_bytes_written :: u64
  cs_events_captured :: u64

text \<open>The records of one page go to the output, and the counters advance.\<close>

definition write_page ::
  "'w writer \<Rightarrow> path \<Rightarrow> u64 \<times> u64 \<Rightarrow> 'w cpu_state \<Rightarrow> (capture_error + unit) \<times> 'w cpu_state" where
  "write_page write_all out_path nb st =
     (case write_all (cs_output st) (pr_records (cs_reader st)) of
        (Inl e, w) \<Rightarrow> (Inl (CapWrite out_path e), st\<lparr>cs_output := w\<rparr>)
      | (Inr _, w) \<Rightarrow>
          (Inr (), st\<lparr>cs_output := w, cs_bytes_written := cs_bytes_written st + snd nb,
                     cs_events_captured := cs_events_captured st + fst nb\<rparr>))"

lemma write_page_reader: "write_page w p nb st = (r, st') \<Longrightarrow> cs_reader st' = cs_reader st"
  by (auto simp: write_page_def split: prod.splits sum.splits)

function drain_pages ::
  "'w writer \<Rightarrow> ftrace_capture \<Rightarrow> path \<Rightarrow> 'w cpu_state \<Rightarrow> ((capture_error + unit) \<times> 'w cpu_state) outcome" where
  "drain_pages write_all fc out_path st =
     (case read_one_page fc (cs_reader st) of
        Panic \<Rightarrow> Panic
      | Ret (Inl e, pr) \<Rightarrow> Ret (Inl (CapRead e), st\<lparr>cs_reader := pr\<rparr>)
      | Ret (Inr None, pr) \<Rightarrow> Ret (Inr (), st\<lparr>cs_reader := pr\<rparr>)
      | Ret (Inr (Some nb), pr) \<Rightarrow>
          (case write_page write_all out_path nb (st\<lparr>cs_reader := pr\<rparr>) of
             (Inl e, st') \<Rightarrow> Ret (Inl e, st')
           | (Inr _, st') \<Rightarrow> drain_pages write_all fc out_path st'))"
  by pat_completeness auto
termination
  by (relation "measure (\<lambda>(w, fc, p, st). source_size (pr_input (cs_reader st)))")
    (auto dest!: read_one_page_size write_page_reader [OF sym])

declare drain_pages.simps [simp del]

text \<open>\<open>drain\_pipe\<close> has a page buffer of its own, of zeros.\<close>

definition drain_pipe ::
  "'w writer \<Rightarrow> ftrace_capture \<Rightarrow> path \<Rightarrow> 'w cpu_state \<Rightarrow> ((capture_error + unit) \<times> 'w cpu_state) outcome" where
  "drain_pipe write_all fc out_path st =
     drain_pages write_all fc out_path (st\<lparr>cs_reader := (cs_reader st)\<lparr>pr_page := replicate PAGE_SIZE 0\<rparr>\<rparr>)"

section \<open>The reader thread of a CPU\<close>

text \<open>
  What one turn of the loop observes: the stop flag, or else the result of \<open>poll\<close> (time-out, no
  input, input, \<open>EINTR\<close>, another error).
\<close>

datatype observation = StopSet | PollTimeout | PollNoInput | PollInput | PollInterrupted | PollError io_error

text \<open>One turn of the loop: it runs on, or \<open>read\_cpu\_pipe\<close> leaves it, with an error or after the drain.\<close>

datatype 'w thread_state = Running "'w cpu_state" | Finished "((capture_error + unit) \<times> 'w cpu_state) outcome"

fun pipe_turn ::
  "'w writer \<Rightarrow> ftrace_capture \<Rightarrow> path \<Rightarrow> path \<Rightarrow> observation \<Rightarrow> 'w cpu_state \<Rightarrow> 'w thread_state" where
  "pipe_turn write_all fc pipe out_path StopSet st = Finished (drain_pipe write_all fc out_path st)"
| "pipe_turn write_all fc pipe out_path PollTimeout st = Running st"
| "pipe_turn write_all fc pipe out_path PollNoInput st = Running st"
| "pipe_turn write_all fc pipe out_path PollInterrupted st = Running st"
| "pipe_turn write_all fc pipe out_path (PollError e) st = Finished (Ret (Inl (CapPoll pipe e), st))"
| "pipe_turn write_all fc pipe out_path PollInput st =
     (case read_one_page fc (cs_reader st) of
        Panic \<Rightarrow> Finished Panic
      | Ret (Inl e, pr) \<Rightarrow> Finished (Ret (Inl (CapRead e), st\<lparr>cs_reader := pr\<rparr>))
      | Ret (Inr None, pr) \<Rightarrow> Running (st\<lparr>cs_reader := pr\<rparr>)
      | Ret (Inr (Some nb), pr) \<Rightarrow>
          (case write_page write_all out_path nb (st\<lparr>cs_reader := pr\<rparr>) of
             (Inl e, st') \<Rightarrow> Finished (Ret (Inl e, st'))
           | (Inr _, st') \<Rightarrow> Running st'))"

fun run_turns ::
  "'w writer \<Rightarrow> ftrace_capture \<Rightarrow> path \<Rightarrow> path \<Rightarrow> observation list \<Rightarrow> 'w cpu_state \<Rightarrow> 'w thread_state" where
  "run_turns write_all fc pipe out_path [] st = Running st"
| "run_turns write_all fc pipe out_path (ob # os) st =
     (case pipe_turn write_all fc pipe out_path ob st of
        Running st' \<Rightarrow> run_turns write_all fc pipe out_path os st'
      | Finished r \<Rightarrow> Finished r)"

text \<open>\<open>None\<close>: the loop is still running at the end of the observations.\<close>

definition pipe_loop ::
  "'w writer \<Rightarrow> ftrace_capture \<Rightarrow> path \<Rightarrow> path \<Rightarrow> observation list \<Rightarrow> 'w cpu_state \<Rightarrow>
     ((capture_error + unit) \<times> 'w cpu_state) outcome option" where
  "pipe_loop write_all fc pipe out_path os st =
     (case run_turns write_all fc pipe out_path os st of Running st' \<Rightarrow> None | Finished r \<Rightarrow> Some r)"

lemma run_turns_append:
  "run_turns w fc pipe out_path (os @ os') st =
     (case run_turns w fc pipe out_path os st of
        Running st' \<Rightarrow> run_turns w fc pipe out_path os' st'
      | Finished r \<Rightarrow> Finished r)"
  by (induction os arbitrary: st) (auto split: thread_state.split)

record capture_stats =
  st_cpu :: nat
  st_path :: path
  st_bytes_written :: u64
  st_events_captured :: u64

text \<open>The statistics and the output file, or the error; \<open>fs\<close> opens the pipe, \<open>oo\<close> has the output file.\<close>

definition read_cpu_pipe ::
  "file_system \<Rightarrow> 'w out_ops \<Rightarrow> nat \<Rightarrow> path \<Rightarrow> path \<Rightarrow> observation list \<Rightarrow> ftrace_capture \<Rightarrow>
     (capture_error + capture_stats \<times> 'w) outcome option" where
  "read_cpu_pipe fs oo cpu pipe out_path os fc =
     (case fs_open fs pipe of
        Inl e \<Rightarrow> Some (Ret (Inl (CapOpen pipe e)))
      | Inr input \<Rightarrow>
        (case oo_create oo out_path of
           Inl e \<Rightarrow> Some (Ret (Inl (CapCreate out_path e)))
         | Inr output \<Rightarrow>
             map_option (\<lambda>fin. out_bind fin (\<lambda>(res, st). Ret (
               case res of
                 Inl e \<Rightarrow> Inl e
               | Inr _ \<Rightarrow>
                   (case oo_flush oo (cs_output st) of
                      Inl e \<Rightarrow> Inl (CapFlush out_path e)
                    | Inr output' \<Rightarrow>
                        Inr (\<lparr>st_cpu = cpu, st_path = out_path, st_bytes_written = cs_bytes_written st,
                              st_events_captured = cs_events_captured st\<rparr>, output')))))
             (pipe_loop (oo_write_all oo) fc pipe out_path os
                \<lparr>cs_reader = \<lparr>pr_input = input, pr_page = replicate PAGE_SIZE 0, pr_records = []\<rparr>,
                 cs_output = output, cs_bytes_written = 0, cs_events_captured = 0\<rparr>)))"

section \<open>The page images a pipe gives\<close>

text \<open>
  The pages that are parsed when a pipe delivers \<open>bs\<close> and the buffer holds \<open>prev\<close>: whole pages, and
  a last part that overwrites only the front of the buffer.
\<close>

function page_images :: "byte list \<Rightarrow> byte list \<Rightarrow> byte list list" where
  "page_images prev bs =
     (if bs = [] then []
      else let page = take 4096 bs @ drop (length bs) prev in page # page_images page (drop 4096 bs))"
  by pat_completeness auto
termination by (relation "measure (\<lambda>(prev, bs). length bs)") auto

declare page_images.simps [simp del]

lemma page_images_Nil [simp]: "page_images prev [] = []"
  by (simp add: page_images.simps)

lemma page_images_page:
  "length page = 4096 \<Longrightarrow> length prev = 4096 \<Longrightarrow> page_images prev (page @ bs) = page # page_images page bs"
  by (subst page_images.simps) (auto simp: Let_def)

lemma page_images_whole:
  "\<forall>p \<in> set pages. length p = 4096 \<Longrightarrow> length prev = 4096 \<Longrightarrow> page_images prev (concat pages) = pages"
  by (induction pages arbitrary: prev) (simp_all add: page_images_page)

text \<open>
  A pipe is opened with \<open>O\_NONBLOCK\<close>: when it has no more pages it fails with \<open>EAGAIN\<close>, and it can be
  read again later. Its script is a burst of data and interruptions, then the block, then the next burst.
\<close>

definition blocks :: "source \<Rightarrow> bool" where
  "blocks s \<longleftrightarrow> (case s of [] \<Rightarrow> True | ev # _ \<Rightarrow> (\<exists>e. ev = Fails e \<and> io_kind e = WouldBlock))"

lemma blocks_simps [simp]: "blocks []" "blocks (Fails e # s) \<longleftrightarrow> io_kind e = WouldBlock" "\<not> blocks (Data c # s)"
  by (auto simp: blocks_def)

lemma read_call_append: "b \<noteq> [] \<Longrightarrow> read_call b n = (r, b') \<Longrightarrow> read_call (b @ rest) n = (r, b' @ rest)"
  by (cases "(b, n)" rule: read_call.cases) (auto split: if_splits)

lemma fill_page_burst:
  "steady b \<Longrightarrow> blocks rest \<Longrightarrow> length page = 4096 \<Longrightarrow> n \<le> 4096 \<Longrightarrow>
     \<exists>b'. fill_page (b @ rest) page n = (Inr (n \<noteq> 0 \<or> source_bytes b \<noteq> []),
         take n page @ take (4096 - n) (source_bytes b) @ drop (n + length (source_bytes b)) page,
         if n + length (source_bytes b) < 4096 then tl rest else b' @ rest)
       \<and> steady b' \<and> source_bytes b' = drop (4096 - n) (source_bytes b)"
proof (induction "source_size b" arbitrary: b page n rule: less_induct)
  case less
  show ?case
  proof (cases "n < PAGE_SIZE")
    case False
    then show ?thesis using less.prems by (subst fill_page.simps) (auto intro: exI [of _ b])
  next
    case room: True
    show ?thesis
    proof (cases "b = []")
      case True
      have "fill_page rest page n = (Inr (n \<noteq> 0), page, tl rest)"
      proof (cases rest)
        case Nil
        then show ?thesis using room by (subst fill_page.simps) simp
      next
        case (Cons ev s)
        then obtain e where "rest = Fails e # s" "io_kind e = WouldBlock"
          using less.prems(2) by (cases ev) auto
        then show ?thesis using room by (subst fill_page.simps) simp
      qed
      then show ?thesis using True room less.prems(3) by (intro exI [of _ "[]"]) simp
    next
      case ne: False
      obtain r b1 where rc: "read_call b (PAGE_SIZE - n) = (r, b1)" by (cases "read_call b (PAGE_SIZE - n)")
      note rca = read_call_append [OF ne rc, of rest]
      show ?thesis
      proof (cases r)
        case (Inl e)
        have st: "steady b1" "source_bytes b = source_bytes b1" "io_kind e = Interrupted"
          using read_call_steady_Inl [OF less.prems(1) rc [unfolded Inl]] by auto
        have "fill_page (b @ rest) page n = fill_page (b1 @ rest) page n"
          using room rca Inl st(3) by (subst fill_page.simps) simp
        then show ?thesis
          using less.hyps [OF read_call_Inl_size [OF rc [unfolded Inl]] st(1) less.prems(2-4)] st(2) by simp
      next
        case (Inr bs)
        have st: "steady b1" "source_bytes b = bs @ source_bytes b1" "length bs \<le> PAGE_SIZE - n"
          using read_call_steady_Inr [OF less.prems(1) _ rc [unfolded Inr]] room by auto
        obtain ev b2 where b: "b = ev # b2" using ne by (cases b) auto
        have st4: "bs \<noteq> []"
          using rc Inr less.prems(1) room unfolding b by (cases ev) (auto split: if_splits)
        let ?page = "take n page @ bs @ drop (n + length bs) page"
        let ?m = "n + length bs" and ?c = "source_bytes b1"
        have fill: "fill_page (b @ rest) page n = fill_page (b1 @ rest) ?page ?m"
          using room rca Inr st4 by (subst fill_page.simps) simp
        have sz: "source_size b1 < source_size b" using read_call_Inr_size [OF rc [unfolded Inr]] st4 by (cases bs) auto
        have "length ?page = 4096" "?m \<le> 4096" using less.prems(3,4) st(3) room by auto
        note IH = less.hyps [OF sz st(1) less.prems(2) this]
        have parts: "take ?m ?page = take n page @ bs" "drop (?m + length ?c) ?page = drop (?m + length ?c) page"
          using room less.prems(3) by (simp_all add: ac_simps)
        have cut: "take (4096 - n) (bs @ ?c) = bs @ take (4096 - ?m) ?c" "drop (4096 - n) (bs @ ?c) = drop (4096 - ?m) ?c"
          using st(3) by simp_all
        show ?thesis
          using IH st4 unfolding fill st(2) parts cut by (simp add: add.assoc)
      qed
    qed
  qed
qed

text \<open>The records of a page image, when the tables let no event panic.\<close>

definition image_records :: "ftrace_capture \<Rightarrow> byte list \<Rightarrow> byte list list" where
  "image_records fc page =
     page_records (fc_submit_id fc) (fc_complete_id fc) (fc_submit_fmt fc) (fc_complete_fmt fc) (page_events page)"

definition layouts :: "ftrace_capture \<Rightarrow> bool" where
  "layouts fc \<longleftrightarrow> submit_layout (fc_submit_fmt fc) \<and> complete_layout (fc_complete_fmt fc)"

lemma parse_page_layouts:
  "layouts fc \<Longrightarrow> length page = 4096 \<Longrightarrow> parse_page fc page [] = Ret (length (image_records fc page), concat (image_records fc page))"
  using layout_safe parse_page_eq [of page "fc_submit_id fc" "fc_complete_id fc" "fc_submit_fmt fc" "fc_complete_fmt fc" "[]"]
  by (simp add: parse_page_def layouts_def list_all_iff image_records_def)

lemma read_one_page_burst:
  assumes "layouts fc" and "steady b" and "blocks rest" and "pr_input pr = b @ rest" and "length (pr_page pr) = 4096"
  shows "\<exists>b'. steady b' \<and> source_bytes b' = drop 4096 (source_bytes b) \<and>
    (let page = take 4096 (source_bytes b) @ drop (length (source_bytes b)) (pr_page pr);
         left = (if length (source_bytes b) < 4096 then tl rest else b' @ rest)
     in read_one_page fc pr =
        (if source_bytes b = [] then Ret (Inr None, pr\<lparr>pr_input := left, pr_page := page\<rparr>)
         else Ret (Inr (Some (of_nat (length (image_records fc page)), of_nat (length (concat (image_records fc page))))),
                pr\<lparr>pr_input := left, pr_page := page, pr_records := concat (image_records fc page)\<rparr>)))"
proof -
  let ?bs = "source_bytes b"
  obtain b' where b': "fill_page (pr_input pr) (pr_page pr) 0 = (Inr (?bs \<noteq> []),
      take 4096 ?bs @ drop (length ?bs) (pr_page pr), if length ?bs < 4096 then tl rest else b' @ rest)"
    "steady b'" "source_bytes b' = drop 4096 ?bs"
    using fill_page_burst [OF assms(2,3,5), of 0] by (auto simp: assms(4))
  have "length (take 4096 ?bs @ drop (length ?bs) (pr_page pr)) = 4096" using assms(5) by simp
  from parse_page_layouts [OF assms(1) this] b' show ?thesis
    by (intro exI [of _ b']) (simp add: read_one_page_def Let_def del: length_append length_concat)
qed

text \<open>The output and the counters after writing the records of some images.\<close>

definition images_written :: "ftrace_capture \<Rightarrow> byte list list \<Rightarrow> byte list cpu_state \<Rightarrow> byte list cpu_state \<Rightarrow> bool" where
  "images_written fc images st st' \<longleftrightarrow>
     (let recs = concat (map (image_records fc) images) in
      cs_output st' = cs_output st @ concat recs
      \<and> cs_bytes_written st' = cs_bytes_written st + of_nat (length (concat recs))
      \<and> cs_events_captured st' = cs_events_captured st + of_nat (length recs))"

lemma images_written_Nil: "images_written fc [] st (st\<lparr>cs_reader := pr\<rparr>)"
  by (simp add: images_written_def)

lemma images_written_Cons:
  "images_written fc (p # ps) st st' \<longleftrightarrow>
     images_written fc ps (st\<lparr>cs_reader := pr, cs_output := cs_output st @ concat (image_records fc p),
       cs_bytes_written := cs_bytes_written st + of_nat (length (concat (image_records fc p))),
       cs_events_captured := cs_events_captured st + of_nat (length (image_records fc p))\<rparr>) st'"
  by (simp add: images_written_def Let_def add.assoc)

lemma images_written_append:
  "images_written fc ps st st1 \<Longrightarrow> images_written fc qs st1 st2 \<Longrightarrow> images_written fc (ps @ qs) st st2"
  by (simp add: images_written_def Let_def add.assoc)

lemma images_written_reader: "images_written fc images (st\<lparr>cs_reader := pr\<rparr>) st' = images_written fc images st st'"
  by (simp add: images_written_def)

text \<open>
  A drain reads a burst page by page. It ends at the block behind the last whole page; a part of a
  page is parsed with what the buffer holds behind it, and the reading goes on.
\<close>

lemma drain_pages_burst:
  "layouts fc \<Longrightarrow> steady b \<Longrightarrow> blocks rest \<Longrightarrow> pr_input (cs_reader st) = b @ rest \<Longrightarrow> length (pr_page (cs_reader st)) = 4096 \<Longrightarrow>
     \<exists>st'. drain_pages vec_write fc out_path st =
         (if 4096 dvd length (source_bytes b) then Ret (Inr (), st') else drain_pages vec_write fc out_path st')
       \<and> images_written fc (page_images (pr_page (cs_reader st)) (source_bytes b)) st st'
       \<and> pr_input (cs_reader st') = tl rest \<and> length (pr_page (cs_reader st')) = 4096"
proof (induction "length (source_bytes b)" arbitrary: b st rule: less_induct)
  case less
  let ?pr = "cs_reader st"
  let ?bs = "source_bytes b"
  let ?page = "take 4096 ?bs @ drop (length ?bs) (pr_page ?pr)"
  obtain b' where b': "steady b'" "source_bytes b' = drop 4096 ?bs"
    and r: "read_one_page fc ?pr =
        (if ?bs = [] then Ret (Inr None, ?pr\<lparr>pr_input := (if length ?bs < 4096 then tl rest else b' @ rest), pr_page := ?page\<rparr>)
         else Ret (Inr (Some (of_nat (length (image_records fc ?page)), of_nat (length (concat (image_records fc ?page))))),
                ?pr\<lparr>pr_input := (if length ?bs < 4096 then tl rest else b' @ rest), pr_page := ?page, pr_records := concat (image_records fc ?page)\<rparr>))"
    using read_one_page_burst [OF less.prems] unfolding Let_def by blast
  have page: "length ?page = 4096" using less.prems(5) by simp
  show ?case
  proof (cases "?bs = []")
    case True
    then show ?thesis
      using r page images_written_Nil [of fc st "?pr\<lparr>pr_input := tl rest, pr_page := ?page\<rparr>"]
      by (subst drain_pages.simps) auto
  next
    case False
    let ?left = "if length ?bs < 4096 then tl rest else b' @ rest"
    let ?pr' = "?pr\<lparr>pr_input := ?left, pr_page := ?page, pr_records := concat (image_records fc ?page)\<rparr>"
    let ?st = "st\<lparr>cs_reader := ?pr', cs_output := cs_output st @ concat (image_records fc ?page),
       cs_bytes_written := cs_bytes_written st + of_nat (length (concat (image_records fc ?page))),
       cs_events_captured := cs_events_captured st + of_nat (length (image_records fc ?page))\<rparr>"
    have drain: "drain_pages vec_write fc out_path st = drain_pages vec_write fc out_path ?st"
      using r False by (subst drain_pages.simps) (simp add: write_page_def vec_write_def del: length_concat)
    have images: "page_images (pr_page ?pr) ?bs = ?page # page_images ?page (drop 4096 ?bs)"
      using False by (subst page_images.simps) (simp add: Let_def)
    show ?thesis
    proof (cases "length ?bs < 4096")
      case True
      then have "\<not> 4096 dvd length ?bs" using False by (auto dest: dvd_imp_le)
      moreover have "images_written fc (page_images (pr_page ?pr) ?bs) st ?st"
        unfolding images using True images_written_Cons [of fc ?page "[]" st ?st ?pr'] by (simp add: images_written_def)
      ultimately show ?thesis using drain True page by (intro exI [of _ ?st]) simp
    next
      case big: False
      have "length (source_bytes b') < length ?bs" using b' False by simp
      from less.hyps [OF this less.prems(1) b'(1) less.prems(3), of ?st] big page
      obtain st' where st': "drain_pages vec_write fc out_path ?st =
          (if 4096 dvd length (drop 4096 ?bs) then Ret (Inr (), st') else drain_pages vec_write fc out_path st')"
        "images_written fc (page_images ?page (drop 4096 ?bs)) ?st st'"
        "pr_input (cs_reader st') = tl rest" "length (pr_page (cs_reader st')) = 4096"
        unfolding b'(2) by auto
      have dvd: "4096 dvd length (drop 4096 ?bs) \<longleftrightarrow> 4096 dvd length ?bs"
        using big by (simp add: dvd_minus_self not_less)
      have "images_written fc (page_images (pr_page ?pr) ?bs) st st'"
        unfolding images by (rule images_written_Cons [THEN iffD2, OF st'(2)])
      then show ?thesis
        using st'(3,4) by (intro exI [of _ st'] conjI) (simp_all only: drain st'(1) dvd)
    qed
  qed
qed


lemma drain_pipe_burst:
  assumes "layouts fc" and "steady b" and "blocks rest" and "pr_input (cs_reader st) = b @ rest"
  shows "\<exists>st'. drain_pipe vec_write fc out_path st =
      (if 4096 dvd length (source_bytes b) then Ret (Inr (), st') else drain_pages vec_write fc out_path st')
    \<and> images_written fc (page_images (replicate 4096 0) (source_bytes b)) st st'
    \<and> pr_input (cs_reader st') = tl rest \<and> length (pr_page (cs_reader st')) = 4096"
  using drain_pages_burst [OF assms(1-3), of "st\<lparr>cs_reader := (cs_reader st)\<lparr>pr_page := replicate PAGE_SIZE 0\<rparr>\<rparr>" out_path] assms(4)
  by (simp add: drain_pipe_def images_written_reader)

section \<open>A reader on a pipe of whole pages\<close>

text \<open>
  The kernel hands out whole pages (the comment in \<open>read\_one\_page\<close>): however they are cut into
  reads and interrupted, the pipe blocks and ends only between two pages. What it presents is a list
  of pages, and \<open>None\<close> where it has no more for the moment and fails with \<open>EAGAIN\<close>.
\<close>

inductive presents :: "source \<Rightarrow> byte list option list \<Rightarrow> bool" where
  presents_end: "steady b \<Longrightarrow> source_bytes b = concat pages \<Longrightarrow> \<forall>p \<in> set pages. length p = 4096 \<Longrightarrow>
    presents b (map Some pages)"
| presents_block: "steady b \<Longrightarrow> source_bytes b = concat pages \<Longrightarrow> \<forall>p \<in> set pages. length p = 4096 \<Longrightarrow>
    io_kind e = WouldBlock \<Longrightarrow> presents s items \<Longrightarrow> presents (b @ Fails e # s) (map Some pages @ None # items)"

definition pages_in :: "byte list option list \<Rightarrow> byte list list" where
  "pages_in items = concat (map (\<lambda>i. case i of None \<Rightarrow> [] | Some p \<Rightarrow> [p]) items)"

definition until_block :: "byte list option list \<Rightarrow> byte list option list" where
  "until_block items = takeWhile (\<lambda>i. i \<noteq> None) items"

lemma pages_in_simps [simp]:
  "pages_in [] = []" "pages_in (None # items) = pages_in items" "pages_in (Some p # items) = p # pages_in items"
  "pages_in (items @ items') = pages_in items @ pages_in items'" "pages_in (map Some pages) = pages"
  by (induction pages) (simp_all add: pages_in_def)

lemma until_block_simps [simp]:
  "until_block (map Some pages) = map Some pages" "until_block (map Some pages @ None # items) = map Some pages"
  by (induction pages) (simp_all add: until_block_def)

lemma presents_burst:
  assumes "presents s items"
  shows "\<exists>b rest pages items'. s = b @ rest \<and> steady b \<and> blocks rest \<and> source_bytes b = concat pages
    \<and> (\<forall>p \<in> set pages. length p = 4096) \<and> presents (tl rest) items'
    \<and> (rest = [] \<and> items = map Some pages \<and> items' = []
       \<or> (\<exists>e. rest = Fails e # tl rest \<and> io_kind e = WouldBlock \<and> items = map Some pages @ None # items'))"
  using assms
proof (cases rule: presents.cases)
  case (presents_end pages)
  moreover have "presents [] []" using presents.presents_end [of "[]" "[]"] by simp
  ultimately show ?thesis by (intro exI [of _ s] exI [of _ "[]"] exI [of _ pages]) auto
next
  case (presents_block b pages e s' items')
  then show ?thesis
    by (intro exI [of _ b] exI [of _ "Fails e # s'"] exI [of _ pages] exI [of _ items']) simp
qed

lemma drain_pipe_presents:
  assumes "layouts fc" and "presents (pr_input (cs_reader st)) items"
  shows "\<exists>st'. drain_pipe vec_write fc out_path st = Ret (Inr (), st')
    \<and> images_written fc (pages_in (until_block items)) st st'"
proof -
  obtain b rest pages items' where b: "pr_input (cs_reader st) = b @ rest" "steady b" "blocks rest"
    "source_bytes b = concat pages" "\<forall>p \<in> set pages. length p = 4096"
    and items: "items = map Some pages \<or> items = map Some pages @ None # items'"
    using presents_burst [OF assms(2)] by blast
  have "4096 dvd length (concat pages)" using b(5) by (induction pages) auto
  moreover have "page_images (replicate 4096 0) (concat pages) = pages" using b(5) by (intro page_images_whole) simp_all
  moreover have "pages_in (until_block items) = pages" using items by auto
  ultimately show ?thesis using drain_pipe_burst [OF assms(1) b(2,3,1), of out_path] b(4) by auto
qed

lemma read_one_page_presents:
  assumes "layouts fc" and "presents (pr_input pr) items" and "length (pr_page pr) = 4096"
  shows "\<exists>s'. presents s' (tl items) \<and>
    read_one_page fc pr =
      (case items of
         Some p # _ \<Rightarrow>
           Ret (Inr (Some (of_nat (length (image_records fc p)), of_nat (length (concat (image_records fc p))))),
                pr\<lparr>pr_input := s', pr_page := p, pr_records := concat (image_records fc p)\<rparr>)
       | _ \<Rightarrow> Ret (Inr None, pr\<lparr>pr_input := s'\<rparr>))"
proof -
  obtain b rest pages items' where b: "pr_input pr = b @ rest" "steady b" "blocks rest" "source_bytes b = concat pages"
    "\<forall>p \<in> set pages. length p = 4096" "presents (tl rest) items'"
    and items: "rest = [] \<and> items = map Some pages \<and> items' = []
       \<or> (\<exists>e. rest = Fails e # tl rest \<and> io_kind e = WouldBlock \<and> items = map Some pages @ None # items')"
    using presents_burst [OF assms(2)] by blast
  from read_one_page_burst [OF assms(1) b(2,3,1) assms(3)] obtain b' where
    b': "steady b'" "source_bytes b' = drop 4096 (concat pages)" and
    r: "let page = take 4096 (concat pages) @ drop (length (concat pages)) (pr_page pr);
         left = (if length (concat pages) < 4096 then tl rest else b' @ rest)
     in read_one_page fc pr =
        (if concat pages = [] then Ret (Inr None, pr\<lparr>pr_input := left, pr_page := page\<rparr>)
         else Ret (Inr (Some (of_nat (length (image_records fc page)), of_nat (length (concat (image_records fc page))))),
                pr\<lparr>pr_input := left, pr_page := page, pr_records := concat (image_records fc page)\<rparr>))"
    unfolding b(4) by blast
  show ?thesis
  proof (cases pages)
    case Nil
    then show ?thesis using r b(6) items by (intro exI [of _ "tl rest"]) auto
  next
    case (Cons p ps)
    then have p: "length p = 4096" "concat pages \<noteq> []" using b(5) by auto
    then have page: "take 4096 (concat pages) = p" "drop (length (concat pages)) (pr_page pr) = []"
      "\<not> length (concat pages) < 4096"
      using Cons assms(3) by simp_all
    have ps: "source_bytes b' = concat ps" "\<forall>p \<in> set ps. length p = 4096" using b'(2) b(5) Cons p by auto
    have "presents (b' @ rest) (tl items)"
      using items
    proof (elim disjE exE conjE)
      fix e
      assume e: "rest = Fails e # tl rest" "io_kind e = WouldBlock" "items = map Some pages @ None # items'"
      have "presents (b' @ Fails e # tl rest) (map Some ps @ None # items')"
        using b'(1) ps e(2) b(6) by (rule presents_block)
      then show ?thesis using e(1,3) Cons by simp
    qed (use presents_end [OF b'(1) ps] Cons in simp)
    moreover have "\<exists>is. items = Some p # is" using items Cons by auto
    ultimately show ?thesis using r p(2) page by (intro exI [of _ "b' @ rest"]) (auto simp: Let_def)
  qed
qed

text \<open>Observations that neither stop the thread nor fail, and the turns among them that read.\<close>

definition quiet :: "observation list \<Rightarrow> bool" where
  "quiet os \<longleftrightarrow> list_all (\<lambda>ob. ob \<in> {PollTimeout, PollNoInput, PollInput, PollInterrupted}) os"

definition reads_of :: "observation list \<Rightarrow> nat" where
  "reads_of os = length (filter (\<lambda>ob. ob = PollInput) os)"

lemma reads_of_simps [simp]:
  "reads_of [] = 0" "reads_of (ob # os) = (if ob = PollInput then Suc (reads_of os) else reads_of os)"
  by (simp_all add: reads_of_def)

lemma run_turns_presents:
  "quiet os \<Longrightarrow> layouts fc \<Longrightarrow> presents (pr_input (cs_reader st)) items \<Longrightarrow> length (pr_page (cs_reader st)) = 4096 \<Longrightarrow>
     \<forall>p \<in> set (pages_in items). length p = 4096 \<Longrightarrow>
     \<exists>st'. run_turns vec_write fc pipe out_path os st = Running st'
       \<and> images_written fc (pages_in (take (reads_of os) items)) st st'
       \<and> presents (pr_input (cs_reader st')) (drop (reads_of os) items)"
proof (induction os arbitrary: st items)
  case Nil
  then show ?case using images_written_Nil [of fc st "cs_reader st"] by (intro exI [of _ st]) simp
next
  case (Cons ob os)
  have q: "quiet os" using Cons.prems(1) by (simp add: quiet_def)
  show ?case
  proof (cases "ob = PollInput")
    case False
    then have "run_turns vec_write fc pipe out_path (ob # os) st = run_turns vec_write fc pipe out_path os st"
      using Cons.prems(1) by (auto simp: quiet_def)
    then show ?thesis using Cons.IH [OF q Cons.prems(2-5)] False by simp
  next
    case input: True
    obtain s' where s': "presents s' (tl items)"
      and r: "read_one_page fc (cs_reader st) =
      (case items of
         Some p # _ \<Rightarrow>
           Ret (Inr (Some (of_nat (length (image_records fc p)), of_nat (length (concat (image_records fc p))))),
                (cs_reader st)\<lparr>pr_input := s', pr_page := p, pr_records := concat (image_records fc p)\<rparr>)
       | _ \<Rightarrow> Ret (Inr None, (cs_reader st)\<lparr>pr_input := s'\<rparr>))"
      using read_one_page_presents [OF Cons.prems(2-4)] by blast
    have take: "take (reads_of (ob # os)) items = take 1 items @ take (reads_of os) (tl items)"
      "drop (reads_of (ob # os)) items = drop (reads_of os) (tl items)"
      using input by (cases items; simp)+
    show ?thesis
    proof (cases "\<exists>p is. items = Some p # is")
      case False
      let ?st = "st\<lparr>cs_reader := (cs_reader st)\<lparr>pr_input := s'\<rparr>\<rparr>"
      have "items = [] \<or> (\<exists>is. items = None # is)" using False by (metis list.exhaust not_None_eq)
      moreover from this have "run_turns vec_write fc pipe out_path (ob # os) st = run_turns vec_write fc pipe out_path os ?st"
        "pages_in (tl items) = pages_in items" "pages_in (take 1 items) = []"
        using r input by auto
      moreover have "\<exists>st'. run_turns vec_write fc pipe out_path os ?st = Running st'
         \<and> images_written fc (pages_in (take (reads_of os) (tl items))) ?st st'
         \<and> presents (pr_input (cs_reader st')) (drop (reads_of os) (tl items))"
        using s' Cons.prems(4,5) calculation(3) by (intro Cons.IH [OF q Cons.prems(2)]) simp_all
      ultimately show ?thesis by (simp add: take images_written_reader del: reads_of_simps)
    next
      case True
      then obtain p "is" where p: "items = Some p # is" by blast
      let ?pr' = "(cs_reader st)\<lparr>pr_input := s', pr_page := p, pr_records := concat (image_records fc p)\<rparr>"
      let ?st = "st\<lparr>cs_reader := ?pr', cs_output := cs_output st @ concat (image_records fc p),
         cs_bytes_written := cs_bytes_written st + of_nat (length (concat (image_records fc p))),
         cs_events_captured := cs_events_captured st + of_nat (length (image_records fc p))\<rparr>"
      have run: "run_turns vec_write fc pipe out_path (ob # os) st = run_turns vec_write fc pipe out_path os ?st"
        using r input by (simp add: p write_page_def vec_write_def del: length_concat)
      obtain st' where st': "run_turns vec_write fc pipe out_path os ?st = Running st'"
        "images_written fc (pages_in (take (reads_of os) is)) ?st st'"
        "presents (pr_input (cs_reader st')) (drop (reads_of os) is)"
        using Cons.IH [OF q Cons.prems(2), of ?st "is"] s' Cons.prems(5) p by auto
      have "images_written fc (p # pages_in (take (reads_of os) is)) st st'"
        by (rule images_written_Cons [THEN iffD2, OF st'(2)])
      then show ?thesis using run st'(1,3) input p by (intro exI [of _ st']) simp
    qed
  qed
qed

text \<open>
  The pages a thread takes: one page or block in each turn that reads, and after the stop flag the
  pages up to the next block.
\<close>

definition thread_pages :: "observation list \<Rightarrow> byte list option list \<Rightarrow> byte list list" where
  "thread_pages os items = pages_in (take (reads_of os) items @ until_block (drop (reads_of os) items))"

lemma thread_pages_whole: "thread_pages os (map Some pages) = pages"
  by (simp add: thread_pages_def take_map drop_map flip: map_append)

lemma presents_pages: "presents s items \<Longrightarrow> \<forall>p \<in> set (pages_in items). length p = 4096"
  by (induction rule: presents.induct) auto

lemma run_turns_end:
  assumes "quiet os" and "layouts fc" and "presents (pr_input (cs_reader st)) items" and "length (pr_page (cs_reader st)) = 4096"
  shows "\<exists>st'. run_turns vec_write fc pipe out_path (os @ StopSet # os') st = Finished (Ret (Inr (), st'))
      \<and> images_written fc (thread_pages os items) st st'"
    and "\<exists>st'. run_turns vec_write fc pipe out_path (os @ PollError e # os') st = Finished (Ret (Inl (CapPoll pipe e), st'))
      \<and> images_written fc (pages_in (take (reads_of os) items)) st st'"
proof -
  obtain st1 where run: "run_turns vec_write fc pipe out_path os st = Running st1"
    "images_written fc (pages_in (take (reads_of os) items)) st st1"
    "presents (pr_input (cs_reader st1)) (drop (reads_of os) items)"
    using run_turns_presents [OF assms presents_pages [OF assms(3)]] by blast
  obtain st' where "drain_pipe vec_write fc out_path st1 = Ret (Inr (), st')"
    "images_written fc (pages_in (until_block (drop (reads_of os) items))) st1 st'"
    using drain_pipe_presents [OF assms(2) run(3)] by blast
  then show "\<exists>st'. run_turns vec_write fc pipe out_path (os @ StopSet # os') st = Finished (Ret (Inr (), st'))
      \<and> images_written fc (thread_pages os items) st st'"
    using run(1) images_written_append [OF run(2)] by (auto simp: run_turns_append thread_pages_def)
  show "\<exists>st'. run_turns vec_write fc pipe out_path (os @ PollError e # os') st = Finished (Ret (Inl (CapPoll pipe e), st'))
      \<and> images_written fc (pages_in (take (reads_of os) items)) st st'"
    using run(1,2) by (simp add: run_turns_append)
qed

lemma pipe_loop_pages:
  assumes "quiet os" and "layouts fc" and "steady (pr_input (cs_reader st))" and "length (pr_page (cs_reader st)) = 4096"
    and "source_bytes (pr_input (cs_reader st)) = concat pages" and "\<forall>p \<in> set pages. length p = 4096"
  shows "\<exists>st'. pipe_loop vec_write fc pipe out_path (os @ StopSet # os') st = Some (Ret (Inr (), st'))
       \<and> images_written fc pages st st'"
  using run_turns_end(1) [OF assms(1,2) presents_end [OF assms(3,5,6)] assms(4), of pipe out_path os']
  by (auto simp: pipe_loop_def thread_pages_whole)

section \<open>Properties\<close>

text \<open>
  C23. What a reader thread writes, exactly: let its pipe hold whole pages, cut and interrupted in any
  way, and block in between; every turn that reads takes the next page or passes the next block, the
  drain after the stop flag takes the pages up to the next block, and the output file has the
  records of these pages in order, with their bytes and events counted. A \<open>poll\<close> that fails ends
  the thread with its error instead.
\<close>

theorem reader_thread_writes_all_pages:
  assumes "layouts fc" and "fs_open fs pipe = Inr s" and "presents s items" and "quiet os"
  shows "let recs = concat (map (image_records fc) (thread_pages os items)) in
    read_cpu_pipe fs vec_ops cpu pipe out_path (os @ StopSet # more_os) fc =
      Some (Ret (Inr (\<lparr>st_cpu = cpu, st_path = out_path, st_bytes_written = of_nat (length (concat recs)),
                      st_events_captured = of_nat (length recs)\<rparr>, concat recs)))
    \<and> read_cpu_pipe fs vec_ops cpu pipe out_path (os @ PollError e # more_os) fc = Some (Ret (Inl (CapPoll pipe e)))"
proof -
  let ?st = "\<lparr>cs_reader = \<lparr>pr_input = s, pr_page = replicate PAGE_SIZE 0, pr_records = []\<rparr>,
     cs_output = [], cs_bytes_written = 0, cs_events_captured = 0\<rparr>"
  from run_turns_end [OF assms(4,1), of ?st items] assms(3) obtain st' st2 where
    "run_turns vec_write fc pipe out_path (os @ StopSet # more_os) ?st = Finished (Ret (Inr (), st'))"
    "images_written fc (thread_pages os items) ?st st'"
    "run_turns vec_write fc pipe out_path (os @ PollError e # more_os) ?st = Finished (Ret (Inl (CapPoll pipe e), st2))"
    by fastforce
  then show ?thesis
    using assms(2) by (simp add: read_cpu_pipe_def pipe_loop_def vec_ops_def images_written_def Let_def)
qed

text \<open>
  C5. From the ring buffer to the reader of traces: if the submits of all pages carry whole
  descriptors, \<open>RecordReader\<close> reads back from the thread's output file exactly the records of the
  events, in order.
\<close>

theorem captured_file_reads_back:
  assumes "binrw_le br" and "layouts fc" and "fs_open fs pipe = Inr s" and "steady s"
    and "source_bytes s = concat pages" and "\<forall>p \<in> set pages. length p = 4096" and "quiet os"
    and "\<forall>p \<in> set pages. list_all (whole_descriptors (fc_submit_id fc) (fc_submit_fmt fc)) (page_events p)"
  shows "\<exists>stats file r'. read_cpu_pipe fs vec_ops cpu pipe out_path (os @ StopSet # more_os) fc = Some (Ret (Inr (stats, file)))
    \<and> drain_records br (reader_new [Data file]) = (raws_at 0 (concat (map (image_records fc) pages)), None, r')"
proof -
  let ?recs = "concat (map (image_records fc) pages)"
  let ?st = "\<lparr>cs_reader = \<lparr>pr_input = s, pr_page = replicate PAGE_SIZE 0, pr_records = []\<rparr>,
     cs_output = [], cs_bytes_written = 0, cs_events_captured = 0\<rparr>"
  obtain st' where "pipe_loop vec_write fc pipe out_path (os @ StopSet # more_os) ?st = Some (Ret (Inr (), st'))"
    "images_written fc pages ?st st'"
    using pipe_loop_pages [OF assms(7,2), of ?st pages pipe out_path more_os] assms(4-6) by auto
  then have run: "\<exists>stats. read_cpu_pipe fs vec_ops cpu pipe out_path (os @ StopSet # more_os) fc
      = Some (Ret (Inr (stats, concat ?recs)))"
    using assms(3) by (simp add: read_cpu_pipe_def vec_ops_def images_written_def Let_def)
  have "list_all valid_record ?recs"
    using assms(2,8) page_records_valid
    by (fastforce simp: list_all_iff image_records_def layouts_def)
  then obtain r' where "drain_records br (reader_new [Data (concat ?recs)]) = (raws_at 0 ?recs, None, r')"
    using drain_concat [OF assms(1)] by blast
  with run show ?thesis by blast
qed

lemma page_images_part:
  "\<forall>p \<in> set pages. length p = 4096 \<Longrightarrow> length prev = 4096 \<Longrightarrow> part \<noteq> [] \<Longrightarrow> length part < 4096 \<Longrightarrow>
     page_images prev (concat pages @ part) = pages @ [part @ drop (length part) (last (prev # pages))]"
proof (induction pages arbitrary: prev)
  case Nil
  then show ?case by (subst page_images.simps) (simp add: Let_def)
next
  case (Cons p ps)
  then have "page_images p (concat ps @ part) = ps @ [part @ drop (length part) (last (p # ps))]" by simp
  then show ?case using Cons.prems(1,2) by (simp add: page_images_page)
qed

text \<open>
  C37. A drain that meets a part of a page parses a whole buffer: behind the bytes that were read
  stand those of the page before (zeros before the first), and what they hold is written as if the
  pipe had delivered it. A part that is the front of the page before repeats all records of that page.
\<close>

theorem short_read_repeats_records:
  assumes "layouts fc" and "pr_input (cs_reader st) = b @ rest" and "steady b" and "blocks rest" and "blocks (tl rest)"
    and "source_bytes b = concat pages @ part" and "\<forall>p \<in> set pages. length p = 4096"
    and "part \<noteq> []" and "length part < 4096"
  shows "\<exists>st'. drain_pipe vec_write fc out_path st = Ret (Inr (), st')
    \<and> cs_output st' = cs_output st @ concat (concat (map (image_records fc) pages))
        @ concat (image_records fc (part @ drop (length part) (last (replicate 4096 0 # pages))))
    \<and> (pages \<noteq> [] \<and> part = take (length part) (last pages) \<longrightarrow>
         cs_output st' = cs_output st @ concat (concat (map (image_records fc) (pages @ [last pages]))))"
proof -
  have images: "page_images (replicate 4096 0) (source_bytes b)
      = pages @ [part @ drop (length part) (last (replicate 4096 0 # pages))]"
    unfolding assms(6) using assms(7-9) by (intro page_images_part) simp_all
  have "4096 dvd length (concat pages)" using assms(7) by (induction pages) auto
  then have "\<not> 4096 dvd length (source_bytes b)"
    using assms(6,8,9) by (auto simp: dvd_add_right_iff simp del: length_concat dest: dvd_imp_le)
  then obtain st1 where st1: "drain_pipe vec_write fc out_path st = drain_pages vec_write fc out_path st1"
    "images_written fc (page_images (replicate 4096 0) (source_bytes b)) st st1"
    "pr_input (cs_reader st1) = tl rest" "length (pr_page (cs_reader st1)) = 4096"
    using drain_pipe_burst [OF assms(1,3,4,2), of out_path] by auto
  obtain st' where "drain_pages vec_write fc out_path st1 = Ret (Inr (), st')" "images_written fc [] st1 st'"
    using drain_pages_burst [OF assms(1) _ assms(5), of "[]" st1 out_path] st1(3,4) by auto
  moreover have "part @ drop (length part) (last pages) = last pages" if "part = take (length part) (last pages)"
    using that append_take_drop_id [of "length part" "last pages"] by simp
  ultimately show ?thesis
    using st1(1,2) images by (auto simp: images_written_def Let_def)
qed

section \<open>Witnesses\<close>

text \<open>A page of one completion as the kernel packs it, and a capture with its tables.\<close>

definition sample_page :: "byte list" where
  "sample_page = ring_page 7 [TimeStamp 0 1000, SmallEvent 5 sample_event] (replicate (4080 - length (concat (map ring_bytes [TimeStamp 0 1000, SmallEvent 5 sample_event]))) 0)"

definition sample_fc :: ftrace_capture where
  "sample_fc = \<lparr>fc_tracing_dir = ''/t'', fc_submit_id = 9, fc_complete_id = 8, fc_submit_fmt = sample_submit_format,
     fc_complete_fmt = sample_complete_format\<rparr>"

lemma sample_page_facts:
  "length sample_page = 4096" "layouts sample_fc" "image_records sample_fc sample_page
     = [wire_record (Complete (complete_event sample_event 1005 sample_complete_format))]"
  "list_all (whole_descriptors (fc_submit_id sample_fc) (fc_submit_fmt sample_fc)) (page_events sample_page)"
proof -
  have ev: "page_events sample_page = ring_events 7 [TimeStamp 0 1000, SmallEvent 5 sample_event]"
    unfolding sample_page_def by (rule page_events_ring_page [OF sample_entries(1) list.distinct(2) sample_entries(2)])
  show "image_records sample_fc sample_page = [wire_record (Complete (complete_event sample_event 1005 sample_complete_format))]"
    unfolding image_records_def ev
    by (simp add: sample_fc_def page_records_def event_record_def sample_event_type del: wire_record.simps)
      (simp add: sample_complete_format_def)
  show "list_all (whole_descriptors (fc_submit_id sample_fc) (fc_submit_fmt sample_fc)) (page_events sample_page)"
    by (simp add: ev sample_fc_def whole_descriptors_def sample_event_type)
  show "length sample_page = 4096"
    using sample_entries(2) by (simp add: sample_page_def ring_page_def del: ring_bytes.simps)
  show "layouts sample_fc" by (simp add: layouts_def sample_fc_def sample_layouts)
qed

definition pipe_files :: "source \<Rightarrow> file_system" where
  "pipe_files s = \<lparr>fs_is_dir = (\<lambda>_. False), fs_is_file = (\<lambda>_. True), fs_read_dir = (\<lambda>_. Inr []), fs_open = (\<lambda>_. Inr s)\<rparr>"

definition cut_source :: source where
  "cut_source = [Data (take 100 sample_page), Fails (IoError Interrupted []), Data (drop 100 sample_page), Data sample_page]"

lemma cut_source_facts: "steady cut_source" "source_bytes cut_source = concat [sample_page, sample_page]"
  "\<forall>p \<in> set [sample_page, sample_page]. length p = 4096" "quiet [PollTimeout, PollInput, PollInterrupted]"
  "fs_open (pipe_files cut_source) pipe = Inr cut_source"
  using sample_page_facts(1) by (auto simp: cut_source_def quiet_def pipe_files_def)

text \<open>A pipe that blocks twice: the second block ends the drain, and a page stays behind it.\<close>

definition blocking_source :: source where
  "blocking_source = [Data (take 100 sample_page), Fails (IoError Interrupted []), Data (drop 100 sample_page)]
     @ Fails (IoError WouldBlock []) # ([Data sample_page] @ Fails (IoError WouldBlock []) # [Data sample_page])"

definition blocking_items :: "byte list option list" where
  "blocking_items = map Some [sample_page] @ None # (map Some [sample_page] @ None # map Some [sample_page])"

lemma blocking_source_presents: "presents blocking_source blocking_items"
proof -
  have page: "source_bytes [Data sample_page] = concat [sample_page]" "steady [Data sample_page]"
    "\<forall>p \<in> set [sample_page]. length p = 4096"
    using sample_page_facts(1) by auto
  have "steady [Data (take 100 sample_page), Fails (IoError Interrupted []), Data (drop 100 sample_page)]"
    "source_bytes [Data (take 100 sample_page), Fails (IoError Interrupted []), Data (drop 100 sample_page)] = concat [sample_page]"
    using sample_page_facts(1) by auto
  from presents_block [OF this page(3) _ presents_block [OF page(2,1,3) _ presents_end [OF page(2,1,3)]]]
  show ?thesis unfolding blocking_source_def blocking_items_def by simp
qed

lemma blocking_thread_pages: "thread_pages [PollTimeout, PollInput, PollInterrupted, PollInput] blocking_items = [sample_page, sample_page]"
  by (simp add: thread_pages_def blocking_items_def until_block_def)

lemma reader_thread_writes_all_pages_witness:
  "\<exists>stats. read_cpu_pipe (pipe_files blocking_source) vec_ops 0 ''pipe'' ''cpu0.bin''
       ([PollTimeout, PollInput, PollInterrupted, PollInput] @ [StopSet]) sample_fc =
     Some (Ret (Inr (stats, concat (map (\<lambda>_. wire_record (Complete (complete_event sample_event 1005 sample_complete_format))) [0, 1 :: nat]))))
     \<and> st_events_captured stats = 2"
proof -
  have "quiet [PollTimeout, PollInput, PollInterrupted, PollInput]" by (simp add: quiet_def)
  moreover have "fs_open (pipe_files blocking_source) ''pipe'' = Inr blocking_source" by (simp add: pipe_files_def)
  ultimately show ?thesis
    using reader_thread_writes_all_pages [OF sample_page_facts(2) _ blocking_source_presents,
        of "pipe_files blocking_source" "''pipe''" "[PollTimeout, PollInput, PollInterrupted, PollInput]" 0 "''cpu0.bin''" "[]"]
    by (simp add: blocking_thread_pages sample_page_facts(3) Let_def del: wire_record.simps length_concat)
qed

lemma captured_file_reads_back_witness:
  "\<exists>stats file r'. read_cpu_pipe (pipe_files cut_source) vec_ops 0 ''pipe'' ''cpu0.bin''
       ([PollTimeout, PollInput, PollInterrupted] @ [StopSet]) sample_fc = Some (Ret (Inr (stats, file)))
     \<and> drain_records le_binrw (reader_new [Data file])
       = (raws_at 0 (map (\<lambda>_. wire_record (Complete (complete_event sample_event 1005 sample_complete_format))) [0, 1 :: nat]), None, r')"
proof -
  have "\<forall>p \<in> set [sample_page, sample_page].
      list_all (whole_descriptors (fc_submit_id sample_fc) (fc_submit_fmt sample_fc)) (page_events p)"
    using sample_page_facts(4) by simp
  from captured_file_reads_back [OF binrw_le_le_binrw sample_page_facts(2) cut_source_facts(5,1-4) this,
      of 0 "''pipe''" "''cpu0.bin''" "[]"]
  show ?thesis by (simp add: sample_page_facts(3) del: wire_record.simps)
qed

lemma short_read_repeats_records_witness:
  "\<exists>st'. drain_pipe vec_write sample_fc ''cpu0.bin''
       \<lparr>cs_reader = \<lparr>pr_input = [Data (sample_page @ take 64 sample_page), Fails (IoError WouldBlock [])], pr_page = [], pr_records = []\<rparr>,
        cs_output = [], cs_bytes_written = 0, cs_events_captured = 0\<rparr> = Ret (Inr (), st')
     \<and> cs_output st' = concat (map (\<lambda>_. wire_record (Complete (complete_event sample_event 1005 sample_complete_format))) [0, 1 :: nat])"
  (is "\<exists>st'. drain_pipe vec_write sample_fc ''cpu0.bin'' ?st = Ret (Inr (), st') \<and> _")
proof -
  have "pr_input (cs_reader ?st) = [Data (sample_page @ take 64 sample_page)] @ [Fails (IoError WouldBlock [])]"
    "steady [Data (sample_page @ take 64 sample_page)]"
    "source_bytes [Data (sample_page @ take 64 sample_page)] = concat [sample_page] @ take 64 sample_page"
    "\<forall>p \<in> set [sample_page]. length p = 4096" "take 64 sample_page \<noteq> []" "length (take 64 sample_page) < 4096"
    using sample_page_facts(1) by auto
  from short_read_repeats_records [OF sample_page_facts(2) this(1,2) _ _ this(3-6)] sample_page_facts(1)
  show ?thesis by (simp add: sample_page_facts(3) del: wire_record.simps)
qed

end
