(* ===== verification/Capture_Session.thy ===== *)
theory Capture_Session
  imports Capture
begin

text \<open>
  The order of a whole capture (\<open>capture\<close> in \<open>capture.rs\<close>): set-up, the threads, the stop, the
  check for lost events and the clean-up, over the control files of \<open>Ftrace\_Session\<close>.
\<close>

section \<open>The capture command\<close>

datatype thread_end = ThreadOk capture_stats | ThreadErr capture_error | ThreadPanicked













text \<open>The end of the thread of a CPU, from its run.\<close>

definition thread_end_of :: "(capture_error + capture_stats \<times> 'w) outcome \<Rightarrow> thread_end" where
  "thread_end_of r =
     (case r of Panic \<Rightarrow> ThreadPanicked | Ret (Inl e) \<Rightarrow> ThreadErr e | Ret (Inr (stats, w)) \<Rightarrow> ThreadOk stats)"















section \<open>Properties\<close>


text \<open>A tracing directory with the two events and two CPUs.\<close>

definition table_text :: "(string \<times> nat) list \<Rightarrow> string" where
  "table_text table = format_text (map (\<lambda>(name, offset). Inr \<lparr>ff_type = ''u32'', ff_name = name, ff_bounds = [],
     ff_offset = offset, ff_rest = ''size:4;signed:0''\<rparr>) table)"

definition submit_table :: "(string \<times> nat) list" where
  "submit_table = [(''ctrl_id'', 8), (''qid'', 12), (''cid'', 16), (''data_len'', 20), (''meta_len'', 24),
     (''use_sgl'', 28), (''single_segment'', 29), (''sqe'', 30), (''descriptors'', 96)]"

definition complete_table :: "(string \<times> nat) list" where
  "complete_table = [(''ctrl_id'', 8), (''qid'', 12), (''cid'', 16), (''result'', 24), (''sq_head'', 32),
     (''sq_id'', 34), (''status'', 36), (''retries'', 38)]"

lemma table_text_offset:
  assumes "\<forall>(name, offset) \<in> set table. offset < 2 ^ 64"
    and "\<forall>(name, offset) \<in> set table. name \<noteq> [] \<and> (\<forall>c \<in> set name. \<not> is_space c \<and> c \<noteq> CHR '';'' \<and> c \<noteq> CHR ''['')"
  shows "format_field_offset (table_text table) name = map_of table name"
proof -
  have nl: "newline_char = CHR 0x0A" "char_of (13 :: nat) = CHR 0x0D" by code_simp+
  let ?ls = "map (\<lambda>(name, offset). Inr \<lparr>ff_type = ''u32'', ff_name = name, ff_bounds = [],
     ff_offset = offset, ff_rest = ''size:4;signed:0''\<rparr>) table :: (string + format_field) list"
  have "\<forall>l \<in> set ?ls. wf_line l"
    using assms by (fastforce simp: wf_field_def plain_def nl)
  moreover have "declared_offset name ?ls = map_of table name" by (induction table) auto
  ultimately show ?thesis unfolding table_text_def by (simp only: format_text_offset)
qed

lemma table_offsets:
  "format_field_offset (table_text submit_table) name = map_of submit_table name"
  "format_field_offset (table_text complete_table) name = map_of complete_table name"
proof -
  have "\<forall>(name, offset) \<in> set submit_table. offset < 2 ^ 64" "\<forall>(name, offset) \<in> set complete_table. offset < 2 ^ 64"
    by (simp_all add: submit_table_def complete_table_def)
  moreover have "\<forall>(name, offset) \<in> set submit_table. name \<noteq> [] \<and> (\<forall>c \<in> set name. \<not> is_space c \<and> c \<noteq> CHR '';'' \<and> c \<noteq> CHR ''['')"
    "\<forall>(name, offset) \<in> set complete_table. name \<noteq> [] \<and> (\<forall>c \<in> set name. \<not> is_space c \<and> c \<noteq> CHR '';'' \<and> c \<noteq> CHR ''['')"
    by code_simp+
  ultimately show "format_field_offset (table_text submit_table) name = map_of submit_table name"
    "format_field_offset (table_text complete_table) name = map_of complete_table name"
    using table_text_offset by blast+
qed

definition session_files :: "path \<Rightarrow> io_error + string" where
  "session_files p = Inr (
     if p = ''/t/events/nvme/nvme_pci_submit/id'' then ''9''
     else if p = ''/t/events/nvme/nvme_pci_complete/id'' then ''8''
     else if p = ''/t/events/nvme/nvme_pci_submit/format'' then table_text submit_table
     else if p = ''/t/events/nvme/nvme_pci_complete/format'' then table_text complete_table
     else [])"

lemma session_reads:
  "read_event_id (log_tracefs (\<lambda>_. False) (\<lambda>_ _. False) session_files dirs) ''/t'' ''nvme'' ''nvme_pci_submit'' lg = Inr 9"
  "read_event_id (log_tracefs (\<lambda>_. False) (\<lambda>_ _. False) session_files dirs) ''/t'' ''nvme'' ''nvme_pci_complete'' lg = Inr 8"
  "parse_submit_format (log_tracefs (\<lambda>_. False) (\<lambda>_ _. False) session_files dirs) ''/t'' lg = Inr sample_submit_format"
  "parse_complete_format (log_tracefs (\<lambda>_. False) (\<lambda>_ _. False) session_files dirs) ''/t'' lg = Inr sample_complete_format"
proof -
  have d: "show_nat 9 = ''9''" "show_nat 8 = ''8''" by code_simp+
  have "trim ''9'' = ''9''" "trim ''8'' = ''8''" by (simp_all add: trim_def is_space_def)
  then show "read_event_id (log_tracefs (\<lambda>_. False) (\<lambda>_ _. False) session_files dirs) ''/t'' ''nvme'' ''nvme_pci_submit'' lg = Inr 9"
    "read_event_id (log_tracefs (\<lambda>_. False) (\<lambda>_ _. False) session_files dirs) ''/t'' ''nvme'' ''nvme_pci_complete'' lg = Inr 8"
    using parse_show_nat [of _ 9] parse_show_nat [of _ 8]
    by (simp_all add: read_event_id_def event_file_def path_join_def read_to_string_def log_tracefs_def session_files_def d)
  show "parse_submit_format (log_tracefs (\<lambda>_. False) (\<lambda>_ _. False) session_files dirs) ''/t'' lg = Inr sample_submit_format"
    by (simp add: parse_submit_format_def read_format_def event_file_def path_join_def read_to_string_def
        log_tracefs_def session_files_def format_result_def submit_format_of_def require_offset_def
        table_offsets sample_submit_format_def) (simp add: submit_table_def)
  show "parse_complete_format (log_tracefs (\<lambda>_. False) (\<lambda>_ _. False) session_files dirs) ''/t'' lg = Inr sample_complete_format"
    by (simp add: parse_complete_format_def read_format_def event_file_def path_join_def read_to_string_def
        log_tracefs_def session_files_def format_result_def complete_format_of_def require_offset_def
        table_offsets sample_complete_format_def) (simp add: complete_table_def)
qed

lemma session_setup:
  "\<exists>log1. ftrace_setup (log_tracefs (\<lambda>_. False) (\<lambda>_ _. False) session_files two_cpu_dirs) ''/t'' None 8 [] = (Inr sample_fc, log1)"
  using two_cpus [of "\<lambda>_. False" "\<lambda>_ _. False" session_files "[]"]
  by (simp add: ftrace_setup_def act_bind_def act_read_def act_return_def setup_filter_def num_online_cpus_def
      session_reads sample_fc_def write_file_log write_fault_def)

definition session_threads :: "nat \<Rightarrow> thread_end" where
  "session_threads c =
     ThreadOk \<lparr>st_cpu = c, st_path = [], st_bytes_written = 0, st_events_captured = 0\<rparr>"

end
