(* ===== verification/Capture_Threads.thy ===== *)
theory Capture_Threads
  imports Capture
begin

text \<open>
  The reader threads of a capture running side by side (\<open>capture.rs\<close>): a step relation in which
  one thread makes one turn of its loop, or the main thread sets the stop flag. A turn reads the
  flag once, at its start, so what another thread does during it is as if done after it. The
  threads share nothing but the flag: each has its own pipe and its own output.
\<close>

section \<open>The threads together\<close>

text \<open>What is fixed for a capture: its CPUs, the session, and the pipe and the output of each.\<close>

record 'w capture_setup =
  cc_cpus :: "nat set"
  cc_write :: "'w writer"
  cc_session :: ftrace_capture
  cc_pipe :: "nat \<Rightarrow> path"
  cc_out :: "nat \<Rightarrow> path"

record 'w capture_sys =
  sys_stop :: bool
  sys_threads :: "nat \<Rightarrow> 'w thread_state"

abbreviation turn_at :: "'w capture_setup \<Rightarrow> nat \<Rightarrow> observation \<Rightarrow> 'w cpu_state \<Rightarrow> 'w thread_state" where
  "turn_at cc c \<equiv> pipe_turn (cc_write cc) (cc_session cc) (cc_pipe cc c) (cc_out cc c)"

abbreviation turns_at :: "'w capture_setup \<Rightarrow> nat \<Rightarrow> observation list \<Rightarrow> 'w cpu_state \<Rightarrow> 'w thread_state" where
  "turns_at cc c \<equiv> run_turns (cc_write cc) (cc_session cc) (cc_pipe cc c) (cc_out cc c)"

text \<open>
  A thread that finds the flag set drains its pipe; one that does not observes whatever \<open>poll\<close>
  returns, of the results \<open>obs\<close>.
\<close>

inductive capture_step :: "'w capture_setup \<Rightarrow> observation set \<Rightarrow> 'w capture_sys \<Rightarrow> 'w capture_sys \<Rightarrow> bool"
  for cc obs where
  set_stop: "\<not> sys_stop s \<Longrightarrow> capture_step cc obs s (s\<lparr>sys_stop := True\<rparr>)"
| poll_turn: "c \<in> cc_cpus cc \<Longrightarrow> sys_threads s c = Running st \<Longrightarrow> \<not> sys_stop s \<Longrightarrow> ob \<in> obs \<Longrightarrow> ob \<noteq> StopSet \<Longrightarrow>
    capture_step cc obs s (s\<lparr>sys_threads := (sys_threads s)(c := turn_at cc c ob st)\<rparr>)"
| stop_turn: "c \<in> cc_cpus cc \<Longrightarrow> sys_threads s c = Running st \<Longrightarrow> sys_stop s \<Longrightarrow>
    capture_step cc obs s (s\<lparr>sys_threads := (sys_threads s)(c := turn_at cc c StopSet st)\<rparr>)"

definition sys_start :: "(nat \<Rightarrow> 'w cpu_state) \<Rightarrow> 'w capture_sys" where
  "sys_start sts = \<lparr>sys_stop = False, sys_threads = \<lambda>c. Running (sts c)\<rparr>"

text \<open>
  What a thread has done alone: turns on observations of \<open>obs\<close>, followed by the one on the stop
  flag once it is set and the thread has gone on.
\<close>

definition alone :: "'w capture_setup \<Rightarrow> observation set \<Rightarrow> nat \<Rightarrow> bool \<Rightarrow> 'w cpu_state \<Rightarrow> 'w thread_state \<Rightarrow> bool" where
  "alone cc obs c stop st0 ts \<longleftrightarrow>
     (\<exists>os. set os \<subseteq> obs - {StopSet} \<and> (turns_at cc c os st0 = ts \<or> (stop \<and> turns_at cc c (os @ [StopSet]) st0 = ts)))"

lemma run_turns_snoc:
  "run_turns w fc pipe out_path (os @ [ob]) st =
     (case run_turns w fc pipe out_path os st of
        Running st' \<Rightarrow> pipe_turn w fc pipe out_path ob st'
      | Finished r \<Rightarrow> Finished r)"
  by (simp add: run_turns_append split: thread_state.split)

lemma alone_poll:
  assumes "alone cc obs c False st0 (Running st)" and "ob \<in> obs" and "ob \<noteq> StopSet"
  shows "alone cc obs c False st0 (turn_at cc c ob st)"
proof -
  obtain os where os: "set os \<subseteq> obs - {StopSet}" "turns_at cc c os st0 = Running st"
    using assms(1) by (auto simp: alone_def)
  then have "turns_at cc c (os @ [ob]) st0 = turn_at cc c ob st" by (simp add: run_turns_snoc)
  moreover have "set (os @ [ob]) \<subseteq> obs - {StopSet}" using os(1) assms(2,3) by simp
  ultimately show ?thesis unfolding alone_def by blast
qed

lemma alone_stop:
  assumes "alone cc obs c True st0 (Running st)"
  shows "alone cc obs c True st0 (turn_at cc c StopSet st)"
proof -
  have "turns_at cc c (os @ [StopSet]) st0 \<noteq> Running st" for os
    by (auto simp: run_turns_snoc split: thread_state.splits)
  then obtain os where os: "set os \<subseteq> obs - {StopSet}" "turns_at cc c os st0 = Running st"
    using assms by (auto simp: alone_def)
  then have "turns_at cc c (os @ [StopSet]) st0 = turn_at cc c StopSet st" by (simp add: run_turns_snoc)
  then show ?thesis using os(1) unfolding alone_def by blast
qed

lemma reachable_alone:
  assumes "(capture_step cc obs)\<^sup>*\<^sup>* (sys_start sts) s"
  shows "alone cc obs c (sys_stop s) (sts c) (sys_threads s c)"
  using assms
proof (induction rule: rtranclp_induct)
  case base
  show ?case by (auto simp: sys_start_def alone_def intro!: exI [of _ "[]"])
next
  case (step s s')
  from step.hyps(2) step.IH show ?case
  proof (cases rule: capture_step.cases)
    case set_stop
    then show ?thesis using step.IH by (auto simp: alone_def)
  next
    case (poll_turn d st ob)
    then show ?thesis using step.IH alone_poll [of cc obs c "sts c" st ob] by auto
  next
    case (stop_turn d st)
    then show ?thesis using step.IH alone_stop [of cc obs c "sts c" st] by auto
  qed
qed

section \<open>Threads that still run\<close>

definition running :: "'w capture_setup \<Rightarrow> 'w capture_sys \<Rightarrow> nat set" where
  "running cc s = {c \<in> cc_cpus cc. \<exists>st. sys_threads s c = Running st}"

lemma stopped_step:
  assumes "capture_step cc obs s s'" and "sys_stop s" and "finite (cc_cpus cc)"
  shows "sys_stop s' \<and> card (running cc s) = Suc (card (running cc s'))"
  using assms(1)
proof (cases rule: capture_step.cases)
  case (stop_turn c st)
  have "running cc s' = running cc s - {c}" "c \<in> running cc s" "finite (running cc s)"
    using stop_turn assms(3) by (auto simp: running_def)
  then show ?thesis using stop_turn assms(2) card.remove [of "running cc s" c] by simp
qed (use assms(2) in auto)

lemma stopped_progress:
  "sys_stop s \<Longrightarrow> running cc s \<noteq> {} \<Longrightarrow> \<exists>s'. capture_step cc obs s s'"
  by (auto simp: running_def intro: stop_turn)

lemma stopped_steps:
  assumes "finite (cc_cpus cc)"
  shows "(capture_step cc obs ^^ k) s s' \<Longrightarrow> sys_stop s \<Longrightarrow> sys_stop s' \<and> card (running cc s) = k + card (running cc s')"
proof (induction k arbitrary: s')
  case (Suc k)
  then obtain u where u: "(capture_step cc obs ^^ k) s u" "capture_step cc obs u s'" by auto
  then show ?case using Suc stopped_step [OF u(2) _ assms] by auto
qed simp

lemma stopped_run:
  assumes "finite (cc_cpus cc)"
  shows "sys_stop s \<Longrightarrow> card (running cc s) = n \<Longrightarrow> \<exists>s'. (capture_step cc obs ^^ n) s s'"
proof (induction n arbitrary: s)
  case (Suc n)
  then have "running cc s \<noteq> {}" by auto
  then obtain u where u: "capture_step cc obs s u" using stopped_progress Suc.prems(1) by blast
  then have "sys_stop u" "card (running cc u) = n" using stopped_step [OF u _ assms] Suc.prems by auto
  then obtain s' where "(capture_step cc obs ^^ n) u s'" using Suc.IH by blast
  then show ?case using u by (metis relpowp_Suc_I2)
qed auto

section \<open>Properties\<close>

text \<open>The observations of a thread that has ended: it went on until the flag, or a \<open>poll\<close> that failed.\<close>

lemma quiet_or_error:
  "StopSet \<notin> set os \<Longrightarrow> quiet os \<or> (\<exists>os1 e os2. os = os1 @ PollError e # os2 \<and> quiet os1)"
proof (induction os)
  case (Cons ob os)
  show ?case
  proof (cases "\<exists>e. ob = PollError e")
    case True
    then show ?thesis by (auto simp: quiet_def intro!: disjI2 exI [of _ "[]"])
  next
    case False
    then have ob: "ob \<in> {PollTimeout, PollNoInput, PollInput, PollInterrupted}" using Cons.prems by (cases ob) auto
    consider "quiet os" | os1 e os2 where "os = os1 @ PollError e # os2" "quiet os1" using Cons by auto
    then show ?thesis
    proof cases
      case 1
      then show ?thesis using ob by (simp add: quiet_def)
    next
      case (2 os1 e os2)
      then have "ob # os = (ob # os1) @ PollError e # os2" "quiet (ob # os1)" using ob by (simp_all add: quiet_def)
      then show ?thesis by blast
    qed
  qed
qed (simp add: quiet_def)

text \<open>
  C4. No interleaving disturbs a thread, and none ends it early: in every state that the capture can
  reach, with \<open>poll\<close> returning anything, a thread on a pipe of whole pages that has ended either
  drained its pipe after the flag was set, and has written and counted the records of exactly the
  pages that its turns and the drain take, in order; or one of its polls failed, its end is that
  error, and the pages of its turns before are written.
\<close>

theorem every_interleaving_captures_all:
  assumes "(capture_step cc obs)\<^sup>*\<^sup>* (sys_start sts) s"
    and "sys_threads s c = Finished r" and "cc_write cc = vec_write" and "layouts (cc_session cc)"
    and "presents (pr_input (cs_reader (sts c))) items" and "length (pr_page (cs_reader (sts c))) = 4096"
  shows "\<exists>os st'. quiet os \<and> set os \<subseteq> obs
    \<and> (sys_stop s \<and> r = Ret (Inr (), st') \<and> images_written (cc_session cc) (thread_pages os items) (sts c) st'
       \<or> (\<exists>e. PollError e \<in> obs \<and> r = Ret (Inl (CapPoll (cc_pipe cc c) e), st')
            \<and> images_written (cc_session cc) (pages_in (take (reads_of os) items)) (sts c) st'))"
proof -
  obtain os where os: "set os \<subseteq> obs - {StopSet}"
    and r: "turns_at cc c os (sts c) = Finished r \<or> (sys_stop s \<and> turns_at cc c (os @ [StopSet]) (sts c) = Finished r)"
    using reachable_alone [OF assms(1), of c] assms(2) by (auto simp: alone_def)
  note turns = run_turns_end [OF _ assms(4,5,6), of _ "cc_pipe cc c" "cc_out cc c"]
  have "StopSet \<notin> set os" using os by auto
  then consider "quiet os" | os1 e os2 where "os = os1 @ PollError e # os2" "quiet os1" using quiet_or_error by blast
  then show ?thesis
  proof cases
    case 1
    obtain st1 where "turns_at cc c os (sts c) = Running st1"
      using run_turns_presents [OF 1 assms(4,5,6) presents_pages [OF assms(5)]] assms(3) by auto
    then have "sys_stop s" "turns_at cc c (os @ [StopSet]) (sts c) = Finished r" using r by simp_all
    then show ?thesis using turns(1) [OF 1, of "[]"] assms(3) os 1 by auto
  next
    case (2 os1 e os2)
    obtain st' where st': "turns_at cc c os (sts c) = Finished (Ret (Inl (CapPoll (cc_pipe cc c) e), st'))"
      "images_written (cc_session cc) (pages_in (take (reads_of os1) items)) (sts c) st'"
      using turns(2) [OF 2(2), of e os2] assms(3) 2(1) by auto
    then have "r = Ret (Inl (CapPoll (cc_pipe cc c) e), st')" using r by (auto simp: run_turns_append)
    then show ?thesis using st'(2) os 2 by auto
  qed
qed

text \<open>
  C13. The threads end: once the stop flag is set, every run of the system takes exactly one turn
  for each thread still running, such a run exists, and it can stop nowhere earlier.
\<close>

theorem stopped_threads_finish:
  assumes "finite (cc_cpus cc)" and "sys_stop s"
  shows "(\<exists>s'. (capture_step cc obs ^^ card (running cc s)) s s' \<and> running cc s' = {})
    \<and> (\<forall>k s'. (capture_step cc obs ^^ k) s s' \<longrightarrow>
         (if running cc s' = {} then k = card (running cc s)
          else k < card (running cc s) \<and> (\<exists>s''. capture_step cc obs s' s'')))"
proof (intro conjI allI impI)
  have fin: "finite (running cc u)" for u using assms(1) by (auto simp: running_def)
  obtain s' where s': "(capture_step cc obs ^^ card (running cc s)) s s'"
    using stopped_run [OF assms refl] by blast
  then show "\<exists>s'. (capture_step cc obs ^^ card (running cc s)) s s' \<and> running cc s' = {}"
    using stopped_steps [OF assms(1) s' assms(2)] fin [of s'] by auto
  fix k s'
  assume k: "(capture_step cc obs ^^ k) s s'"
  show "if running cc s' = {} then k = card (running cc s)
      else k < card (running cc s) \<and> (\<exists>s''. capture_step cc obs s' s'')"
    using stopped_steps [OF assms(1) k assms(2)] stopped_progress [of s' cc obs] fin [of s'] by (auto simp: card_gt_0_iff)
qed

text \<open>Two CPUs of one page each: CPU 0 reads its page, the flag is set, CPU 1 drains, CPU 0 ends.\<close>

definition two_cpus_cc :: "byte list capture_setup" where
  "two_cpus_cc = \<lparr>cc_cpus = {0, 1}, cc_write = vec_write, cc_session = sample_fc, cc_pipe = (\<lambda>c. ''pipe''), cc_out = (\<lambda>c. ''out'')\<rparr>"

definition page_state :: "nat \<Rightarrow> byte list cpu_state" where
  "page_state c = \<lparr>cs_reader = \<lparr>pr_input = [Data sample_page], pr_page = replicate 4096 0, pr_records = []\<rparr>,
     cs_output = [], cs_bytes_written = 0, cs_events_captured = 0\<rparr>"

lemma two_cpus_run:
  "\<exists>s r. (capture_step two_cpus_cc {PollTimeout, PollNoInput, PollInput, PollInterrupted})\<^sup>*\<^sup>* (sys_start page_state) s
     \<and> sys_threads s 1 = Finished r"
proof -
  let ?R = "capture_step two_cpus_cc {PollTimeout, PollNoInput, PollInput, PollInterrupted}"
  let ?s0 = "sys_start page_state"
  let ?s1 = "?s0\<lparr>sys_threads := (sys_threads ?s0)(1 := turn_at two_cpus_cc 1 PollTimeout (page_state 1))\<rparr>"
  let ?s2 = "?s1\<lparr>sys_stop := True\<rparr>"
  let ?s3 = "?s2\<lparr>sys_threads := (sys_threads ?s2)(1 := turn_at two_cpus_cc 1 StopSet (page_state 1))\<rparr>"
  have "?R ?s0 ?s1" by (rule poll_turn) (simp_all add: two_cpus_cc_def sys_start_def)
  moreover have "?R ?s1 ?s2" by (rule set_stop) (simp add: sys_start_def)
  moreover have "?R ?s2 ?s3" by (rule stop_turn) (simp_all add: two_cpus_cc_def)
  ultimately have "?R\<^sup>*\<^sup>* ?s0 ?s3" by (meson converse_rtranclp_into_rtranclp r_into_rtranclp)
  then show ?thesis by (intro exI [of _ ?s3] exI) auto
qed

lemma every_interleaving_captures_all_witness:
  "\<exists>(s :: byte list capture_sys) st'. sys_threads s 1 = Finished (Ret (Inr (), st'))
    \<and> images_written sample_fc [sample_page] (page_state 1) st'"
proof -
  obtain s r where run: "(capture_step two_cpus_cc {PollTimeout, PollNoInput, PollInput, PollInterrupted})\<^sup>*\<^sup>* (sys_start page_state) s"
    and r: "sys_threads s 1 = Finished r" using two_cpus_run by blast
  have "presents [Data sample_page] (map Some [sample_page])"
    using sample_page_facts(1) by (intro presents_end) auto
  then have "presents (pr_input (cs_reader (page_state 1))) (map Some [sample_page])"
    "length (pr_page (cs_reader (page_state 1))) = 4096" "cc_write two_cpus_cc = vec_write" "layouts (cc_session two_cpus_cc)"
    using sample_page_facts(2) by (auto simp: page_state_def two_cpus_cc_def)
  from every_interleaving_captures_all [OF run r this(3,4,1,2)]
  obtain st' where "r = Ret (Inr (), st')" "images_written (cc_session two_cpus_cc) [sample_page] (page_state 1) st'"
    unfolding thread_pages_whole by blast
  then show ?thesis using r by (auto simp: two_cpus_cc_def simp del: One_nat_def)
qed

lemma stopped_threads_finish_witness:
  "\<exists>s'. (capture_step two_cpus_cc {} ^^ 2) \<lparr>sys_stop = True, sys_threads = \<lambda>c. Running (page_state c)\<rparr> s' \<and> running two_cpus_cc s' = {}"
proof -
  let ?s = "\<lparr>sys_stop = True, sys_threads = \<lambda>c. Running (page_state c)\<rparr>"
  have "running two_cpus_cc ?s = {0, 1}" "finite (cc_cpus two_cpus_cc)" by (auto simp: running_def two_cpus_cc_def)
  then have "card (running two_cpus_cc ?s) = 2" "finite (cc_cpus two_cpus_cc)" by simp_all
  with stopped_threads_finish [of two_cpus_cc ?s "{}"] show ?thesis by simp
qed

end
