(* ===== verification/Capture_Splice.thy ===== *)
theory Capture_Splice
  imports Capture
begin

text \<open>
  A capture followed by \<open>splice\<close>: the files that the reader threads write (\<open>capture.rs\<close>) are the
  inputs of the merge (\<open>splice.rs\<close>). Records of ftrace carry the sequence number 0, so
  \<open>record\_order\<close> compares them by time and never meets the cycles of other captures.
\<close>

section \<open>The order of captured records\<close>

lemma event_record_header:
  assumes "event_record sid cid sf cf (ts, data) = Some b"
  shows "h_timestamp_ns (header_of b) = ts" and "h_seq (header_of b) = 0"
  using assms
  by (auto simp: event_record_def submit_bytes_def submit_event_def complete_event_def event_header_def Let_def
      simp del: wire_record.simps split: if_splits)

definition captured_headers :: "header set" where
  "captured_headers = {h. h_seq h = 0}"

lemma coherent_captured: "coherent captured_headers"
  by (simp add: coherent_def captured_headers_def)

lemma page_records_seq: "b \<in> set (page_records sid cid sf cf es) \<Longrightarrow> header_of b \<in> captured_headers"
  using event_record_header(2) by (auto simp: page_records_def captured_headers_def split: option.splits)

lemma page_records_simps:
  "page_records sid cid sf cf [] = []"
  "page_records sid cid sf cf (e # es) =
     (case event_record sid cid sf cf e of None \<Rightarrow> [] | Some b \<Rightarrow> [b]) @ page_records sid cid sf cf es"
  by (simp_all add: page_records_def)

lemma page_records_times:
  "b \<in> set (page_records sid cid sf cf es) \<Longrightarrow> h_timestamp_ns (header_of b) \<in> fst ` set es"
proof (induction es)
  case (Cons e es)
  then show ?case
    using event_record_header(1) [of sid cid sf cf "fst e" "snd e"]
    by (auto simp: page_records_simps split: option.splits)
qed (simp add: page_records_simps)

lemma page_records_append:
  "page_records sid cid sf cf (es @ es') = page_records sid cid sf cf es @ page_records sid cid sf cf es'"
  by (simp add: page_records_def)

lemma earlier_in_order:
  "h_seq a = 0 \<Longrightarrow> h_timestamp_ns a < h_timestamp_ns b \<Longrightarrow> record_order a b \<noteq> Greater"
  by (simp add: record_order_def ord_cmp_def)

lemma page_records_sorted:
  "sorted_wrt (<) (map fst es) \<Longrightarrow> records_sorted (page_records sid cid sf cf es)"
proof (induction es)
  case Nil
  then show ?case by (simp add: page_records_simps records_sorted_def)
next
  case (Cons e es)
  have later: "fst e < h_timestamp_ns (header_of b)" if "b \<in> set (page_records sid cid sf cf es)" for b
    using Cons.prems page_records_times [OF that] by auto
  show ?case
  proof (cases "event_record sid cid sf cf e")
    case None
    then show ?thesis using Cons by (simp add: page_records_simps)
  next
    case (Some b)
    then have "h_timestamp_ns (header_of b) = fst e" "h_seq (header_of b) = 0"
      using event_record_header [of sid cid sf cf "fst e" "snd e" b] by simp_all
    then have "\<forall>b' \<in> set (page_records sid cid sf cf es). record_order (header_of b) (header_of b') \<noteq> Greater"
      using later earlier_in_order by simp
    then show ?thesis using Cons Some by (simp add: page_records_simps records_sorted_def)
  qed
qed

definition capture_records :: "ftrace_capture \<Rightarrow> byte list list \<Rightarrow> byte list list" where
  "capture_records fc pages = concat (map (image_records fc) pages)"

lemma capture_records_events:
  "capture_records fc pages =
     page_records (fc_submit_id fc) (fc_complete_id fc) (fc_submit_fmt fc) (fc_complete_fmt fc) (concat (map page_events pages))"
  by (induction pages) (simp_all add: capture_records_def image_records_def page_records_append page_records_simps)

text \<open>Records in order whose sequence numbers are 0 are in the order of their times.\<close>

lemma captured_order_time:
  "h_seq a = 0 \<Longrightarrow> record_order a b \<noteq> Greater \<Longrightarrow> h_timestamp_ns a \<le> h_timestamp_ns b"
  by (auto simp: record_order_def ord_cmp_def split: if_splits)

lemma records_sorted_times:
  "records_sorted bss \<Longrightarrow> \<forall>b \<in> set bss. header_of b \<in> captured_headers \<Longrightarrow> sorted (map (h_timestamp_ns \<circ> header_of) bss)"
  by (induction bss) (auto simp: records_sorted_def captured_headers_def intro: captured_order_time)

section \<open>The pipes and the files\<close>

text \<open>
  A pipe that delivers whole pages, whose submits carry whole descriptors, with events at
  increasing times.
\<close>

definition good_pipe :: "ftrace_capture \<Rightarrow> source \<Rightarrow> byte list list \<Rightarrow> bool" where
  "good_pipe fc src pages \<longleftrightarrow>
     steady src \<and> source_bytes src = concat pages \<and> (\<forall>p \<in> set pages. length p = 4096)
     \<and> (\<forall>p \<in> set pages. list_all (whole_descriptors (fc_submit_id fc) (fc_submit_fmt fc)) (page_events p))
     \<and> sorted_wrt (<) (map fst (concat (map page_events pages)))
     \<and> length (concat (capture_records fc pages)) < 2 ^ 64"

definition out_file :: "path \<Rightarrow> nat \<Rightarrow> path" where
  "out_file out_dir cpu = path_join out_dir (cpu_bin_name cpu)"

definition stored :: "file_system \<Rightarrow> path \<Rightarrow> byte list \<Rightarrow> bool" where
  "stored fs p file \<longleftrightarrow> (\<exists>s. fs_open fs p = Inr s \<and> steady s \<and> source_bytes s = file)"

text \<open>What the thread of a CPU returns, after any observations before the stop.\<close>

definition cpu_thread ::
  "file_system \<Rightarrow> ftrace_capture \<Rightarrow> path \<Rightarrow> observation list \<Rightarrow> nat \<Rightarrow> (capture_error + capture_stats \<times> byte list) outcome option" where
  "cpu_thread fs fc out_dir os cpu =
     read_cpu_pipe fs vec_ops cpu (pipe_path fc cpu) (out_file out_dir cpu) (os @ [StopSet]) fc"

lemma cpu_thread_file:
  assumes "layouts fc" and "fs_open fs (pipe_path fc cpu) = Inr src" and "good_pipe fc src pages" and "quiet os"
  shows "\<exists>stats. cpu_thread fs fc out_dir os cpu = Some (Ret (Inr (stats, concat (capture_records fc pages))))"
proof -
  let ?st = "\<lparr>cs_reader = \<lparr>pr_input = src, pr_page = replicate PAGE_SIZE 0, pr_records = []\<rparr>,
     cs_output = [], cs_bytes_written = 0, cs_events_captured = 0\<rparr>"
  obtain st' where "pipe_loop vec_write fc (pipe_path fc cpu) (out_file out_dir cpu) (os @ StopSet # []) ?st = Some (Ret (Inr (), st'))"
    "images_written fc pages ?st st'"
    using pipe_loop_pages [OF assms(4,1), of ?st pages "pipe_path fc cpu" "out_file out_dir cpu" "[]"] assms(3)
    by (auto simp: good_pipe_def)
  then show ?thesis
    using assms(2) by (simp add: cpu_thread_def read_cpu_pipe_def vec_ops_def images_written_def capture_records_def Let_def)
qed

lemma capture_records_good:
  assumes "layouts fc" and "good_pipe fc src pages"
  shows "list_all valid_record (capture_records fc pages)" and "records_sorted (capture_records fc pages)"
    and "length (concat (capture_records fc pages)) < 2 ^ 64"
    and "\<forall>b \<in> set (capture_records fc pages). header_of b \<in> captured_headers"
proof -
  show "list_all valid_record (capture_records fc pages)"
    using assms page_records_valid
    by (fastforce simp: list_all_iff capture_records_def image_records_def layouts_def good_pipe_def)
  show "records_sorted (capture_records fc pages)" "length (concat (capture_records fc pages)) < 2 ^ 64"
    using assms(2) page_records_sorted by (simp_all only: good_pipe_def capture_records_events)
  show "\<forall>b \<in> set (capture_records fc pages). header_of b \<in> captured_headers"
    using page_records_seq by (simp only: capture_records_events) blast
qed

section \<open>Properties\<close>

text \<open>
  C3. From the ring buffers to the merged trace: whatever each thread observes before the stop, and
  however its pipe and later its file are cut into reads, \<open>splice\<close> on the capture's files writes
  the records of the events of all CPUs, each once, in the order of their times, without a warning.
\<close>

theorem capture_splice_merges_events:
  assumes "binrw_le br" and "layouts fc" and "cpus \<noteq> []"
    and pipes: "\<forall>c \<in> set cpus. fs_open pipes (pipe_path fc c) = Inr (src c) \<and> good_pipe fc (src c) (pages c) \<and> quiet (obs c)"
    and files: "\<forall>c \<in> set cpus. \<forall>stats file. cpu_thread pipes fc out_dir (obs c) c = Some (Ret (Inr (stats, file))) \<longrightarrow>
      stored fs (out_file out_dir c) file"
    and "expand_input_paths fs [out_dir] = (Inr (map (out_file out_dir) cpus) :: 'e command_error + path list)"
  shows "\<exists>obss. splice_command fs vec_ops (br :: 'e binrw) [out_dir] merged = Some (Inr (of_nat (length (concat obss)), concat obss, []))
    \<and> mset obss = mset (concat (map (\<lambda>c. capture_records fc (pages c)) cpus))
    \<and> sorted (map (h_timestamp_ns \<circ> header_of) obss)"
proof -
  let ?recs = "map (\<lambda>c. capture_records fc (pages c)) cpus"
  have good: "layouts fc" "good_pipe fc (src c) (pages c)" if "c \<in> set cpus" for c
    using assms(2) pipes that by simp_all
  have "file_delivers fs (out_file out_dir c) (capture_records fc (pages c))" if "c \<in> set cpus" for c
  proof -
    obtain stats where "cpu_thread pipes fc out_dir (obs c) c = Some (Ret (Inr (stats, concat (capture_records fc (pages c)))))"
      using cpu_thread_file [OF assms(2)] pipes \<open>c \<in> set cpus\<close> by blast
    then have "stored fs (out_file out_dir c) (concat (capture_records fc (pages c)))" using files that by blast
    then show ?thesis using capture_records_good(1) [OF good [OF that]] by (auto simp: stored_def file_delivers_def)
  qed
  then have "list_all2 (file_delivers fs) (map (out_file out_dir) cpus) ?recs"
    by (simp add: list_all2_iff zip_map_map) (auto simp: set_zip)
  moreover have "\<forall>bss \<in> set ?recs. records_sorted bss \<and> length (concat bss) < 2 ^ 64 \<and> (\<forall>b \<in> set bss. header_of b \<in> captured_headers)"
    using capture_records_good(2-4) [OF good] by (simp del: length_concat)
  ultimately obtain obss where obss: "splice_command fs vec_ops br [out_dir] merged = Some (Inr (of_nat (length (concat obss)), concat obss, []))"
    "mset obss = mset (concat ?recs)" "records_sorted obss"
    using splice_command_delivers [OF assms(1,6) _ _ coherent_captured] assms(3) by blast
  have "set obss = set (concat ?recs)" using obss(2) by (metis set_mset_mset)
  then have "\<forall>b \<in> set obss. header_of b \<in> captured_headers" using capture_records_good(4) [OF good] by auto
  then show ?thesis using obss records_sorted_times by blast
qed

text \<open>The captures of CPUs 2 and 10, one page with one completion each, in a directory.\<close>

definition captured_fs :: file_system where
  "captured_fs = two_cpu_fs\<lparr>fs_open := \<lambda>p. Inr [Data (concat (capture_records sample_fc [sample_page]))]\<rparr>"

lemma collect_entries_open: "collect_entries (fs\<lparr>fs_open := f\<rparr>) es = collect_entries fs es"
  by (induction fs es rule: collect_entries.induct) (auto simp: Let_def)

lemma expand_trace_dir_sorted: "expand_trace_dir fs dir = Inr files \<Longrightarrow> sorted (map sort_input_path files)"
  by (auto simp: expand_trace_dir_def try_bind_Inr split: sum.splits)

lemma sample_capture:
  "capture_records sample_fc [sample_page] = [wire_record (Complete (complete_event sample_event 1005 sample_complete_format))]"
  "good_pipe sample_fc [Data sample_page] [sample_page]"
proof -
  show recs: "capture_records sample_fc [sample_page] = [wire_record (Complete (complete_event sample_event 1005 sample_complete_format))]"
    using sample_page_facts(3) by (simp add: capture_records_def del: wire_record.simps)
  have ev: "page_events sample_page = ring_events 7 [TimeStamp 0 1000, SmallEvent 5 sample_event]"
    unfolding sample_page_def by (rule page_events_ring_page [OF sample_entries(1) list.distinct(2) sample_entries(2)])
  have "length (page_events sample_page) \<le> 1" by (simp add: ev)
  then have "sorted_wrt (<) (map fst (page_events sample_page))"
    by (cases "page_events sample_page") auto
  moreover have "sample_page \<noteq> []" using sample_page_facts(1) by auto
  moreover have "length (concat (capture_records sample_fc [sample_page])) = 40"
    unfolding recs by simp
  ultimately show "good_pipe sample_fc [Data sample_page] [sample_page]"
    using sample_page_facts(1,4) by (simp add: good_pipe_def del: length_concat)
qed

lemma capture_splice_merges_events_witness:
  "\<exists>obss. splice_command captured_fs vec_ops le_binrw [''d''] ''all.bin''
      = Some (Inr (of_nat (length (concat obss)), concat obss, []))
    \<and> mset obss = mset (concat (map (\<lambda>c. capture_records sample_fc [sample_page]) [2, 10 :: nat]))
    \<and> sorted (map (h_timestamp_ns \<circ> header_of) obss)"
proof -
  let ?pipes = "pipe_files [Data sample_page]"
  have pipes: "\<forall>c \<in> set [2, 10 :: nat]. fs_open ?pipes (pipe_path sample_fc c) = Inr [Data sample_page]
      \<and> good_pipe sample_fc [Data sample_page] [sample_page] \<and> quiet [PollInput]"
    using sample_capture(2) by (simp add: pipe_files_def quiet_def)
  have "concat (capture_records sample_fc [sample_page]) \<noteq> []"
    unfolding sample_capture(1) by (simp add: wire_header_def)
  then have files: "\<forall>c \<in> set [2, 10 :: nat]. \<forall>stats file. cpu_thread ?pipes sample_fc ''d'' [PollInput] c = Some (Ret (Inr (stats, file))) \<longrightarrow>
      stored captured_fs (out_file ''d'' c) file"
    using cpu_thread_file [OF sample_page_facts(2), of ?pipes _ "[Data sample_page]" "[sample_page]" "[PollInput]" "''d''"] pipes
    by (fastforce simp: stored_def captured_fs_def simp del: concat_eq_Nil_conv)
  have "cpu_bin_name 10 = ''cpu10.bin''" "cpu_bin_name 2 = ''cpu2.bin''" by code_simp+
  then have "map (out_file ''d'') [2, 10] = [''d/cpu2.bin'', ''d/cpu10.bin'']"
    by (simp add: out_file_def path_join_def)
  moreover have dir: "expand_trace_dir captured_fs ''d'' = (Inr [''d/cpu2.bin'', ''d/cpu10.bin''] :: unit command_error + path list)"
    using expand_two_cpus
    by (cases "fs_read_dir two_cpu_fs ''d''") (simp_all add: captured_fs_def expand_trace_dir_def collect_entries_open)
  moreover have "fs_is_dir captured_fs ''d''" by (simp add: captured_fs_def two_cpu_fs_def)
  moreover have "sort_key sort_input_path [''d/cpu2.bin'', ''d/cpu10.bin''] = [''d/cpu2.bin'', ''d/cpu10.bin'']"
    using sort_key_id_if_sorted [OF expand_trace_dir_sorted [OF dir]] .
  ultimately have "expand_input_paths captured_fs [''d''] = (Inr (map (out_file ''d'') [2, 10]) :: unit command_error + path list)"
    by (simp only: expand_input_paths_def expand_inputs.simps if_True try_bind.simps append_Nil2)
  from capture_splice_merges_events [OF binrw_le_le_binrw sample_page_facts(2) _ pipes files this]
  show ?thesis by simp
qed

end
