(* ===== verification/Print.thy ===== *)
theory Print
  imports Trace_Commands
begin

text \<open>
  The command \<open>print\<close> (\<open>print.rs\<close>): one line of text for every record of every input. Standard
  output is the list of the lines printed; a failing standard output is not modelled. A record's
  submission queue entry is a byte list of 64 bytes, the array of the struct.
\<close>

section \<open>Opcodes\<close>

definition ASSUMED_NVME_CTRL_PAGE_SIZE :: nat where "ASSUMED_NVME_CTRL_PAGE_SIZE = 4096"

datatype nvme_opcode =
    OpFlush | OpWrite | OpRead | OpWriteUncorrectable | OpCompare | OpWriteZeroes
  | OpDatasetManagement | OpVerify | OpOther u8

definition is_read_or_write :: "nvme_opcode \<Rightarrow> bool" where
  "is_read_or_write opc \<longleftrightarrow> opc = OpRead \<or> opc = OpWrite"

definition opcode_of :: "u8 \<Rightarrow> nvme_opcode" where
  "opcode_of value =
     (if value = 0x00 then OpFlush
      else if value = 0x01 then OpWrite
      else if value = 0x02 then OpRead
      else if value = 0x04 then OpWriteUncorrectable
      else if value = 0x05 then OpCompare
      else if value = 0x08 then OpWriteZeroes
      else if value = 0x09 then OpDatasetManagement
      else if value = 0x0c then OpVerify
      else OpOther value)"

fun opcode_text :: "nvme_opcode \<Rightarrow> string" where
  "opcode_text OpFlush = ''flush(0x00)''"
| "opcode_text OpWrite = ''write(0x01)''"
| "opcode_text OpRead = ''read(0x02)''"
| "opcode_text OpWriteUncorrectable = ''write_uncorrectable(0x04)''"
| "opcode_text OpCompare = ''compare(0x05)''"
| "opcode_text OpWriteZeroes = ''write_zeroes(0x08)''"
| "opcode_text OpDatasetManagement = ''dataset_management(0x09)''"
| "opcode_text OpVerify = ''verify(0x0c)''"
| "opcode_text (OpOther value) = ''unknown(0x'' @ show_hex 2 (unat value) @ '')''"

section \<open>Fields of the submission queue entry\<close>

definition sqe_le_u16 :: "submit_record \<Rightarrow> nat \<Rightarrow> u16" where
  "sqe_le_u16 submit offset = from_le (slice (s_sqe submit) offset (offset + 2))"

definition sqe_le_u32 :: "submit_record \<Rightarrow> nat \<Rightarrow> u32" where
  "sqe_le_u32 submit offset = from_le (slice (s_sqe submit) offset (offset + 4))"

definition sqe_le_u64 :: "submit_record \<Rightarrow> nat \<Rightarrow> u64" where
  "sqe_le_u64 submit offset = from_le (slice (s_sqe submit) offset (offset + 8))"

definition submit_prps :: "submit_record \<Rightarrow> u64 \<times> u64" where
  "submit_prps submit = (sqe_le_u64 submit 24, sqe_le_u64 submit 32)"

section \<open>Descriptors\<close>

definition prp_text :: "u64 \<Rightarrow> string" where
  "prp_text entry = ''0x'' @ show_hex 16 (unat entry)"

definition format_prp_tail :: "u64 list \<Rightarrow> string" where
  "format_prp_tail entries = ''['' @ join_with '','' (map prp_text entries) @ '']''"

definition sgl_text :: "sgl_desc \<Rightarrow> string" where
  "sgl_text entry =
     ''{addr=0x'' @ show_hex 16 (unat (sgl_addr entry)) @ '',len='' @ show_word (sgl_length entry)
     @ '',type=0x'' @ show_hex 2 (unat (sgl_desc_type entry))
     @ '',reserved='' @ show_hex 2 (unat (sgl_reserved entry ! 0)) @ show_hex 2 (unat (sgl_reserved entry ! 1))
     @ show_hex 2 (unat (sgl_reserved entry ! 2)) @ ''}''"

definition format_sgl_tail :: "sgl_desc list \<Rightarrow> string" where
  "format_sgl_tail entries = ''['' @ join_with '','' (map sgl_text entries) @ '']''"

fun format_submit_tail :: "submit_tail \<Rightarrow> string" where
  "format_submit_tail (Prp entries) = format_prp_tail entries"
| "format_submit_tail (Sgl entries) = format_sgl_tail entries"

section \<open>Lines\<close>

definition format_submit :: "path \<Rightarrow> submit_record \<Rightarrow> u64 \<Rightarrow> u64 \<Rightarrow> string" where
  "format_submit path submit offset block_size =
     (let mode = (if s_use_sgl submit then ''sgl'' else ''prp'');
          opcode = opcode_of (s_sqe submit ! 0);
          h = s_header submit;
          line = path @ '':'' @ show_word offset
            @ '' submit ts='' @ show_word (h_timestamp_ns h) @ '' seq='' @ show_word (h_seq h)
            @ '' ctrl=nvme'' @ show_word (h_ctrl_id h) @ '' qid='' @ show_word (h_qid h)
            @ '' cid='' @ show_word (h_cid h) @ '' opcode='' @ opcode_text opcode
            @ '' data_len='' @ show_word (s_data_len submit) @ '' meta_len='' @ show_word (s_meta_len submit)
            @ '' mode='' @ mode @ '' single_segment='' @ show_bool (s_single_segment submit)
            @ '' tail_entries='' @ show_nat (tail_len (s_tail submit))
      in if is_read_or_write opcode then
           let nsid = sqe_le_u32 submit 4;
               slba = sqe_le_u64 submit 40;
               nlb = ucast (sqe_le_u16 submit 48) + 1 :: u64;
               byte_offset = ucast slba * ucast block_size :: u128;
               sqe_data_bytes = ucast nlb * ucast block_size :: u128
           in line @ '' nsid='' @ show_word nsid @ '' slba='' @ show_word slba @ '' nlb='' @ show_word nlb
             @ '' block_size='' @ show_word block_size @ '' byte_offset='' @ show_word byte_offset
             @ '' sqe_data_bytes='' @ show_word sqe_data_bytes
         else line)"

definition format_complete :: "path \<Rightarrow> complete_record \<Rightarrow> u64 \<Rightarrow> string" where
  "format_complete path c offset =
     (let h = c_header c in
      path @ '':'' @ show_word offset @ '' complete ts='' @ show_word (h_timestamp_ns h)
      @ '' seq='' @ show_word (h_seq h) @ '' ctrl=nvme'' @ show_word (h_ctrl_id h)
      @ '' qid='' @ show_word (h_qid h) @ '' cid='' @ show_word (h_cid h)
      @ '' result=0x'' @ show_hex 16 (unat (c_result c)) @ '' sq_head='' @ show_word (c_sq_head c)
      @ '' sq_id='' @ show_word (c_sq_id c) @ '' status=0x'' @ show_hex 4 (unat (c_status c))
      @ '' retries='' @ show_word (c_retries c))"

fun format_record :: "path \<Rightarrow> trace_record \<Rightarrow> u64 \<Rightarrow> u64 \<Rightarrow> string" where
  "format_record path (Submit submit) offset block_size =
     (let line = format_submit path submit offset block_size;
          line' = (if \<not> s_use_sgl submit then
              let (prp1, prp2) = submit_prps submit
              in line @ '' mps='' @ show_nat ASSUMED_NVME_CTRL_PAGE_SIZE @ '' prp1=0x'' @ show_hex 16 (unat prp1)
                @ '' prp2=0x'' @ show_hex 16 (unat prp2)
            else line)
      in line' @ '' tail='' @ format_submit_tail (s_tail submit))"
| "format_record path (Complete c) offset block_size = format_complete path c offset"

section \<open>The command\<close>

text \<open>The lines printed so far, and how the loop over the files ends.\<close>

fun print_files ::
  "file_system \<Rightarrow> 'e binrw \<Rightarrow> u64 \<Rightarrow> path list \<Rightarrow> string list \<times> ('e command_error + unit)" where
  "print_files fs br block_size [] = ([], Inr ())"
| "print_files fs br block_size (path # paths) =
     (case fs_open fs path of
        Inl e \<Rightarrow> ([], Inl (Opening path e))
      | Inr file \<Rightarrow>
        (case drain_records br (reader_new file) of
           (raws, err, r') \<Rightarrow>
             let printed = map (\<lambda>raw. format_record path (raw_record raw) (raw_offset raw) block_size) raws in
             (case err of
                Some e \<Rightarrow> (printed, Inl (Parsing path e))
              | None \<Rightarrow> let (more_lines, res) = print_files fs br block_size paths in (printed @ more_lines, res))))"

datatype 'e print_error = ZeroBlockSize | PrintError "'e command_error"

definition print_records ::
  "file_system \<Rightarrow> 'e binrw \<Rightarrow> path list \<Rightarrow> u64 \<Rightarrow> string list \<times> ('e print_error + unit)" where
  "print_records fs br inputs block_size =
     (if block_size = 0 then ([], Inl ZeroBlockSize)
      else (case expand_input_paths fs inputs of
        Inl e \<Rightarrow> ([], Inl (PrintError e))
      | Inr input_files \<Rightarrow>
          if input_files = [] then ([], Inl (PrintError NoInputFiles))
          else (case print_files fs br block_size input_files of
              (printed, Inl e) \<Rightarrow> (printed, Inl (PrintError e))
            | (printed, Inr _) \<Rightarrow> (printed, Inr ()))))"

section \<open>Tokens\<close>

text \<open>A token ends at the first separator, and a fixed-width field at its width.\<close>

named_theorems cuts

definition free_of :: "char \<Rightarrow> string \<Rightarrow> bool" where
  "free_of c s \<longleftrightarrow> c \<notin> set s"

lemma free_of_Cons [simp]: "free_of c []" "free_of c (d # s) \<longleftrightarrow> c \<noteq> d \<and> free_of c s"
  "free_of c (s @ t) \<longleftrightarrow> free_of c s \<and> free_of c t"
  by (auto simp: free_of_def)

lemma token_cut [cuts]:
  "free_of c a \<Longrightarrow> free_of c b \<Longrightarrow> a @ c # s = b @ c # t \<longleftrightarrow> a = b \<and> s = t"
proof (induction a arbitrary: b)
  case Nil
  then show ?case by (cases b) auto
next
  case (Cons x a)
  then show ?case by (cases b) auto
qed

lemma fixed_cut:
  "n < 16 ^ w \<Longrightarrow> m < 16 ^ w \<Longrightarrow> 0 < w \<Longrightarrow> show_hex w n @ s = show_hex w m @ t \<longleftrightarrow> n = m \<and> s = t"
  by (simp add: length_show_hex)

lemma hex_word_cut [cuts]:
  "show_hex 2 (unat a) @ s = show_hex 2 (unat (b :: u8)) @ t \<longleftrightarrow> a = b \<and> s = t"
  "show_hex 4 (unat c) @ s = show_hex 4 (unat (d :: u16)) @ t \<longleftrightarrow> c = d \<and> s = t"
  "show_hex 16 (unat e) @ s = show_hex 16 (unat (f :: u64)) @ t \<longleftrightarrow> e = f \<and> s = t"
  using unat_bound [of a] unat_bound [of b] unat_bound [of c] unat_bound [of d] unat_bound [of e] unat_bound [of f]
  by (simp_all add: fixed_cut word_unat_eq_iff)

lemma show_nat_free [simp]: "\<not> is_digit c \<Longrightarrow> free_of c (show_nat n)"
  using show_nat_digits [of n] by (auto simp: free_of_def list_all_iff)

lemma show_word_free [simp]: "\<not> is_digit c \<Longrightarrow> free_of c (show_word w)"
  by (simp add: show_word_def)

lemma separators [simp]: "\<not> is_digit (CHR '' '')" "\<not> is_digit (CHR '','')"
  by (simp_all add: is_digit_def)

lemma show_word_inject [simp]: "show_word a = show_word b \<longleftrightarrow> a = b"
  by (simp add: show_word_def word_unat_eq_iff)

lemma show_bool_inject [simp]: "show_bool a = show_bool b \<longleftrightarrow> a = b"
  by (cases a; cases b) (simp_all add: show_bool_def)

lemma show_bool_free [simp]: "free_of (CHR '' '') (show_bool b)"
  by (cases b) (simp_all add: show_bool_def)

lemma digit_char_not_space: "d < 16 \<Longrightarrow> digit_char d \<noteq> CHR '' ''"
  using of_char_digit_char [of d] by (auto split: if_splits)

lemma hex_digits_free: "free_of (CHR '' '') (hex_digits n)"
proof (induction n rule: hex_digits.induct)
  case (1 n)
  then show ?case using digit_char_not_space [of "n mod 16"] digit_char_not_space [of n]
    by (subst hex_digits.simps) (auto dest: sym)
qed

lemma show_hex_free [simp]: "free_of (CHR '' '') (show_hex w n)"
  using hex_digits_free digit_char_not_space [of 0] by (auto simp: show_hex_def free_of_def)

lemma opcode_free [simp]: "free_of (CHR '' '') (opcode_text opc)"
  by (cases opc) simp_all

lemma opcode_text_of_inject: "opcode_text (opcode_of a) = opcode_text (opcode_of b) \<Longrightarrow> a = b"
  by (auto simp: opcode_of_def word_unat_eq_iff split: if_splits)

section \<open>Descriptors and fields determine their texts\<close>

lemma prp_text_cut [cuts]: "prp_text a @ s = prp_text b @ t \<longleftrightarrow> a = b \<and> s = t"
  by (simp add: prp_text_def cuts)

lemma three_bytes: "length xs = 3 \<Longrightarrow> length ys = 3 \<Longrightarrow> xs ! 0 = ys ! 0 \<Longrightarrow> xs ! 1 = ys ! 1 \<Longrightarrow> xs ! 2 = ys ! 2 \<Longrightarrow> xs = ys"
  by (rule nth_equalityI) (auto simp: less_Suc_eq numeral_eq_Suc)

lemma sgl_text_cut [cuts]:
  assumes "length (sgl_reserved a) = 3" and "length (sgl_reserved b) = 3"
  shows "sgl_text a @ s = sgl_text b @ t \<longleftrightarrow> a = b \<and> s = t"
proof
  assume "sgl_text a @ s = sgl_text b @ t"
  then have "sgl_addr a = sgl_addr b \<and> sgl_length a = sgl_length b \<and> sgl_desc_type a = sgl_desc_type b
    \<and> sgl_reserved a ! 0 = sgl_reserved b ! 0 \<and> sgl_reserved a ! 1 = sgl_reserved b ! 1
    \<and> sgl_reserved a ! 2 = sgl_reserved b ! 2 \<and> s = t"
    by (simp add: sgl_text_def cuts)
  with three_bytes [OF assms] show "a = b \<and> s = t"
    by (cases a; cases b) auto
qed simp

lemma join_cut:
  assumes "length xs = length ys"
    and "\<And>x y s t. x \<in> set xs \<Longrightarrow> y \<in> set ys \<Longrightarrow> f x @ s = f y @ t \<Longrightarrow> x = y \<and> s = t"
    and "join_with sep (map f xs) @ u = join_with sep (map f ys) @ v"
  shows "xs = ys"
  using assms
proof (induction xs ys rule: list_induct2)
  case (Cons x xs y ys)
  note cut = Cons.prems(1)
  have rest: "x' = y' \<and> s = t" if "x' \<in> set xs" "y' \<in> set ys" "f x' @ s = f y' @ t" for x' y' s t
    by (rule cut) (use that in simp_all)
  show ?case
  proof (cases xs)
    case Nil
    then have "ys = []" "f x @ u = f y @ v" using Cons.hyps Cons.prems(2) by simp_all
    with cut [OF list.set_intros(1) list.set_intros(1) this(2)] Nil show ?thesis by simp
  next
    case xs: (Cons x2 xs2)
    then obtain y2 ys2 where ys: "ys = y2 # ys2" using Cons.hyps by (cases ys) auto
    have "f x @ sep @ join_with sep (map f xs) @ u = f y @ sep @ join_with sep (map f ys) @ v"
      using Cons.prems(2) by (simp add: xs ys)
    note both = cut [OF list.set_intros(1) list.set_intros(1) this]
    then have "join_with sep (map f xs) @ u = join_with sep (map f ys) @ v" by (simp only: append_assoc same_append_eq)
    from Cons.IH [OF rest this] both show ?thesis by blast
  qed
qed simp

lemma tail_text_inject:
  assumes "wf_tail use_sgl t1" and "wf_tail use_sgl t2" and "tail_len t1 = tail_len t2"
    and "format_submit_tail t1 = format_submit_tail t2"
  shows "t1 = t2"
proof (cases t1)
  case (Prp es)
  then obtain es' where t2: "t2 = Prp es'" using assms(1,2) by (cases t2) auto
  have "join_with '','' (map prp_text es) @ '']'' = join_with '','' (map prp_text es') @ '']''"
    using assms(4) Prp t2 by (simp add: format_prp_tail_def)
  with join_cut [of es es' prp_text "'',''" "'']''" "'']''"] show ?thesis using assms(3) Prp t2 prp_text_cut by simp
next
  case (Sgl ds)
  then obtain ds' where t2: "t2 = Sgl ds'" using assms(1,2) by (cases t2) auto
  have j: "join_with '','' (map sgl_text ds) @ '']'' = join_with '','' (map sgl_text ds') @ '']''"
    using assms(4) Sgl t2 by (simp add: format_sgl_tail_def)
  have "ds = ds'"
  proof (rule join_cut [OF _ _ j])
    show "length ds = length ds'" using assms(3) Sgl t2 by simp
    show "x = y \<and> s = t" if "x \<in> set ds" "y \<in> set ds'" "sgl_text x @ s = sgl_text y @ t" for x y s t
      using that assms(1,2) Sgl t2 sgl_text_cut [of x y s t] by simp
  qed
  then show ?thesis using Sgl t2 by simp
qed

text \<open>The part of a submission queue entry that its line shows.\<close>

definition sqe_shown :: "submit_record \<Rightarrow> u8 \<times> (u32 \<times> u64 \<times> u16) option \<times> (u64 \<times> u64) option" where
  "sqe_shown s =
     (s_sqe s ! 0,
      if is_read_or_write (opcode_of (s_sqe s ! 0)) then Some (sqe_le_u32 s 4, sqe_le_u64 s 40, sqe_le_u16 s 48) else None,
      if s_use_sgl s then None else Some (submit_prps s))"

definition header_shown :: "header \<Rightarrow> u64 \<times> u32 \<times> u8 \<times> u8 \<times> u16" where
  "header_shown h = (h_timestamp_ns h, h_seq h, h_ctrl_id h, h_qid h, h_cid h)"

text \<open>The line of a submit in one text.\<close>

definition rw_text :: "submit_record \<Rightarrow> u64 \<Rightarrow> string" where
  "rw_text s block_size =
     (if is_read_or_write (opcode_of (s_sqe s ! 0)) then
        '' nsid='' @ show_word (sqe_le_u32 s 4) @ '' slba='' @ show_word (sqe_le_u64 s 40)
        @ '' nlb='' @ show_word (ucast (sqe_le_u16 s 48) + 1 :: u64)
        @ '' block_size='' @ show_word block_size
        @ '' byte_offset='' @ show_word (ucast (sqe_le_u64 s 40) * ucast block_size :: u128)
        @ '' sqe_data_bytes='' @ show_word (ucast (ucast (sqe_le_u16 s 48) + 1 :: u64) * ucast block_size :: u128)
      else [])"

definition prp_fields_text :: "submit_record \<Rightarrow> string" where
  "prp_fields_text s =
     (if s_use_sgl s then []
      else '' mps='' @ show_nat ASSUMED_NVME_CTRL_PAGE_SIZE @ '' prp1=0x'' @ show_hex 16 (unat (fst (submit_prps s)))
        @ '' prp2=0x'' @ show_hex 16 (unat (snd (submit_prps s))))"

definition mode_text :: "submit_record \<Rightarrow> string" where
  "mode_text s = (if s_use_sgl s then ''sgl'' else ''prp'')"

lemma mode_text_free [simp]: "free_of (CHR '' '') (mode_text s)"
  by (simp add: mode_text_def)

lemma mode_text_inject [simp]: "mode_text s = mode_text t \<longleftrightarrow> s_use_sgl s = s_use_sgl t"
  by (simp add: mode_text_def)

lemma format_submit_line:
  "format_record p (Submit s) off bs = p @ '':'' @ show_word off
     @ '' submit ts='' @ show_word (h_timestamp_ns (s_header s)) @ '' seq='' @ show_word (h_seq (s_header s))
     @ '' ctrl=nvme'' @ show_word (h_ctrl_id (s_header s)) @ '' qid='' @ show_word (h_qid (s_header s))
     @ '' cid='' @ show_word (h_cid (s_header s)) @ '' opcode='' @ opcode_text (opcode_of (s_sqe s ! 0))
     @ '' data_len='' @ show_word (s_data_len s) @ '' meta_len='' @ show_word (s_meta_len s)
     @ '' mode='' @ mode_text s @ '' single_segment='' @ show_bool (s_single_segment s)
     @ '' tail_entries='' @ show_nat (tail_len (s_tail s)) @ rw_text s bs @ prp_fields_text s
     @ '' tail='' @ format_submit_tail (s_tail s)"
  by (cases "is_read_or_write (opcode_of (s_sqe s ! 0))"; cases "s_use_sgl s")
    (simp_all only: format_record.simps format_submit_def rw_text_def prp_fields_text_def mode_text_def Let_def if_True if_False
      not_True_eq_False not_False_eq_True case_prod_beta append_assoc append_Cons append_Nil)

text \<open>The end of a submit's line, after the number of its entries.\<close>

definition line_end :: "submit_record \<Rightarrow> u64 \<Rightarrow> string" where
  "line_end s bs = rw_text s bs @ prp_fields_text s @ '' tail='' @ format_submit_tail (s_tail s)"

lemma line_end_space: "\<exists>u. line_end s bs = CHR '' '' # u"
  by (cases "is_read_or_write (opcode_of (s_sqe s ! 0))"; cases "s_use_sgl s")
    (simp_all add: line_end_def rw_text_def prp_fields_text_def)

lemma submit_line_cut:
  assumes "format_record p (Submit s) off bs = format_record p (Submit t) off' bs"
  shows "off = off' \<and> header_shown (s_header s) = header_shown (s_header t) \<and> s_sqe s ! 0 = s_sqe t ! 0
    \<and> s_data_len s = s_data_len t \<and> s_meta_len s = s_meta_len t \<and> s_use_sgl s = s_use_sgl t
    \<and> s_single_segment s = s_single_segment t \<and> tail_len (s_tail s) = tail_len (s_tail t)
    \<and> line_end s bs = line_end t bs"
proof -
  obtain u v where u: "line_end s bs = CHR '' '' # u" and v: "line_end t bs = CHR '' '' # v"
    using line_end_space by blast
  have "opcode_text (opcode_of (s_sqe s ! 0)) = opcode_text (opcode_of (s_sqe t ! 0)) \<longleftrightarrow> s_sqe s ! 0 = s_sqe t ! 0"
    by (metis opcode_text_of_inject)
  with assms [unfolded format_submit_line, folded line_end_def, unfolded u v] show ?thesis
    unfolding u v by (simp add: cuts header_shown_def)
qed

lemma ucast_inject_16_64: "ucast a = (ucast b :: u64) \<longleftrightarrow> a = b" for a b :: u16
  using unat_bound [of a] unat_bound [of b]
  by (simp add: word_unat_eq_iff unsigned_ucast_eq take_bit_nat_eq_self)

lemma line_end_cut:
  assumes "line_end s bs = line_end t bs" and "s_sqe s ! 0 = s_sqe t ! 0" and "s_use_sgl s = s_use_sgl t"
  shows "sqe_shown s = sqe_shown t \<and> format_submit_tail (s_tail s) = format_submit_tail (s_tail t)"
  using assms
  by (cases "is_read_or_write (opcode_of (s_sqe t ! 0))"; cases "s_use_sgl t")
    (simp_all add: line_end_def rw_text_def prp_fields_text_def sqe_shown_def submit_prps_def cuts ucast_inject_16_64)

lemma complete_line_cut:
  assumes "format_record p (Complete c) off bs = format_record p (Complete d) off' bs"
  shows "off = off' \<and> header_shown (c_header c) = header_shown (c_header d) \<and> c_result c = c_result d
    \<and> c_sq_head c = c_sq_head d \<and> c_sq_id c = c_sq_id d \<and> c_status c = c_status d \<and> c_retries c = c_retries d"
  using assms by (simp add: format_complete_def Let_def cuts header_shown_def)

lemma kinds_differ: "format_record p (Submit s) off bs \<noteq> format_record p (Complete c) off' bs"
  unfolding format_submit_line by (simp add: format_complete_def Let_def cuts)

lemma wf_header_eq:
  assumes "wf_header h n" and "wf_header h' n" and "h_record_type h = h_record_type h'"
    and "header_shown h = header_shown h'"
  shows "h = h'"
  using assms by (cases h; cases h') (auto simp: wf_header_def header_shown_def word_unat_eq_iff)

text \<open>The byte offset and the size printed for a read or write are exact: 128 bits hold the products.\<close>

lemma print_products_exact: "unat (ucast a * ucast b :: u128) = unat a * unat b" for a b :: u64
proof -
  have "unat a * unat b < 2 ^ 64 * 2 ^ 64"
    using unat_bound [of a] unat_bound [of b] by (intro mult_strict_mono) simp_all
  then have "unat a * unat b < 2 ^ 128" by simp
  moreover have "unat (ucast a :: u128) = unat a" "unat (ucast b :: u128) = unat b"
    using unat_bound [of a] unat_bound [of b] by (simp_all add: unsigned_ucast_eq take_bit_nat_eq_self)
  ultimately show ?thesis by (simp add: unat_word_ariths)
qed

section \<open>The lines of files of records\<close>

definition file_lines :: "u64 \<Rightarrow> path \<Rightarrow> byte list list \<Rightarrow> string list" where
  "file_lines block_size p bss =
     map (\<lambda>raw. format_record p (raw_record raw) (raw_offset raw) block_size) (raws_at 0 bss)"

definition all_lines :: "u64 \<Rightarrow> path list \<Rightarrow> byte list list list \<Rightarrow> string list" where
  "all_lines block_size files bsss = concat (map2 (file_lines block_size) files bsss)"

lemma print_files_append:
  assumes "binrw_le br" and "list_all2 (file_delivers fs) files bsss"
  shows "print_files fs br bs (files @ later) =
    (all_lines bs files bsss @ fst (print_files fs br bs later), snd (print_files fs br bs later))"
  using assms(2)
proof (induction files bsss rule: list_all2_induct)
  case (Cons p ps bss bsss)
  then obtain s where s: "fs_open fs p = Inr s" "steady s" "source_bytes s = concat bss" "list_all valid_record bss"
    by (auto simp: file_delivers_def split: sum.splits)
  obtain r' where "drain_records br (reader_new s) = (raws_at 0 bss, None, r')"
    using drain_is_parse_stream [OF s(2), of br 0] parse_stream_complete [OF assms(1), of 0 "concat bss" "raws_at 0 bss"]
      s by (auto simp: reader_new_def)
  then show ?case using Cons.IH s(1) by (simp add: all_lines_def file_lines_def Let_def)
qed (simp add: all_lines_def)

section \<open>Properties\<close>

text \<open>
  C31. \<open>print\<close> on files of records gives one line per record, file after file and in the order of
  each, with the offset of the record in its file. A file that is cut off inside a record ends it
  with the error of that file, after the lines of all whole records before the cut.
\<close>

theorem print_lists_records:
  assumes "binrw_le br" and "block_size \<noteq> 0" and "expand_input_paths fs inputs = (Inr (files @ later) :: 'e command_error + path list)"
    and "list_all2 (file_delivers fs) files bsss"
  shows "(later = [] \<and> files \<noteq> [] \<longrightarrow> print_records fs br inputs block_size = (all_lines block_size files bsss, Inr ()))
    \<and> (\<forall>p ps s bss b k. later = p # ps \<and> fs_open fs p = Inr s \<and> steady s \<and> list_all valid_record bss
          \<and> valid_record b \<and> 0 < k \<and> k < length b \<and> source_bytes s = concat bss @ take k b \<longrightarrow>
        print_records fs (br :: 'e binrw) inputs block_size =
          (all_lines block_size files bsss @ file_lines block_size p bss,
           Inl (PrintError (Parsing p
             (if k < 24 then TruncatedHeader (of_nat (length (concat bss))) k
              else TruncatedPayload (of_nat (length (concat bss))) (length b - 24) (k - 24))))))"
proof -
  note pf = print_files_append [OF assms(1,4), of block_size later]
  show ?thesis
  proof (intro conjI impI allI)
    assume "later = [] \<and> files \<noteq> []"
    then show "print_records fs br inputs block_size = (all_lines block_size files bsss, Inr ())"
      using assms(2,3) pf by (simp add: print_records_def)
  next
    fix p ps s bss b k
    assume cut: "later = p # ps \<and> fs_open fs p = Inr s \<and> steady s \<and> list_all valid_record bss
      \<and> valid_record b \<and> 0 < k \<and> k < length b \<and> source_bytes s = concat bss @ take k b"
    let ?e = "if k < 24 then TruncatedHeader (of_nat (length (concat bss))) k
      else TruncatedPayload (of_nat (length (concat bss))) (length b - 24) (k - 24)"
    obtain r' where "drain_records br (reader_new s) = (raws_at 0 bss, Some ?e, r')"
      using cut drain_is_parse_stream [of s br 0] parse_stream_truncated [OF assms(1), of b k]
        parse_stream_valids [OF assms(1), of bss 0 "take k b"] by (auto simp: reader_new_def)
    then have "print_files fs br block_size later = (file_lines block_size p bss, Inl (Parsing p ?e))"
      using cut by (simp add: file_lines_def)
    then show "print_records fs br inputs block_size =
        (all_lines block_size files bsss @ file_lines block_size p bss, Inl (PrintError (Parsing p ?e)))"
      using assms(2,3) pf cut by (simp add: print_records_def)
  qed
qed

text \<open>
  C17. A printed line loses nothing of a record but the unshown bytes of its queue entry: two
  records of the format with the same line (same file and block size) lie at the same offset and
  are equal, for a submit up to its queue entry, of which the shown fields agree.
\<close>

theorem printed_line_determines_record:
  assumes "wf_record r" and "wf_header (record_header r) (length (wire_record r))"
    and "wf_record r'" and "wf_header (record_header r') (length (wire_record r'))"
    and "format_record p r off bs = format_record p r' off' bs"
  shows "off = off' \<and> (case (r, r') of
      (Complete c, Complete c') \<Rightarrow> c = c'
    | (Submit s, Submit s') \<Rightarrow> s\<lparr>s_sqe := []\<rparr> = s'\<lparr>s_sqe := []\<rparr> \<and> sqe_shown s = sqe_shown s'
    | _ \<Rightarrow> False)"
proof (cases r)
  case s: (Submit s)
  show ?thesis
  proof (cases r')
    case t: (Submit t)
    note cut = submit_line_cut [OF assms(5) [unfolded s t]]
    have le: "sqe_shown s = sqe_shown t" "format_submit_tail (s_tail s) = format_submit_tail (s_tail t)"
      using line_end_cut [of s bs t] cut by auto
    have tail: "s_tail s = s_tail t"
      using tail_text_inject [of "s_use_sgl t", OF _ _ _ le(2)] cut assms(1,3) s t by simp
    have "length (wire_record r) = length (wire_record r')"
      using s t tail assms(1,3) by simp
    then have "s_header s = s_header t"
      using wf_header_eq [of "s_header s" "length (wire_record r)" "s_header t"] assms(1-4) s t cut by simp
    moreover have "s_nr_entries s = s_nr_entries t"
      using assms(1,3) s t tail by (simp add: word_unat_eq_iff)
    ultimately show ?thesis using s t tail cut le(1) by (cases s; cases t) simp
  next
    case (Complete d)
    then show ?thesis using assms(5) s kinds_differ by blast
  qed
next
  case c: (Complete c)
  show ?thesis
  proof (cases r')
    case d: (Complete d)
    note cut = complete_line_cut [OF assms(5) [unfolded c d]]
    have "c_header c = c_header d"
      using wf_header_eq [of "c_header c" 40 "c_header d"] assms(1-4) c d cut by simp
    then show ?thesis using c d cut by (cases c; cases d) simp
  next
    case (Submit t)
    then show ?thesis using assms(5) c kinds_differ by metis
  qed
qed

text \<open>Two files, the second cut off after 30 bytes of its second record.\<close>

definition print_fs :: file_system where
  "print_fs = \<lparr>fs_is_dir = (\<lambda>p. False), fs_is_file = (\<lambda>p. True), fs_read_dir = (\<lambda>p. Inr []),
     fs_open = (\<lambda>p. Inr (pieces (if p = ''a.bin'' then wire_record (Submit sample_submit)
       else sample_bytes (sample_header 1 2 3 4 5) @ take 30 (sample_bytes (sample_header 6 7 3 4 5)))))\<rparr>"

lemma print_lists_records_witness:
  "print_records print_fs le_binrw [''a.bin'', ''b.bin''] 512 =
    ([format_record ''a.bin'' (Submit sample_submit) 0 512,
      format_record ''b.bin'' (sample_complete (sample_header 1 2 3 4 5)) 0 512],
     Inl (PrintError (Parsing ''b.bin'' (TruncatedPayload 40 16 6))))"
proof -
  let ?w = "wire_record (Submit sample_submit)" and ?h = "sample_header 1 2 3 4 5" and ?h' = "sample_header 6 7 3 4 5"
  have names: "file_name ''a.bin'' = Some ''a.bin''" "file_name ''b.bin'' = Some ''b.bin''" by code_simp+
  have "expand_input_paths print_fs [''a.bin'', ''b.bin''] = (Inr ([''a.bin''] @ [''b.bin'']) :: unit command_error + path list)"
    using names by (simp add: expand_input_paths_def print_fs_def sort_input_path_def parse_cpu_bin_def less_eq_prod_def)
  moreover have "list_all2 (file_delivers print_fs) [''a.bin''] [[?w]]"
    using valid_wire [OF sample_submit_wf] pieces_steady
    by (simp add: file_delivers_def print_fs_def del: wire_record.simps)
  moreover let ?cut = "sample_bytes ?h @ take 30 (sample_bytes ?h')"
  have "fs_open print_fs ''b.bin'' = Inr (pieces ?cut)" "steady (pieces ?cut)" "source_bytes (pieces ?cut) = ?cut"
    by (simp_all add: print_fs_def pieces_steady)
  ultimately have "print_records print_fs le_binrw [''a.bin'', ''b.bin''] 512 =
      (all_lines 512 [''a.bin''] [[?w]] @ file_lines 512 ''b.bin'' [sample_bytes ?h],
       Inl (PrintError (Parsing ''b.bin'' (if 30 < (24 :: nat) then TruncatedHeader (of_nat (length (concat [sample_bytes ?h]))) 30
         else TruncatedPayload (of_nat (length (concat [sample_bytes ?h]))) (length (sample_bytes ?h') - 24) (30 - 24)))))"
    by (intro print_lists_records [OF binrw_le_le_binrw, THEN conjunct2, rule_format,
          where p = "''b.bin''" and ps = "[]" and s = "pieces ?cut"]) simp_all
  moreover have "record_of ?w = Submit sample_submit" "record_of (sample_bytes ?h) = sample_complete ?h"
    by (rule record_of_wire, rule sample_submit_wf)
      (unfold sample_bytes_def, rule record_of_wire, simp add: sample_complete_def sample_header_def)
  ultimately show ?thesis
    by (simp add: all_lines_def file_lines_def raw_of_def del: wire_record.simps)
qed

lemma printed_line_determines_record_witness:
  "s_tail sample_submit = Prp [0x1000, 0x2000] \<and> (case (Submit sample_submit, Submit sample_submit) of
      (Complete c, Complete c') \<Rightarrow> c = c'
    | (Submit s, Submit s') \<Rightarrow> s\<lparr>s_sqe := []\<rparr> = s'\<lparr>s_sqe := []\<rparr> \<and> sqe_shown s = sqe_shown s'
    | _ \<Rightarrow> False)"
  using printed_line_determines_record [OF sample_submit_wf sample_submit_wf, of "''a.bin''" 0 512 0]
  by (simp add: sample_submit_def)

end
