(* ===== verification/Main_Command.thy ===== *)
theory Main_Command
  imports Print Capture_Session
begin

text \<open>
  The command line of \<open>nvme-trace\<close> (\<open>main.rs\<close>): the parsed arguments and what \<open>main\<close> does with
  them. The parser of the arguments is the crate clap; its result is the argument.
\<close>

section \<open>Arguments\<close>



section \<open>The dispatch\<close>







section \<open>The commands return\<close>







section \<open>Properties\<close>




end
