(* ===== verification/Repro_Client.thy ===== *)
theory Repro_Client
  imports Capture
begin

text \<open>
  The client of the relay reproducer (\<open>reproducer/relay-repro-client/src/main.rs\<close>): it reads
  records from a relay buffer, counts duplicates and corruptions, and logs the raw reads. The
  environment of a turn of its loop is given: what the stop flag and \<open>poll\<close> say, the time, and
  whether the logger's channel has room. A message is a line of standard output or error.
\<close>

section \<open>Records\<close>

definition RECORD_SIZE :: nat where "RECORD_SIZE = 24"
definition READ_BUF :: nat where "READ_BUF = 256 * 1024"
definition REPRO_MAGIC :: u32 where "REPRO_MAGIC = 0xDEADBEEF"

record repro_rec =
  rr_fill :: u32
  rr_seq :: u64
  rr_timestamp_ns :: u64

text \<open>The derived \<open>BinRead\<close>; its error is not looked at.\<close>

definition read_repro_rec :: "'e binrw \<Rightarrow> byte list \<Rightarrow> repro_rec option" where
  "read_repro_rec br bs =
     (case br_u32 br bs of
        Inl _ \<Rightarrow> None
      | Inr (magic, rest) \<Rightarrow>
          if magic \<noteq> REPRO_MAGIC then None
          else (case rd_bind (br_u32 br) (\<lambda>fill. rd_bind (br_u64 br) (\<lambda>seq. rd_bind (br_u64 br) (\<lambda>timestamp_ns.
                  rd_return \<lparr>rr_fill = fill, rr_seq = seq, rr_timestamp_ns = timestamp_ns\<rparr>))) rest of
                Inl _ \<Rightarrow> None | Inr (rec, _) \<Rightarrow> Some rec))"



section \<open>Messages\<close>

datatype message = Stdout string | Stderr string

definition ascii_char :: "u8 \<Rightarrow> char" where
  "ascii_char b = (if (0x21 \<le> b \<and> b \<le> 0x7e) \<or> b = 0x20 then char_of (unat b) else CHR ''.'')"

definition hexdump_line :: "nat \<Rightarrow> byte list \<Rightarrow> string" where
  "hexdump_line i chunk =
     show_hex 4 (i * 16) @ '':'' @ concat (map (\<lambda>b. '' '' @ show_hex 2 (unat b)) chunk)
     @ concat (replicate (16 - length chunk) ''   '') @ ''  |'' @ map ascii_char chunk @ ''|''"

function hexdump_from :: "nat \<Rightarrow> byte list \<Rightarrow> message list" where
  "hexdump_from i buf =
     (if buf = [] then [] else Stderr (hexdump_line i (take 16 buf)) # hexdump_from (i + 1) (drop 16 buf))"
  by pat_completeness auto
termination by (relation "measure (\<lambda>(i, buf). length buf)") auto

declare hexdump_from.simps [simp del]

definition hexdump :: "byte list \<Rightarrow> message list" where
  "hexdump buf = hexdump_from 0 buf"

text \<open>The dash of a warning, in UTF-8, and \<open>{:<w}\<close>.\<close>

definition em_dash :: string where
  "em_dash = [CHR 0xE2, CHR 0x80, CHR 0x94]"

definition pad_right :: "nat \<Rightarrow> string \<Rightarrow> string" where
  "pad_right w s = s @ replicate (w - length s) (CHR '' '')"

section \<open>The state of the reading loop\<close>

record repro_state =
  rs_input :: source
  rs_sent :: "(u64 \<times> byte list) list"
  rs_last_seq :: "u64 option"
  rs_last_toggle :: "u32 option"
  rs_total :: u64
  rs_dups :: u64
  rs_corruptions :: u64
  rs_last_report :: u64
  rs_messages :: "message list"

definition emit :: "message list \<Rightarrow> repro_state \<Rightarrow> repro_state" where
  "emit ms st = st\<lparr>rs_messages := rs_messages st @ ms\<rparr>"

definition is_dup :: "repro_state \<Rightarrow> repro_rec \<Rightarrow> bool" where
  "is_dup st rec \<longleftrightarrow>
     (case rs_last_seq st of None \<Rightarrow> False
      | Some ls \<Rightarrow> rr_seq rec \<le> ls \<and> rs_last_toggle st = Some (rr_fill rec))"

text \<open>The arm of a record that could be read.\<close>

definition take_record :: "byte list \<Rightarrow> nat \<Rightarrow> repro_rec \<Rightarrow> repro_state \<Rightarrow> repro_state" where
  "take_record buf offset rec st =
     (let st1 = (if is_dup st rec then
          (let st' = emit [Stdout (''DUP  off='' @ pad_right 14 (show_nat offset) @ ''  seq='' @ pad_right 10 (show_word (rr_seq rec))
                @ ''  prev='' @ show_word (the (rs_last_seq st)))] st
           in emit (hexdump buf) (st'\<lparr>rs_dups := rs_dups st' + 1\<rparr>))
        else st)
      in st1\<lparr>rs_last_seq := Some (rr_seq rec), rs_last_toggle := Some (rr_fill rec), rs_total := rs_total st1 + 1\<rparr>)"

text \<open>The arm of a bad magic.\<close>

definition bad_record :: "byte list \<Rightarrow> nat \<Rightarrow> byte list \<Rightarrow> repro_state \<Rightarrow> repro_state" where
  "bad_record buf offset slc st =
     (let st' = emit (Stderr (''bad magic 0x'' @ show_hex 8 (unat (from_le (slice slc 0 4) :: u32)) @ '' at offset '' @ show_nat offset)
          # hexdump buf) st
      in st'\<lparr>rs_corruptions := rs_corruptions st' + 1\<rparr>)"

text \<open>The loop over the bytes of one read, \<open>buf[..n]\<close>.\<close>

function scan_records :: "'e binrw \<Rightarrow> byte list \<Rightarrow> nat \<Rightarrow> repro_state \<Rightarrow> repro_state" where
  "scan_records br buf offset st =
     (if \<not> offset + RECORD_SIZE \<le> length buf then st
      else let slc = slice buf offset (offset + RECORD_SIZE) in
        case read_repro_rec br slc of
          None \<Rightarrow> scan_records br buf (offset + 1) (bad_record buf offset slc st)
        | Some rec \<Rightarrow> scan_records br buf (offset + RECORD_SIZE) (take_record buf offset rec st))"
  by pat_completeness auto
termination
  by (relation "measure (\<lambda>(br, buf, offset, st). length buf - offset)") (auto simp: RECORD_SIZE_def)

declare scan_records.simps [simp del]

text \<open>What is done with the bytes of one read.\<close>

definition size_check :: "byte list \<Rightarrow> repro_state \<Rightarrow> repro_state" where
  "size_check buf st =
     (if length buf mod RECORD_SIZE \<noteq> 0 then
        (let st' = emit (Stderr (''warning: read '' @ show_nat (length buf) @ '' bytes '' @ em_dash @ '' not a multiple of ''
              @ show_nat RECORD_SIZE @ '' (record_size)'') # hexdump buf) st
         in st'\<lparr>rs_corruptions := rs_corruptions st' + 1\<rparr>)
      else st)"

definition progress_report :: "repro_state \<Rightarrow> repro_state" where
  "progress_report st =
     (if rs_total st - rs_last_report st \<ge> 1000000 then
        (emit [Stdout (''  '' @ show_word (rs_total st) @ '' records  '' @ show_word (rs_dups st) @ '' dups  ''
            @ show_word (rs_corruptions st) @ '' corruptions'')] st)\<lparr>rs_last_report := rs_total st\<rparr>
      else st)"

definition take_read :: "'e binrw \<Rightarrow> byte list \<Rightarrow> repro_state \<Rightarrow> repro_state" where
  "take_read br buf st = progress_report (scan_records br buf 0 (size_check buf st))"

section \<open>run\<close>

datatype repro_error =
    ReproOpening path io_error
  | ReproCpuSet
  | ReproPolling path io_error
  | ReproReading path io_error
  | LogCreating path io_error
  | LogHeader path io_error
  | LogData path io_error
  | LogFlushing path io_error
  | LogPanicked

text \<open>One turn of the loop: what is observed, the time, and whether the channel has room.\<close>

record turn =
  tn_obs :: observation
  tn_time :: u64
  tn_room :: bool

definition send_read :: "bool \<Rightarrow> turn \<Rightarrow> byte list \<Rightarrow> repro_state \<Rightarrow> repro_state" where
  "send_read logging t bs st =
     (if logging \<and> tn_room t then st\<lparr>rs_sent := rs_sent st @ [(tn_time t, bs)]\<rparr> else st)"

text \<open>The read of a turn: \<open>Inl\<close> ends the loop with an error, \<open>Inr\<close> goes on.\<close>

definition read_turn :: "'e binrw \<Rightarrow> bool \<Rightarrow> path \<Rightarrow> turn \<Rightarrow> repro_state \<Rightarrow> (repro_error + unit) \<times> repro_state" where
  "read_turn br logging path t st =
     (case read_call (rs_input st) READ_BUF of
        (Inr bs, input) \<Rightarrow>
          (Inr (), if bs = [] then st\<lparr>rs_input := input\<rparr>
                   else take_read br bs (send_read logging t bs (st\<lparr>rs_input := input\<rparr>)))
      | (Inl err, input) \<Rightarrow>
          let st' = st\<lparr>rs_input := input\<rparr> in
          if io_kind err = WouldBlock then (Inr (), emit [Stderr ''warning: read returned WouldBlock unexpectedly''] st')
          else if io_kind err = Interrupted then (Inr (), emit [Stderr ''warning: read interrupted''] st')
          else (Inl (ReproReading path err), st'))"

text \<open>\<open>None\<close>: the loop is still running after the turns. Without \<open>poll\<close> a turn reads whatever it would say.\<close>

fun repro_loop ::
  "'e binrw \<Rightarrow> bool \<Rightarrow> bool \<Rightarrow> path \<Rightarrow> turn list \<Rightarrow> repro_state \<Rightarrow> ((repro_error + unit) \<times> repro_state) option" where
  "repro_loop br no_poll logging path [] st = None"
| "repro_loop br no_poll logging path (t # ts) st =
     (case (tn_obs t, no_poll) of
        (StopSet, _) \<Rightarrow> Some (Inr (), st)
      | (PollTimeout, False) \<Rightarrow> repro_loop br no_poll logging path ts st
      | (PollNoInput, False) \<Rightarrow> repro_loop br no_poll logging path ts st
      | (PollInterrupted, False) \<Rightarrow> repro_loop br no_poll logging path ts st
      | (PollError e, False) \<Rightarrow> Some (Inl (ReproPolling path e), st)
      | _ \<Rightarrow>
        (case read_turn br logging path t st of
           (Inl e, st') \<Rightarrow> Some (Inl e, st')
         | (Inr _, st') \<Rightarrow> repro_loop br no_poll logging path ts st'))"



record repro_cli =
  cli_cpu :: nat
  cli_no_poll :: bool
  cli_log :: "path option"
  cli_path :: path

definition start_message :: "repro_cli \<Rightarrow> string" where
  "start_message cli =
     ''Reading '' @ cli_path cli @ ''  cpu='' @ show_nat (cli_cpu cli) @ ''  mode=''
     @ (if cli_no_poll cli then ''no-poll'' else ''poll'') @ ''  (Ctrl-C to stop)''"

definition total_message :: "repro_state \<Rightarrow> string" where
  "total_message st =
     newline @ ''Total: '' @ show_word (rs_total st) @ '' records  '' @ show_word (rs_dups st) @ '' duplicates  ''
     @ show_word (rs_corruptions st) @ '' corruptions''"

text \<open>
  \<open>run\<close>. \<open>cpu\_set\<close> and \<open>affinity\<close> are the results of the two calls that pin the thread;
  \<open>logger\<close> is the end of the logger thread on what was sent, \<open>None\<close> a panic. The result has the
  state with the messages, and the log file.
\<close>

definition repro_init :: "source \<Rightarrow> repro_state" where
  "repro_init input = \<lparr>rs_input = input, rs_sent = [], rs_last_seq = None, rs_last_toggle = None, rs_total = 0,
     rs_dups = 0, rs_corruptions = 0, rs_last_report = 0, rs_messages = []\<rparr>"

definition join_logger ::
  "(path \<Rightarrow> (u64 \<times> byte list) list \<Rightarrow> (repro_error + 'w) option) \<Rightarrow> path option \<Rightarrow> repro_state \<Rightarrow> repro_error + 'w option" where
  "join_logger logger log_path st =
     (case log_path of
        None \<Rightarrow> Inr None
      | Some p \<Rightarrow>
        (case logger p (rs_sent st) of
           None \<Rightarrow> Inl LogPanicked
         | Some (Inl e) \<Rightarrow> Inl e
         | Some (Inr file) \<Rightarrow> Inr (Some file)))"

definition repro_run ::
  "'e binrw \<Rightarrow> file_system \<Rightarrow> (path \<Rightarrow> (u64 \<times> byte list) list \<Rightarrow> (repro_error + 'w) option) \<Rightarrow> (nat \<Rightarrow> bool) \<Rightarrow>
     string option \<Rightarrow> repro_cli \<Rightarrow> turn list \<Rightarrow> ((repro_error + u64 \<times> 'w option) \<times> message list) option" where
  "repro_run br fs logger cpu_set affinity cli turns =
     (case fs_open fs (cli_path cli) of
        Inl e \<Rightarrow> Some (Inl (ReproOpening (cli_path cli) e), [])
      | Inr input \<Rightarrow>
        if \<not> cpu_set (cli_cpu cli) then Some (Inl ReproCpuSet, [])
        else
          let st = emit ((case affinity of None \<Rightarrow> [] | Some err \<Rightarrow> [Stderr (''sched_setaffinity (continuing anyway): '' @ err)])
                @ [Stdout (start_message cli)]) (repro_init input)
          in map_option (\<lambda>(res, st').
               case res of
                 Inl e \<Rightarrow> (Inl e, rs_messages st')
               | Inr _ \<Rightarrow>
                 (case join_logger logger (cli_log cli) st' of
                    Inl e \<Rightarrow> (Inl e, rs_messages st')
                  | Inr file \<Rightarrow> (Inr (rs_dups st', file), rs_messages st' @ [Stdout (total_message st')])))
             (repro_loop br (cli_no_poll cli) (cli_log cli \<noteq> None) (cli_path cli) turns st))"

text \<open>The exit status of \<open>main\<close>; an error is reported with status 1.\<close>

definition repro_exit :: "repro_error + u64 \<times> 'w option \<Rightarrow> nat" where
  "repro_exit res = (case res of Inl e \<Rightarrow> 1 | Inr (dups, _) \<Rightarrow> if dups > 0 then 1 else 0)"

section \<open>What a scan counts\<close>

definition repro_bytes :: "repro_rec \<Rightarrow> byte list" where
  "repro_bytes r = to_le 4 REPRO_MAGIC @ to_le 4 (rr_fill r) @ to_le 8 (rr_seq r) @ to_le 8 (rr_timestamp_ns r)"

lemma length_repro_bytes [simp]: "length (repro_bytes r) = 24"
  by (simp add: repro_bytes_def)

lemma read_repro_rec_eq:
  assumes "binrw_le br" and "length bs = 24"
  shows "read_repro_rec br bs =
    (if from_le (take 4 bs) = REPRO_MAGIC then
       Some \<lparr>rr_fill = from_le (slice bs 4 8), rr_seq = from_le (slice bs 8 16), rr_timestamp_ns = from_le (slice bs 16 24)\<rparr>
     else None)"
  using assms(2) by (simp add: read_repro_rec_def binrw_leD [OF assms(1)] rd_bind_def rd_return_def slice_def)

lemma read_repro_bytes: "binrw_le br \<Longrightarrow> read_repro_rec br (repro_bytes r) = Some r"
  by (cases r) (simp add: read_repro_rec_eq repro_bytes_def slice_def codec_simps del: to_le.simps from_le.simps)

text \<open>Duplicates of a sequence of records: not above the number before them, with the same fill.\<close>

fun dup_after :: "(u64 \<times> u32) option \<Rightarrow> repro_rec \<Rightarrow> bool" where
  "dup_after None r \<longleftrightarrow> False"
| "dup_after (Some (q, f)) r \<longleftrightarrow> rr_seq r \<le> q \<and> rr_fill r = f"

definition rec_key :: "repro_rec \<Rightarrow> (u64 \<times> u32) option" where
  "rec_key r = Some (rr_seq r, rr_fill r)"

fun count_dups :: "(u64 \<times> u32) option \<Rightarrow> repro_rec list \<Rightarrow> nat" where
  "count_dups prev [] = 0"
| "count_dups prev (r # rs) = of_bool (dup_after prev r) + count_dups (rec_key r) rs"

definition last_key :: "(u64 \<times> u32) option \<Rightarrow> repro_rec list \<Rightarrow> (u64 \<times> u32) option" where
  "last_key prev rs = (if rs = [] then prev else rec_key (last rs))"

lemma last_key_simps [simp]:
  "last_key prev [] = prev" "last_key prev (r # rs) = last_key (rec_key r) rs"
  by (simp_all add: last_key_def)

lemma last_key_append [simp]: "last_key prev (rs @ ts) = last_key (last_key prev rs) ts"
  by (induction rs arbitrary: prev) simp_all

lemma count_dups_append [simp]: "count_dups prev (rs @ ts) = count_dups prev rs + count_dups (last_key prev rs) ts"
  by (induction rs arbitrary: prev) simp_all

definition seen :: "repro_state \<Rightarrow> (u64 \<times> u32) option" where
  "seen st = (case (rs_last_seq st, rs_last_toggle st) of (Some q, Some f) \<Rightarrow> Some (q, f) | _ \<Rightarrow> None)"

text \<open>From \<open>st\<close> to \<open>st'\<close> the records \<open>rs\<close> and \<open>bad\<close> corruptions were counted.\<close>

definition tallied :: "repro_state \<Rightarrow> repro_rec list \<Rightarrow> nat \<Rightarrow> repro_state \<Rightarrow> bool" where
  "tallied st rs bad st' \<longleftrightarrow>
     seen st' = last_key (seen st) rs
     \<and> rs_total st' = rs_total st + of_nat (length rs)
     \<and> rs_dups st' = rs_dups st + of_nat (count_dups (seen st) rs)
     \<and> rs_corruptions st' = rs_corruptions st + of_nat bad"

lemma tallied_refl: "tallied st [] 0 st"
  by (simp add: tallied_def)

lemma tallied_trans: "tallied st rs bad st' \<Longrightarrow> tallied st' ts bad' st'' \<Longrightarrow> tallied st (rs @ ts) (bad + bad') st''"
  by (simp add: tallied_def add.assoc)

lemma is_dup_seen: "is_dup st r \<longleftrightarrow> dup_after (seen st) r"
  by (auto simp: is_dup_def seen_def split: option.splits)

lemma emit_simps [simp]:
  "rs_input (emit ms st) = rs_input st" "rs_sent (emit ms st) = rs_sent st" "rs_total (emit ms st) = rs_total st"
  "rs_dups (emit ms st) = rs_dups st" "rs_corruptions (emit ms st) = rs_corruptions st"
  "rs_last_report (emit ms st) = rs_last_report st" "rs_last_seq (emit ms st) = rs_last_seq st"
  "rs_last_toggle (emit ms st) = rs_last_toggle st" "seen (emit ms st) = seen st"
  by (simp_all add: emit_def seen_def)

lemma take_record_tallied: "tallied st [r] 0 (take_record buf offset r st)"
  by (simp add: tallied_def take_record_def is_dup_seen Let_def rec_key_def) (simp add: seen_def)

lemma bad_record_tallied: "tallied st [] 1 (bad_record buf offset slc st)"
  by (simp add: tallied_def bad_record_def Let_def) (simp add: seen_def)

definition channels :: "repro_state \<Rightarrow> source \<times> (u64 \<times> byte list) list" where
  "channels st = (rs_input st, rs_sent st)"

lemma channels_simps [simp]:
  "channels (emit ms st) = channels st" "channels (take_record buf offset r st) = channels st"
  "channels (bad_record buf offset slc st) = channels st" "channels (size_check buf st) = channels st"
  "channels (progress_report st) = channels st"
  by (simp_all add: channels_def take_record_def bad_record_def size_check_def progress_report_def Let_def)

lemma channels_scan [simp]: "channels (scan_records br buf offset st) = channels st"
proof (induction br buf offset st rule: scan_records.induct)
  case (1 br buf offset st)
  then show ?case by (subst scan_records.simps) (simp add: Let_def split: option.split)
qed

lemma progress_report_tallied: "tallied st [] 0 (progress_report st)"
  by (simp add: tallied_def progress_report_def) (simp add: seen_def)

lemma size_check_tallied: "tallied st [] (of_bool (length buf mod 24 \<noteq> 0)) (size_check buf st)"
  by (simp add: tallied_def size_check_def RECORD_SIZE_def Let_def) (simp add: seen_def)

text \<open>Whole records are taken one after the other; from any bytes, each is counted once.\<close>

lemma scan_whole_records:
  assumes "binrw_le br"
  shows "drop offset buf = concat (map repro_bytes rs) \<Longrightarrow> offset \<le> length buf \<Longrightarrow> tallied st rs 0 (scan_records br buf offset st)"
proof (induction rs arbitrary: offset st)
  case Nil
  then show ?case by (subst scan_records.simps) (simp add: RECORD_SIZE_def tallied_refl)
next
  case (Cons r rs)
  have len: "length buf - offset = 24 + length (concat (map repro_bytes rs))"
    using arg_cong [OF Cons.prems(1), of length] by (simp del: length_concat)
  then have le: "offset + 24 \<le> length buf" by simp
  have slc: "slice buf offset (offset + 24) = repro_bytes r"
    using Cons.prems(1) by (simp add: slice_def)
  have rest: "drop (offset + 24) buf = concat (map repro_bytes rs)"
    using arg_cong [OF Cons.prems(1), of "drop 24"] by (simp add: add.commute)
  have "scan_records br buf offset st = scan_records br buf (offset + 24) (take_record buf offset r st)"
    using le slc read_repro_bytes [OF assms, of r] by (subst scan_records.simps) (simp add: RECORD_SIZE_def)
  with tallied_trans [OF take_record_tallied Cons.IH [OF rest le]] show ?case by simp
qed

text \<open>
  The records of a buffer from an offset on: at offsets whose 24 bytes are records, apart from each
  other, and with no record starting between them.
\<close>

definition record_at :: "'e binrw \<Rightarrow> byte list \<Rightarrow> nat \<Rightarrow> repro_rec option" where
  "record_at br buf k = (if k + 24 \<le> length buf then read_repro_rec br (slice buf k (k + 24)) else None)"

definition record_offsets :: "'e binrw \<Rightarrow> byte list \<Rightarrow> nat \<Rightarrow> nat list \<Rightarrow> bool" where
  "record_offsets br buf offset offs \<longleftrightarrow>
     sorted_wrt (\<lambda>j k. j + 24 \<le> k) offs
     \<and> (\<forall>k \<in> set offs. offset \<le> k \<and> record_at br buf k \<noteq> None)
     \<and> (\<forall>k \<ge> offset. record_at br buf k \<noteq> None \<longrightarrow> (\<exists>j \<in> set offs. j \<le> k \<and> k < j + 24))"

definition records_at :: "'e binrw \<Rightarrow> byte list \<Rightarrow> nat list \<Rightarrow> repro_rec list" where
  "records_at br buf offs = map (the \<circ> record_at br buf) offs"

lemma record_offsets_bad:
  assumes "record_offsets br buf (offset + 1) offs" and "record_at br buf offset = None"
  shows "record_offsets br buf offset offs"
proof -
  have "\<exists>j \<in> set offs. j \<le> k \<and> k < j + 24" if "offset \<le> k" "record_at br buf k \<noteq> None" for k
  proof -
    have "offset + 1 \<le> k" using that assms(2) by (cases "k = offset") auto
    then show ?thesis using assms(1) that(2) by (simp add: record_offsets_def)
  qed
  then show ?thesis using assms(1) by (auto simp: record_offsets_def)
qed

lemma record_offsets_good:
  assumes "record_offsets br buf (offset + 24) offs" and "record_at br buf offset \<noteq> None"
  shows "record_offsets br buf offset (offset # offs)"
proof -
  have "\<exists>j \<in> set (offset # offs). j \<le> k \<and> k < j + 24" if "offset \<le> k" "record_at br buf k \<noteq> None" for k
  proof (cases "k < offset + 24")
    case False
    then show ?thesis using assms(1) that(2) by (auto simp: record_offsets_def)
  qed (use that in simp)
  then show ?thesis using assms by (auto simp: record_offsets_def)
qed

lemma scan_accounts:
  assumes "offset \<le> length buf"
  shows "\<exists>offs bad. record_offsets br buf offset offs
    \<and> tallied st (records_at br buf offs) bad (scan_records br buf offset st)
    \<and> offset + 24 * length offs + bad \<le> length buf \<and> length buf < offset + 24 * length offs + bad + 24"
  using assms
proof (induction br buf offset st rule: scan_records.induct)
  case (1 br buf offset st)
  show ?case
  proof (cases "offset + 24 \<le> length buf")
    case False
    then have "scan_records br buf offset st = st" by (subst scan_records.simps) (simp add: RECORD_SIZE_def)
    moreover have "record_offsets br buf offset []" using False by (simp add: record_offsets_def record_at_def)
    ultimately show ?thesis
      using "1.prems" False tallied_refl [of st] by (intro exI [of _ "[]"] exI [of _ 0]) (simp add: records_at_def)
  next
    case True
    let ?slc = "slice buf offset (offset + RECORD_SIZE)"
    have here: "record_at br buf offset = read_repro_rec br ?slc" using True by (simp add: record_at_def RECORD_SIZE_def)
    show ?thesis
    proof (cases "read_repro_rec br ?slc")
      case None
      have step: "scan_records br buf offset st = scan_records br buf (offset + 1) (bad_record buf offset ?slc st)"
        using True None by (subst scan_records.simps) (simp add: RECORD_SIZE_def Let_def)
      obtain offs bad where ih: "record_offsets br buf (offset + 1) offs"
        "tallied (bad_record buf offset ?slc st) (records_at br buf offs) bad (scan_records br buf offset st)"
        "offset + 1 + 24 * length offs + bad \<le> length buf" "length buf < offset + 1 + 24 * length offs + bad + 24"
        using "1.IH"(1) [OF _ refl None] True unfolding step by (auto simp: RECORD_SIZE_def)
      have "record_offsets br buf offset offs" using record_offsets_bad [OF ih(1)] here None by simp
      then show ?thesis
        using tallied_trans [OF bad_record_tallied [of st buf offset ?slc] ih(2)] ih(3,4)
        by (intro exI [of _ offs] exI [of _ "bad + 1"]) simp
    next
      case (Some r)
      have step: "scan_records br buf offset st = scan_records br buf (offset + RECORD_SIZE) (take_record buf offset r st)"
        using True Some by (subst scan_records.simps) (simp add: RECORD_SIZE_def Let_def)
      obtain offs bad where ih: "record_offsets br buf (offset + 24) offs"
        "tallied (take_record buf offset r st) (records_at br buf offs) bad (scan_records br buf offset st)"
        "offset + 24 + 24 * length offs + bad \<le> length buf" "length buf < offset + 24 + 24 * length offs + bad + 24"
        using "1.IH"(2) [OF _ refl Some] True unfolding step by (auto simp: RECORD_SIZE_def)
      have "record_offsets br buf offset (offset # offs)" using record_offsets_good [OF ih(1)] here Some by simp
      then show ?thesis
        using tallied_trans [OF take_record_tallied [of st r buf offset] ih(2)] ih(3,4) here Some
        by (intro exI [of _ "offset # offs"] exI [of _ bad]) (simp add: records_at_def)
    qed
  qed
qed

section \<open>Reads of whole records\<close>

lemma take_read_whole:
  assumes "binrw_le br" and "buf = concat (map repro_bytes rs)"
  shows "tallied st rs 0 (take_read br buf st) \<and> channels (take_read br buf st) = channels st"
proof -
  have "length buf = length rs * 24" using assms(2) by (simp add: length_concat_const [where w = 24])
  then have "tallied st [] 0 (size_check buf st)" using size_check_tallied [of st buf] by simp
  from tallied_trans [OF this scan_whole_records [OF assms(1), of 0 buf rs "size_check buf st"]] assms(2)
  have "tallied st rs 0 (scan_records br buf 0 (size_check buf st))" by (simp del: length_concat)
  from tallied_trans [OF this progress_report_tallied]
  show ?thesis by (simp add: take_read_def)
qed

text \<open>Reads of the relay buffer that return whole records and fit the buffer.\<close>

definition chunk_of :: "repro_rec list \<Rightarrow> byte list" where
  "chunk_of rs = concat (map repro_bytes rs)"

definition whole_reads :: "repro_rec list list \<Rightarrow> source" where
  "whole_reads rss = map (\<lambda>rs. Data (chunk_of rs)) rss"

definition fits_buffer :: "repro_rec list \<Rightarrow> bool" where
  "fits_buffer rs \<longleftrightarrow> rs \<noteq> [] \<and> 24 * length rs \<le> READ_BUF"

definition going_on :: "bool \<Rightarrow> turn \<Rightarrow> bool" where
  "going_on no_poll t \<longleftrightarrow> tn_obs t \<noteq> StopSet \<and> (no_poll \<or> \<not> (\<exists>e. tn_obs t = PollError e))"

definition reads_now :: "bool \<Rightarrow> turn \<Rightarrow> bool" where
  "reads_now no_poll t \<longleftrightarrow> no_poll \<or> tn_obs t = PollInput"

lemma loop_skips:
  "going_on no_poll t \<Longrightarrow> \<not> reads_now no_poll t \<Longrightarrow>
     repro_loop br no_poll logging path (t # ts) st = repro_loop br no_poll logging path ts st"
  by (cases "tn_obs t"; cases no_poll) (auto simp: going_on_def reads_now_def)

lemma loop_reads:
  "going_on no_poll t \<Longrightarrow> reads_now no_poll t \<Longrightarrow> read_turn br logging path t st = (Inr (), st') \<Longrightarrow>
     repro_loop br no_poll logging path (t # ts) st = repro_loop br no_poll logging path ts st'"
  by (cases "tn_obs t"; cases no_poll) (auto simp: going_on_def reads_now_def)

declare repro_loop.simps(2) [simp del]

lemma length_chunk_of: "length (chunk_of rs) = 24 * length rs"
  by (simp add: chunk_of_def length_concat_const [where w = 24])

lemma read_turn_whole:
  assumes "binrw_le br" and "rs_input st = whole_reads (rs # rss)" and "fits_buffer rs"
  shows "\<exists>st'. read_turn br logging path t st = (Inr (), st') \<and> tallied st rs 0 st' \<and> rs_input st' = whole_reads rss
    \<and> rs_sent st' = (if logging \<and> tn_room t then rs_sent st @ [(tn_time t, chunk_of rs)] else rs_sent st)"
proof -
  let ?c = "chunk_of rs" and ?st1 = "send_read logging t (chunk_of rs) (st\<lparr>rs_input := whole_reads rss\<rparr>)"
  have "length ?c \<le> READ_BUF" "?c \<noteq> []"
    using assms(3) length_chunk_of [of rs] by (auto simp: fits_buffer_def)
  then have "read_turn br logging path t st = (Inr (), take_read br ?c ?st1)"
    using assms(2) by (simp add: read_turn_def whole_reads_def)
  moreover have "tallied st [] 0 ?st1" by (simp add: tallied_def send_read_def) (simp add: seen_def)
  then have "tallied st rs 0 (take_read br ?c ?st1)"
    using tallied_trans take_read_whole [OF assms(1) chunk_of_def] by fastforce
  moreover have "channels (take_read br ?c ?st1) = channels ?st1"
    using take_read_whole [OF assms(1) chunk_of_def] by blast
  ultimately show ?thesis by (auto simp: channels_def send_read_def)
qed

lemma read_turn_empty: "rs_input st = [] \<Longrightarrow> read_turn br logging path t st = (Inr (), st)"
  by (simp add: read_turn_def)

text \<open>What reaches the logger: of every turn that reads, its time and what it read, when the channel has room.\<close>

definition logged_chunks :: "turn list \<Rightarrow> repro_rec list list \<Rightarrow> (u64 \<times> byte list) list" where
  "logged_chunks ts rss = map (\<lambda>(t, rs). (tn_time t, chunk_of rs)) (filter (\<lambda>(t, rs). tn_room t) (zip ts rss))"

lemma logged_chunks_simps [simp]:
  "logged_chunks ts [] = []" "logged_chunks [] rss = []"
  "logged_chunks (t # ts) (rs # rss) = (if tn_room t then [(tn_time t, chunk_of rs)] else []) @ logged_chunks ts rss"
  by (simp_all add: logged_chunks_def)

lemma loop_of_whole_reads:
  assumes "binrw_le br" and "tn_obs stop = StopSet"
  shows "rs_input st = whole_reads rss \<Longrightarrow> \<forall>rs \<in> set rss. fits_buffer rs \<Longrightarrow> \<forall>t \<in> set ts. going_on no_poll t \<Longrightarrow>
    length rss \<le> length (filter (reads_now no_poll) ts) \<Longrightarrow>
    \<exists>st'. repro_loop br no_poll logging path (ts @ [stop]) st = Some (Inr (), st') \<and> tallied st (concat rss) 0 st'
      \<and> rs_sent st' = rs_sent st @ (if logging then logged_chunks (filter (reads_now no_poll) ts) rss else [])"
proof (induction ts arbitrary: st rss)
  case Nil
  then show ?case using assms(2) by (simp add: tallied_refl repro_loop.simps(2))
next
  case (Cons t ts)
  note go = Cons.prems(3) [rule_format, OF list.set_intros(1)]
  show ?case
  proof (cases "reads_now no_poll t")
    case False
    then show ?thesis
      using Cons.IH [OF Cons.prems(1,2)] Cons.prems(3,4) loop_skips [OF go False, of br logging path "ts @ [stop]" st] by auto
  next
    case True
    show ?thesis
    proof (cases rss)
      case Nil
      then have "read_turn br logging path t st = (Inr (), st)"
        using Cons.prems(1) by (intro read_turn_empty) (simp add: whole_reads_def)
      then show ?thesis
        using Cons.IH [OF Cons.prems(1,2)] Cons.prems(3) loop_reads [OF go True, of br logging path st st "ts @ [stop]"] Nil by auto
    next
      case (Cons rs rss')
      obtain st1 where st1: "read_turn br logging path t st = (Inr (), st1)" "tallied st rs 0 st1"
        "rs_input st1 = whole_reads rss'"
        "rs_sent st1 = (if logging \<and> tn_room t then rs_sent st @ [(tn_time t, chunk_of rs)] else rs_sent st)"
        using read_turn_whole [OF assms(1), of st rs rss' logging path t] Cons.prems(1,2) Cons by auto
      obtain st' where st': "repro_loop br no_poll logging path (ts @ [stop]) st1 = Some (Inr (), st')"
        "tallied st1 (concat rss') 0 st'"
        "rs_sent st' = rs_sent st1 @ (if logging then logged_chunks (filter (reads_now no_poll) ts) rss' else [])"
        using Cons.IH [OF st1(3)] Cons.prems(2-4) Cons True by auto
      have "tallied st (concat rss) 0 st'" using tallied_trans [OF st1(2) st'(2)] Cons by simp
      then show ?thesis using loop_reads [OF go True st1(1), of "ts @ [stop]"] st'(1,3) st1(4) Cons True by auto
    qed
  qed
qed

section \<open>The log\<close>






section \<open>Properties\<close>

text \<open>
  C28. On any bytes a read may return, the client takes the records of the buffer from the front,
  each where one starts after the end of the last, and misses none; every byte it steps over is
  one corruption, fewer than a record's bytes are left at the end, and a size that is no multiple
  of a record's is one corruption more. The duplicates counted are those of the records taken.
\<close>

theorem every_byte_accounted:
  "\<exists>offs bad. record_offsets br buf 0 offs
    \<and> tallied st (records_at br buf offs) (of_bool (length buf mod 24 \<noteq> 0) + bad) (take_read br buf st)
    \<and> 24 * length offs + bad \<le> length buf \<and> length buf < 24 * length offs + bad + 24"
proof -
  obtain offs bad where scan: "record_offsets br buf 0 offs"
    "tallied (size_check buf st) (records_at br buf offs) bad (scan_records br buf 0 (size_check buf st))"
    "24 * length offs + bad \<le> length buf" "length buf < 24 * length offs + bad + 24"
    using scan_accounts [of 0 buf br "size_check buf st"] by auto
  have "tallied st (records_at br buf offs) (of_bool (length buf mod 24 \<noteq> 0) + bad) (take_read br buf st)"
    using tallied_trans [OF tallied_trans [OF size_check_tallied scan(2)] progress_report_tallied]
    by (simp add: take_read_def)
  with scan(1,3,4) show ?thesis by blast
qed

text \<open>
  C29. Without \<open>--log\<close>, on a relay buffer that delivers whole records, in any number of reads that fit
  the buffer and with any time-outs and interruptions of \<open>poll\<close> between them (but no other error of it),
  the client ends at the stop with no corruption, the number of records, and the number of duplicates,
  which its exit status tells from none.
\<close>

theorem client_counts_duplicates:
  assumes "binrw_le br" and "fs_open fs (cli_path cli) = Inr (whole_reads rss)" and "\<forall>rs \<in> set rss. fits_buffer rs"
    and "cpu_set (cli_cpu cli)" and "cli_log cli = None" and "tn_obs stop = StopSet"
    and "\<forall>t \<in> set ts. going_on (cli_no_poll cli) t" and "length rss \<le> length (filter (reads_now (cli_no_poll cli)) ts)"
    and "length (concat rss) < 2 ^ 64"
  shows "\<exists>msgs. repro_run br fs logger cpu_set affinity cli (ts @ [stop]) =
      Some (Inr (of_nat (count_dups None (concat rss)), None),
        msgs @ [Stdout (newline @ ''Total: '' @ show_nat (length (concat rss)) @ '' records  ''
          @ show_nat (count_dups None (concat rss)) @ '' duplicates  '' @ show_nat 0 @ '' corruptions'')])
    \<and> (repro_exit (Inr (of_nat (count_dups None (concat rss)), None :: 'w option)) = 0 \<longleftrightarrow> count_dups None (concat rss) = 0)"
proof -
  let ?st = "emit ((case affinity of None \<Rightarrow> [] | Some err \<Rightarrow> [Stderr (''sched_setaffinity (continuing anyway): '' @ err)])
      @ [Stdout (start_message cli)]) (repro_init (whole_reads rss))"
  have start: "rs_input ?st = whole_reads rss" by (simp add: repro_init_def)
  obtain st' where run: "repro_loop br (cli_no_poll cli) False (cli_path cli) (ts @ [stop]) ?st = Some (Inr (), st')"
    and t: "tallied ?st (concat rss) 0 st'"
    using loop_of_whole_reads [OF assms(1,6) start assms(3,7,8), of False "cli_path cli"] by blast
  have le: "count_dups prev rs \<le> length rs" for prev rs
    by (induction rs arbitrary: prev) (auto intro: le_SucI)
  have "rs_total st' = of_nat (length (concat rss))" "rs_dups st' = of_nat (count_dups None (concat rss))"
    "rs_corruptions st' = 0"
    using t by (simp_all add: tallied_def repro_init_def seen_def emit_def del: length_concat)
  moreover have small: "unat (of_nat n :: u64) = n" if "n \<le> length (concat rss)" for n
    using that assms(9) by (simp add: unat_of_nat take_bit_nat_eq_self unsigned_of_nat del: length_concat)
  moreover have "(of_nat (count_dups None (concat rss)) :: u64) > 0 \<longleftrightarrow> count_dups None (concat rss) \<noteq> 0"
    using small [OF le [of None "concat rss"]] by (simp add: word_gt_0 word_unat_eq_iff del: length_concat)
  ultimately show ?thesis
    using run assms(2,4,5) small [OF le] small [OF order.refl]
    by (auto simp: repro_run_def join_logger_def total_message_def show_word_def repro_exit_def Let_def simp del: length_concat)
qed


text \<open>Two reads: the third record repeats the second, the fourth is from the next fill.\<close>

definition repro_at :: "u64 \<Rightarrow> u32 \<Rightarrow> repro_rec" where
  "repro_at q f = \<lparr>rr_fill = f, rr_seq = q, rr_timestamp_ns = 0\<rparr>"

definition two_reads :: "repro_rec list list" where
  "two_reads = [[repro_at 1 0, repro_at 2 0], [repro_at 2 0, repro_at 1 1]]"

definition turn_of :: "observation \<Rightarrow> turn" where
  "turn_of ob = \<lparr>tn_obs = ob, tn_time = 5, tn_room = True\<rparr>"

definition poll_turns :: "turn list" where
  "poll_turns = map turn_of [PollTimeout, PollInput, PollInterrupted, PollInput]"

definition sample_cli :: "path option \<Rightarrow> repro_cli" where
  "sample_cli log_path = \<lparr>cli_cpu = 1, cli_no_poll = False, cli_log = log_path, cli_path = ''buf0''\<rparr>"

lemma poll_turns_facts:
  "\<forall>rs \<in> set two_reads. fits_buffer rs" "tn_obs (turn_of StopSet) = StopSet"
  "\<forall>t \<in> set poll_turns. going_on (cli_no_poll (sample_cli lp)) t"
  "reads_now (cli_no_poll (sample_cli lp)) (turn_of ob) \<longleftrightarrow> ob = PollInput"
  "length two_reads \<le> length (filter (reads_now (cli_no_poll (sample_cli lp))) poll_turns)"
  "fs_open (pipe_files s) p = Inr s" "length (concat two_reads) = 4" "count_dups None (concat two_reads) = 1"
  by (simp_all add: two_reads_def fits_buffer_def READ_BUF_def turn_of_def poll_turns_def going_on_def reads_now_def
      sample_cli_def pipe_files_def repro_at_def rec_key_def word_le_nat_alt)

lemma client_counts_duplicates_witness:
  "\<exists>msgs. repro_run le_binrw (pipe_files (whole_reads two_reads)) (\<lambda>p rx. None :: (repro_error + unit) option) (\<lambda>_. True) None
      (sample_cli None) (poll_turns @ [turn_of StopSet]) =
      Some (Inr (1, None), msgs @ [Stdout (newline @ ''Total: '' @ show_nat 4 @ '' records  '' @ show_nat 1
        @ '' duplicates  '' @ show_nat 0 @ '' corruptions'')])"
proof -
  have "cli_log (sample_cli None) = None" "length (concat two_reads) < 2 ^ 64"
    by (simp_all add: sample_cli_def poll_turns_facts(7) del: length_concat)
  from client_counts_duplicates [OF binrw_le_le_binrw poll_turns_facts(6,1) _ this(1) poll_turns_facts(2,3,5) this(2),
      of "\<lambda>_. True" "\<lambda>p rx. None :: (repro_error + unit) option" None]
  show ?thesis unfolding poll_turns_facts(7,8) by (auto simp del: length_concat)
qed


end
