(* ===== verification/Format_Tests.thy ===== *)
theory Format_Tests
  imports Splice_Correct
begin

text \<open>
  The unit tests of \<open>lib.rs\<close> on the model: the byte strings of the tests, and each test as a boolean
  of the readers of binrw. A \<open>Cursor\<close> is a source that holds all its bytes. The assertions inside the
  builders of the byte strings are the lemmas on their lengths.
\<close>

section \<open>Bytes put into bytes\<close>

text \<open>\<open>copy\_from\_slice\<close> into the bytes from an index on.\<close>

definition copy_from_slice :: "nat \<Rightarrow> byte list \<Rightarrow> byte list \<Rightarrow> byte list" where
  "copy_from_slice i bs xs = take i xs @ bs @ drop (i + length bs) xs"

lemma length_copy [simp]: "i + length bs \<le> length xs \<Longrightarrow> length (copy_from_slice i bs xs) = length xs"
  by (simp add: copy_from_slice_def)

lemma nth_copy:
  "i + length bs \<le> length xs \<Longrightarrow> k < length xs \<Longrightarrow>
     copy_from_slice i bs xs ! k = (if i \<le> k \<and> k < i + length bs then bs ! (k - i) else xs ! k)"
  by (auto simp: copy_from_slice_def nth_append)

lemma nth_slice: "k < j - i \<Longrightarrow> j \<le> length xs \<Longrightarrow> slice xs i j ! k = xs ! (i + k)"
  by (simp add: slice_def)

lemma slice_copy:
  assumes "i + length bs \<le> length xs"
  shows "j = i + length bs \<Longrightarrow> slice (copy_from_slice i bs xs) i j = bs"
    and "b \<le> length xs \<Longrightarrow> b \<le> i \<or> i + length bs \<le> a \<Longrightarrow> slice (copy_from_slice i bs xs) a b = slice xs a b"
  using assms by (auto intro!: nth_equalityI simp: nth_slice nth_copy)

section \<open>The byte strings of the tests\<close>

definition header_bytes :: "u8 \<Rightarrow> u16 \<Rightarrow> u64 \<Rightarrow> u32 \<Rightarrow> u8 \<Rightarrow> u8 \<Rightarrow> u16 \<Rightarrow> byte list" where
  "header_bytes record_type len timestamp_ns seq ctrl_id qid cid =
     to_le 4 NVME_TRACE_MAGIC @ [NVME_TRACE_VERSION] @ [record_type] @ to_le 2 len
     @ to_le 8 timestamp_ns @ to_le 4 seq @ [ctrl_id] @ [qid] @ to_le 2 cid"

definition complete_record_bytes :: "u64 \<Rightarrow> u32 \<Rightarrow> u8 \<Rightarrow> u8 \<Rightarrow> u16 \<Rightarrow> u64 \<Rightarrow> u8 \<Rightarrow> byte list" where
  "complete_record_bytes timestamp_ns seq ctrl_id qid cid result retries =
     header_bytes NVME_TRACE_COMPLETE (of_nat COMPLETE_LEN) timestamp_ns seq ctrl_id qid cid
     @ to_le 8 result @ to_le 2 (7 :: u16) @ to_le 2 (ucast qid :: u16) @ to_le 2 (0 :: u16)
     @ [retries] @ [0]"

definition submit_record_bytes :: "u64 \<Rightarrow> u32 \<Rightarrow> u8 \<Rightarrow> u8 \<Rightarrow> u16 \<Rightarrow> bool \<Rightarrow> bool \<Rightarrow> byte list \<Rightarrow> byte list" where
  "submit_record_bytes timestamp_ns seq ctrl_id qid cid use_sgl single_segment entries =
     (let entry_len = (if use_sgl then SGL_DESC_LEN else PRP_ENTRY_LEN);
          nr_entries = length entries div entry_len;
          len = SUBMIT_FIXED_LEN + length entries
      in header_bytes NVME_TRACE_SUBMIT (of_nat len) timestamp_ns seq ctrl_id qid cid
         @ (replicate SQE_LEN 0)[0 := 0x02] @ to_le 4 (4096 :: u32) @ to_le 4 (0 :: u32)
         @ [of_bool use_sgl] @ [of_bool single_segment] @ to_le 2 (of_nat nr_entries :: u16) @ entries)"

lemma length_header_bytes [simp]: "length (header_bytes t l ts seq c q i) = HEADER_LEN"
  by (simp add: header_bytes_def)

lemma length_complete_record_bytes [simp]: "length (complete_record_bytes ts seq c q i r n) = COMPLETE_LEN"
  by (simp add: complete_record_bytes_def)

text \<open>They are encodings of records.\<close>

definition complete_of :: "u64 \<Rightarrow> u32 \<Rightarrow> u8 \<Rightarrow> u8 \<Rightarrow> u16 \<Rightarrow> u64 \<Rightarrow> u8 \<Rightarrow> trace_record" where
  "complete_of ts seq c q i r n = Complete
     \<lparr>c_header = sample_header ts seq c q i, c_result = r, c_sq_head = 7, c_sq_id = ucast q, c_status = 0,
      c_retries = n\<rparr>"

definition submit_of :: "u64 \<Rightarrow> u32 \<Rightarrow> u8 \<Rightarrow> u8 \<Rightarrow> u16 \<Rightarrow> bool \<Rightarrow> submit_tail \<Rightarrow> trace_record" where
  "submit_of ts seq c q i one t = Submit
     \<lparr>s_header = \<lparr>h_magic = NVME_TRACE_MAGIC, h_version = NVME_TRACE_VERSION, h_record_type = NVME_TRACE_SUBMIT,
        h_len = of_nat (100 + length (wire_tail t)), h_timestamp_ns = ts, h_seq = seq, h_ctrl_id = c,
        h_qid = q, h_cid = i\<rparr>,
      s_sqe = (replicate SQE_LEN 0)[0 := 0x02], s_data_len = 4096, s_meta_len = 0,
      s_use_sgl = (case t of Sgl _ \<Rightarrow> True | Prp _ \<Rightarrow> False), s_single_segment = one,
      s_nr_entries = of_nat (tail_len t), s_tail = t\<rparr>"

lemma complete_record_bytes_wire: "complete_record_bytes ts seq c q i r n = wire_record (complete_of ts seq c q i r n)"
  by (simp add: complete_record_bytes_def header_bytes_def complete_of_def sample_header_def wire_header_def
      wire_complete_payload_def)

lemma complete_record_bytes_parse:
  "valid_record (complete_record_bytes ts seq c q i r n)"
  "record_of (complete_record_bytes ts seq c q i r n) = complete_of ts seq c q i r n"
  "header_of (complete_record_bytes ts seq c q i r n) = sample_header ts seq c q i"
proof -
  have "wf_record (complete_of ts seq c q i r n)" "record_header (complete_of ts seq c q i r n) = sample_header ts seq c q i"
    by (simp_all add: complete_of_def sample_header_def)
  moreover have "wf_header (sample_header ts seq c q i) (length (wire_record (complete_of ts seq c q i r n)))"
    by (simp add: complete_of_def wf_header_def sample_header_def)
  ultimately show "valid_record (complete_record_bytes ts seq c q i r n)"
    "record_of (complete_record_bytes ts seq c q i r n) = complete_of ts seq c q i r n"
    "header_of (complete_record_bytes ts seq c q i r n) = sample_header ts seq c q i"
    by (simp_all add: complete_record_bytes_wire valid_wire record_of_wire)
qed

lemma submit_record_bytes_parse:
  assumes "wf_tail (case t of Sgl _ \<Rightarrow> True | Prp _ \<Rightarrow> False) t" and "tail_len t < 4000"
    and bs: "bs = submit_record_bytes ts seq c q i (case t of Sgl _ \<Rightarrow> True | Prp _ \<Rightarrow> False) one (wire_tail t)"
  shows "valid_record bs" and "record_of bs = submit_of ts seq c q i one t"
proof -
  let ?r = "submit_of ts seq c q i one t" and ?u = "case t of Sgl _ \<Rightarrow> True | Prp _ \<Rightarrow> False"
  have len: "length (wire_tail t) = tail_len t * (if ?u then 16 else 8)"
    using length_wire_tail [OF assms(1)] by simp
  then have b: "bs = wire_record ?r"
    by (simp add: bs submit_record_bytes_def submit_of_def header_bytes_def wire_header_def wire_submit_fixed_def Let_def)
  have "wf_record ?r"
    using assms(1,2) by (simp add: submit_of_def unat_of_nat SQE_LEN_def)
  moreover have "unat (of_nat (100 + length (wire_tail t)) :: u16) = 100 + length (wire_tail t)"
    using assms(2) len by (subst unat_of_nat) (simp split: if_splits)
  then have "wf_header (record_header ?r) (length (wire_record ?r))"
    by (simp add: submit_of_def wf_header_def SQE_LEN_def del: of_nat_add)
  ultimately show "valid_record bs" "record_of bs = ?r"
    by (simp_all add: b valid_wire record_of_wire)
qed

section \<open>Parsing\<close>

definition complete_test :: "'e binrw \<Rightarrow> bool" where
  "complete_test br \<longleftrightarrow>
     (case parse_record_bytes br (complete_record_bytes 100 7 1 2 3 0xfeedbeef 9) 0 of
        Inr raw \<Rightarrow> (case raw_record raw of
            Complete complete \<Rightarrow> h_timestamp_ns (c_header complete) = 100 \<and> h_seq (c_header complete) = 7
              \<and> c_result complete = 0xfeedbeef \<and> c_retries complete = 9
          | Submit _ \<Rightarrow> False)
      | Inl _ \<Rightarrow> False)"

lemma complete_test_passes: "binrw_le br \<Longrightarrow> complete_test br"
  by (simp add: complete_test_def parse_valid complete_record_bytes_parse raw_of_def complete_of_def sample_header_def)

definition submit_test :: "'e binrw \<Rightarrow> byte list \<Rightarrow> bool \<Rightarrow> (submit_record \<Rightarrow> bool) \<Rightarrow> bool" where
  "submit_test br bytes use_sgl P \<longleftrightarrow>
     (case parse_record_bytes br (submit_record_bytes 100 1 4 5 6 use_sgl False bytes) 0 of
        Inr raw \<Rightarrow> (case raw_record raw of Submit submit \<Rightarrow> P submit | Complete _ \<Rightarrow> False)
      | Inl _ \<Rightarrow> False)"

definition no_tail_test :: "'e binrw \<Rightarrow> bool" where
  "no_tail_test br \<longleftrightarrow> submit_test br [] False (\<lambda>submit.
     h_timestamp_ns (s_header submit) = 100 \<and> s_data_len submit = 4096 \<and> s_meta_len submit = 0
     \<and> \<not> s_use_sgl submit \<and> s_tail submit = Prp [])"

definition prp_test :: "'e binrw \<Rightarrow> bool" where
  "prp_test br \<longleftrightarrow> submit_test br (concat [to_le 8 (0x1000 :: u64), to_le 8 (0x2000 :: u64)]) False (\<lambda>submit.
     s_nr_entries submit = 2 \<and> s_tail submit = Prp [0x1000, 0x2000])"

definition sgl_test :: "'e binrw \<Rightarrow> bool" where
  "sgl_test br \<longleftrightarrow> submit_test br
     (to_le 8 (0x1000 :: u64) @ to_le 4 (512 :: u32) @ [0, 0, 0, 0x11]
      @ to_le 8 (0x2000 :: u64) @ to_le 4 (1024 :: u32) @ [0, 0, 0, 0x12]) True (\<lambda>submit.
     s_nr_entries submit = 2 \<and> s_tail submit = Sgl
       [\<lparr>sgl_addr = 0x1000, sgl_length = 512, sgl_reserved = [0, 0, 0], sgl_desc_type = 0x11\<rparr>,
        \<lparr>sgl_addr = 0x2000, sgl_length = 1024, sgl_reserved = [0, 0, 0], sgl_desc_type = 0x12\<rparr>])"

lemma submit_test_wire:
  assumes "binrw_le br" and "wf_tail (case t of Sgl _ \<Rightarrow> True | Prp _ \<Rightarrow> False) t" and "tail_len t < 4000"
    and "use_sgl = (case t of Sgl _ \<Rightarrow> True | Prp _ \<Rightarrow> False)" and "bytes = wire_tail t"
  shows "submit_test br bytes use_sgl P \<longleftrightarrow>
    (case submit_of 100 1 4 5 6 False t of Submit s \<Rightarrow> P s | Complete _ \<Rightarrow> False)"
  using submit_record_bytes_parse [OF assms(2,3) refl, of 100 1 4 5 6 False] assms(1)
  by (simp add: submit_test_def assms(4,5) parse_valid raw_of_def)

lemma no_tail_test_passes: "binrw_le br \<Longrightarrow> no_tail_test br"
  unfolding no_tail_test_def
  by (subst submit_test_wire [where t = "Prp []"]) (simp_all add: submit_of_def)

lemma prp_test_passes: "binrw_le br \<Longrightarrow> prp_test br"
  unfolding prp_test_def
  by (subst submit_test_wire [where t = "Prp [0x1000, 0x2000]"]) (simp_all add: submit_of_def)

lemma sgl_test_passes: "binrw_le br \<Longrightarrow> sgl_test br"
  unfolding sgl_test_def
  by (subst submit_test_wire [where t = "Sgl
       [\<lparr>sgl_addr = 0x1000, sgl_length = 512, sgl_reserved = [0, 0, 0], sgl_desc_type = 0x11\<rparr>,
        \<lparr>sgl_addr = 0x2000, sgl_length = 1024, sgl_reserved = [0, 0, 0], sgl_desc_type = 0x12\<rparr>]"])
    (simp_all add: submit_of_def wire_sgl_def)

section \<open>Rejections\<close>

definition bad_magic_test :: "'e binrw \<Rightarrow> bool" where
  "bad_magic_test br \<longleftrightarrow>
     (case parse_record_bytes br (copy_from_slice 0 (to_le 4 (0 :: u32)) (complete_record_bytes 1 1 0 1 1 0 0)) 0 of
        Inl (InvalidMagic _ _) \<Rightarrow> True | _ \<Rightarrow> False)"

definition bad_version_test :: "'e binrw \<Rightarrow> bool" where
  "bad_version_test br \<longleftrightarrow>
     (case parse_record_bytes br ((complete_record_bytes 1 1 0 1 1 0 0)[4 := 2]) 0 of
        Inl (UnsupportedVersion _ _) \<Rightarrow> True | _ \<Rightarrow> False)"

definition bad_type_test :: "'e binrw \<Rightarrow> bool" where
  "bad_type_test br \<longleftrightarrow>
     (case parse_record_bytes br ((complete_record_bytes 1 1 0 1 1 0 0)[5 := 9]) 0 of
        Inl (UnknownType _ _) \<Rightarrow> True | _ \<Rightarrow> False)"

definition truncated_header_test :: "'e binrw \<Rightarrow> bool" where
  "truncated_header_test br \<longleftrightarrow>
     (case parse_record_bytes br (replicate (HEADER_LEN - 1) 0) 0 of
        Inl (TruncatedHeader _ _) \<Rightarrow> True | _ \<Rightarrow> False)"

definition too_small_test :: "'e binrw \<Rightarrow> bool" where
  "too_small_test br \<longleftrightarrow>
     (case parse_record_bytes br
         (take (HEADER_LEN - 1) (copy_from_slice 6 (to_le 2 (of_nat HEADER_LEN - 1 :: u16))
            (complete_record_bytes 1 1 0 1 1 0 0))) 0 of
        Inl (TruncatedHeader _ _) \<Rightarrow> True | Inl (InvalidLength _ _ _ _) \<Rightarrow> True | _ \<Rightarrow> False)"

text \<open>\<open>Cursor::new\<close>: all bytes are ready.\<close>

definition cursor :: "byte list \<Rightarrow> source" where
  "cursor bs = [Data bs]"

definition truncated_payload_test :: "'e binrw \<Rightarrow> bool" where
  "truncated_payload_test br \<longleftrightarrow>
     (case fst (next_record br (reader_new (cursor (slice (complete_record_bytes 1 1 0 1 1 0 0) 0 30)))) of
        Inl (TruncatedPayload _ _ _) \<Rightarrow> True | _ \<Rightarrow> False)"

lemma take_update_first: "k < length bs \<Longrightarrow> take (Suc 0) ((drop k bs)[0 := v]) = [v]"
  by (cases "drop k bs") auto

lemma header_of_update:
  "h_magic (header_of (copy_from_slice 0 (to_le 4 (m :: u32)) bs)) = m"
  "24 \<le> length bs \<Longrightarrow> header_of (bs[4 := v]) = header_of bs\<lparr>h_version := v\<rparr>"
  "24 \<le> length bs \<Longrightarrow> header_of (bs[5 := v]) = header_of bs\<lparr>h_record_type := v\<rparr>"
  by (simp_all add: header_of_def slice_def copy_from_slice_def drop_update_swap drop_update_cancel take_update_first)

lemma bad_magic_test_passes: "binrw_le br \<Longrightarrow> bad_magic_test br"
  by (simp add: bad_magic_test_def parse_record_bytes_eq record_fault_def Let_def header_of_update trace_consts)

lemma bad_version_test_passes: "binrw_le br \<Longrightarrow> bad_version_test br"
  by (simp add: bad_version_test_def parse_record_bytes_eq record_fault_def Let_def header_of_update
      complete_record_bytes_parse sample_header_def trace_consts)

lemma bad_type_test_passes: "binrw_le br \<Longrightarrow> bad_type_test br"
  by (simp add: bad_type_test_def parse_record_bytes_eq record_fault_def Let_def header_of_update
      complete_record_bytes_parse sample_header_def trace_consts)

lemma truncated_header_test_passes: "binrw_le br \<Longrightarrow> truncated_header_test br"
  by (simp add: truncated_header_test_def parse_record_bytes_eq record_fault_def)

lemma too_small_test_passes: "binrw_le br \<Longrightarrow> too_small_test br"
  by (simp add: too_small_test_def parse_record_bytes_eq record_fault_def)

lemma truncated_payload_test_passes:
  assumes br: "binrw_le br"
  shows "truncated_payload_test br"
proof -
  let ?bs = "slice (complete_record_bytes 1 1 0 1 1 0 0) 0 30"
  let ?r = "reader_new (cursor ?bs)"
  have "?bs \<noteq> []" by (simp flip: length_0_conv)
  then have "steady (cursor ?bs)" by (simp add: cursor_def)
  moreover have "parse_stream br 0 ?bs = ([], Some (TruncatedPayload 0 16 6))"
    using parse_stream_truncated [OF br complete_record_bytes_parse(1), of 30 1 1 0 1 1 0 0 0] by (simp add: slice_def)
  ultimately have "fst (snd (drain_records br ?r)) = Some (TruncatedPayload 0 16 6)"
    "fst (drain_records br ?r) = []"
    by (simp_all add: drain_steady) (simp_all add: cursor_def)
  then have "fst (next_record br ?r) = Inl (TruncatedPayload 0 16 6)"
    by (subst (asm) (1 2) drain_records.simps) (auto simp: Let_def split: prod.splits sum.splits option.splits)
  then show ?thesis by (simp add: truncated_payload_test_def)
qed

section \<open>Splicing\<close>

definition splice_test :: "'e binrw \<Rightarrow> bool" where
  "splice_test br \<longleftrightarrow>
     (let a1 = complete_record_bytes 10 1 0 1 10 0 0; a2 = complete_record_bytes 30 3 0 1 30 0 0;
          b1 = complete_record_bytes 20 2 0 2 20 0 0; b2 = complete_record_bytes 30 4 0 2 40 0 0
      in case splice_named_streams br vec_write
           [(''cpu0.bin'', cursor (a1 @ a2)), (''cpu1.bin'', cursor (b1 @ b2))] [] of
           Some (Inr _, st) \<Rightarrow> st_output st = a1 @ b1 @ a2 @ b2 \<and> st_warnings st = []
         | _ \<Rightarrow> False)"

definition ties_test :: "'e binrw \<Rightarrow> bool" where
  "ties_test br \<longleftrightarrow>
     (let a = complete_record_bytes 10 1 0 1 2 0 0; b = complete_record_bytes 10 1 0 1 1 0 0
      in case splice_named_streams br vec_write [(''cpu0.bin'', cursor a), (''cpu1.bin'', cursor b)] [] of
           Some (Inr _, st) \<Rightarrow> st_output st = b @ a
         | _ \<Rightarrow> False)"

text \<open>A sequence in strictly ascending order is the only sorted arrangement of its records.\<close>

lemma sorted_arrangement:
  assumes "mset xs = mset ys" and "sorted_wrt (\<lambda>a b. record_order (header_of b) (header_of a) = Greater) ys"
    and "records_sorted xs"
  shows "xs = ys"
  using assms
proof (induction ys arbitrary: xs)
  case (Cons y ys)
  then obtain x xs' where xs: "xs = x # xs'" by (cases xs) auto
  have "x = y"
  proof (rule ccontr)
    assume "x \<noteq> y"
    then have "y \<in> set xs'" "x \<in> set ys"
      using Cons.prems(1) by (metis insert_iff list.simps(15) set_mset_mset xs)+
    then show False using Cons.prems(2,3) by (auto simp: xs records_sorted_def)
  qed
  then show ?case using Cons.IH [of xs'] Cons.prems by (simp add: xs records_sorted_def)
qed simp

lemma splice_sorted_streams:
  assumes br: "binrw_le br" and v: "\<forall>b \<in> set ys. valid_record b" and H: "coherent (header_of ` set ys)"
    and p: "mset ys = mset (concat bsss)" and ne: "[] \<notin> set bsss"
    and s: "\<forall>bss \<in> set bsss. records_sorted bss \<and> length (concat bss) < 2 ^ 64"
    and o: "sorted_wrt (\<lambda>a b. record_order (header_of b) (header_of a) = Greater) ys"
    and ins: "map snd inputs = map (\<lambda>bss. cursor (concat bss)) bsss"
  shows "\<exists>n st. splice_named_streams br vec_write inputs [] = Some (Inr n, st)
    \<and> st_output st = concat ys \<and> st_warnings st = []"
proof -
  have el: "set ys = set (concat bsss)" using p by (metis set_mset_mset)
  have d: "delivers inputs bsss"
    unfolding delivers_def
  proof (intro conjI allI impI)
    show len: "length bsss = length inputs" using ins by (metis length_map)
    fix i assume i: "i < length inputs"
    then have src: "snd (inputs ! i) = cursor (concat (bsss ! i))" and b: "bsss ! i \<in> set bsss"
      using ins len by (metis nth_map, simp)
    have vs: "\<forall>b \<in> set (bsss ! i). valid_record b" using v el b by auto
    have "bsss ! i \<noteq> []" using ne b by metis
    then have "concat (bsss ! i) \<noteq> []"
      using vs valid_record_nonempty by (cases "bsss ! i") auto
    then show "steady (snd (inputs ! i))" "source_bytes (snd (inputs ! i)) = concat (bsss ! i)"
      by (simp_all add: src cursor_def)
    show "list_all valid_record (bsss ! i)" using vs by (simp add: list_all_iff)
  qed
  have hs: "\<forall>bss \<in> set bsss. records_sorted bss \<and> length (concat bss) < 2 ^ 64
      \<and> (\<forall>b \<in> set bss. header_of b \<in> header_of ` set ys)"
    using s el by auto
  obtain obss st where
    r: "splice_named_streams br vec_write inputs [] = Some (Inr (of_nat (length (concat obss))), st)"
      "st_output st = concat obss" "mset obss = mset (concat bsss)" "records_sorted obss" "st_warnings st = []"
    using splice_delivers_sorted [OF br d H hs] by blast
  moreover have "obss = ys"
    by (rule sorted_arrangement) (use r p o in auto)
  ultimately show ?thesis by auto
qed

lemma splice_test_passes:
  assumes br: "binrw_le br"
  shows "splice_test br"
proof -
  let ?a1 = "complete_record_bytes 10 1 0 1 10 0 0" and ?a2 = "complete_record_bytes 30 3 0 1 30 0 0"
  let ?b1 = "complete_record_bytes 20 2 0 2 20 0 0" and ?b2 = "complete_record_bytes 30 4 0 2 40 0 0"
  have "\<exists>n st. splice_named_streams br vec_write
      [(''cpu0.bin'', cursor (?a1 @ ?a2)), (''cpu1.bin'', cursor (?b1 @ ?b2))] [] = Some (Inr n, st)
    \<and> st_output st = concat [?a1, ?b1, ?a2, ?b2] \<and> st_warnings st = []"
    by (rule splice_sorted_streams [OF br, where bsss = "[[?a1, ?a2], [?b1, ?b2]]"])
      (simp_all add: complete_record_bytes_parse coherent_def records_sorted_def record_order_def ord_cmp_def
        sample_header_sel)
  then show ?thesis by (auto simp: splice_test_def Let_def)
qed

lemma ties_test_passes:
  assumes br: "binrw_le br"
  shows "ties_test br"
proof -
  let ?a = "complete_record_bytes 10 1 0 1 2 0 0" and ?b = "complete_record_bytes 10 1 0 1 1 0 0"
  have "\<exists>n st. splice_named_streams br vec_write
      [(''cpu0.bin'', cursor ?a), (''cpu1.bin'', cursor ?b)] [] = Some (Inr n, st)
    \<and> st_output st = concat [?b, ?a] \<and> st_warnings st = []"
    by (rule splice_sorted_streams [OF br, where bsss = "[[?a], [?b]]"])
      (simp_all add: complete_record_bytes_parse coherent_def records_sorted_def record_order_def ord_cmp_def
        sample_header_sel)
  then show ?thesis by (auto simp: ties_test_def Let_def)
qed

end
