(* ===== verification/Analysis_Tests.thy ===== *)
theory Analysis_Tests
  imports Trace_Commands
begin

text \<open>
  The unit tests of \<open>analyze.rs\<close> and of \<open>main.rs\<close>, run on the model: the records and runs of the
  tests as definitions, each test as a boolean whose value is proved by evaluation. The outputs are
  compared as the bytes that the writer holds, without \<open>String::from\_utf8\<close>.
\<close>

section \<open>The records of the tests\<close>

definition test_header :: "u8 \<Rightarrow> u64 \<Rightarrow> u32 \<Rightarrow> u8 \<Rightarrow> u8 \<Rightarrow> u16 \<Rightarrow> header" where
  "test_header record_type timestamp_ns seq ctrl_id qid cid =
     \<lparr>h_magic = NVME_TRACE_MAGIC, h_version = NVME_TRACE_VERSION, h_record_type = record_type,
      h_len = 0, h_timestamp_ns = timestamp_ns, h_seq = seq, h_ctrl_id = ctrl_id, h_qid = qid,
      h_cid = cid\<rparr>"

definition submit_with_opcode :: "u64 \<Rightarrow> u32 \<Rightarrow> u8 \<Rightarrow> u8 \<Rightarrow> u16 \<Rightarrow> u32 \<Rightarrow> u8 \<Rightarrow> trace_record" where
  "submit_with_opcode timestamp_ns seq ctrl_id qid cid data_len opcode =
     Submit \<lparr>s_header = test_header NVME_TRACE_SUBMIT timestamp_ns seq ctrl_id qid cid,
       s_sqe = (replicate SQE_LEN 0)[0 := opcode], s_data_len = data_len, s_meta_len = 0,
       s_use_sgl = False, s_single_segment = False, s_nr_entries = 0, s_tail = Prp []\<rparr>"

definition read_submit :: "u64 \<Rightarrow> u32 \<Rightarrow> u8 \<Rightarrow> u8 \<Rightarrow> u16 \<Rightarrow> u32 \<Rightarrow> trace_record" where
  "read_submit timestamp_ns seq ctrl_id qid cid data_len =
     submit_with_opcode timestamp_ns seq ctrl_id qid cid data_len 0x02"

definition write_submit :: "u64 \<Rightarrow> u32 \<Rightarrow> u8 \<Rightarrow> u8 \<Rightarrow> u16 \<Rightarrow> u32 \<Rightarrow> trace_record" where
  "write_submit timestamp_ns seq ctrl_id qid cid data_len =
     submit_with_opcode timestamp_ns seq ctrl_id qid cid data_len 0x01"

definition plain_submit :: "u64 \<Rightarrow> u32 \<Rightarrow> u8 \<Rightarrow> u8 \<Rightarrow> u16 \<Rightarrow> u32 \<Rightarrow> trace_record" where
  "plain_submit timestamp_ns seq ctrl_id qid cid data_len =
     submit_with_opcode timestamp_ns seq ctrl_id qid cid data_len 0x02"

definition completion :: "u64 \<Rightarrow> u32 \<Rightarrow> u8 \<Rightarrow> u8 \<Rightarrow> u16 \<Rightarrow> trace_record" where
  "completion timestamp_ns seq ctrl_id qid cid =
     Complete \<lparr>c_header = test_header NVME_TRACE_COMPLETE timestamp_ns seq ctrl_id qid cid,
       c_result = 0, c_sq_head = 0, c_sq_id = ucast qid, c_status = 0, c_retries = 0\<rparr>"

lemmas test_records = test_header_def submit_with_opcode_def read_submit_def write_submit_def
  plain_submit_def completion_def

section \<open>The runs\<close>

text \<open>\<open>unwrap\<close> panics on an error.\<close>

definition unwrap_run :: "(io_error + unit) \<times> byte list \<times> string list \<Rightarrow> (byte list \<times> string list) outcome" where
  "unwrap_run r = (case r of (Inl e, _) \<Rightarrow> Panic | (Inr _, output, warnings) \<Rightarrow> Ret (output, warnings))"

definition run_throughput_test :: "trace_record list \<Rightarrow> u64 \<Rightarrow> (byte list \<times> string list) outcome" where
  "run_throughput_test records scale_ns =
     out_bind (analyze_throughput_records vec_write records scale_ns []) unwrap_run"

definition run_queue_depth_test :: "trace_record list \<Rightarrow> u64 \<Rightarrow> (byte list \<times> string list) outcome option" where
  "run_queue_depth_test records scale_ns =
     map_option unwrap_run (analyze_queue_depth_records vec_write records scale_ns [])"

definition run_queue_depth_percent_test :: "trace_record list \<Rightarrow> (byte list \<times> string list) outcome" where
  "run_queue_depth_percent_test records =
     out_bind (analyze_queue_depth_percent_records vec_write records []) unwrap_run"

section \<open>Evaluation of decimals and floats\<close>

lemma digit_eval [simp]:
  "digit_char 0 = CHR ''0''" "digit_char (Suc 0) = CHR ''1''" "digit_char 2 = CHR ''2''"
  "digit_char 3 = CHR ''3''" "digit_char 4 = CHR ''4''" "digit_char 5 = CHR ''5''"
  "digit_char 6 = CHR ''6''" "digit_char 7 = CHR ''7''" "digit_char 8 = CHR ''8''"
  "digit_char 9 = CHR ''9''"
  by code_simp+

lemma show_nat_eval [simp]:
  "show_nat 0 = ''0''" "show_nat (Suc 0) = ''1''"
  "show_nat (numeral n) =
     (if numeral n < (10 :: nat) then [digit_char (numeral n)]
      else show_nat (numeral n div 10) @ [digit_char (numeral n mod 10)])"
  by (subst show_nat.simps, simp)+

lemma replicate_eval [simp]: "replicate (numeral n) x = x # replicate (pred_numeral n) x"
  by (simp add: numeral_eq_Suc)

lemmas f64_eval = f64_mul_def f64_div_def f64_of_nat_def f64_round_def f64_scale_def nearest_even_def
  bit_len.simps f64_fixed_def pad_left_def throughput_rate_def bytes_per_second_to_mb_def Let_def

lemmas analysis_eval = test_records command_key_of_def key_queue_def direction_from_opcode_def
  saturating_sub_def SQE_LEN_def bt_entry_def bt_get_def bt_get_or_def less_queue_key_def unwrap_run_def



lemma throughput_lines_eval:
  "throughput_line 100 \<lparr>b_read_bytes = 100, b_write_bytes = 0\<rparr> 100
     = join_with tab [''100'', ''1000000000.000000'', ''0.000000'', ''1000.00'', ''0.00'']"
  "throughput_line 200 \<lparr>b_read_bytes = 0, b_write_bytes = 200\<rparr> 50
     = join_with tab [''200'', ''0.000000'', ''4000000000.000000'', ''0.00'', ''4000.00'']"
  "throughput_line 0 \<lparr>b_read_bytes = 100, b_write_bytes = 300\<rparr> 100
     = join_with tab [''0'', ''1000000000.000000'', ''3000000000.000000'', ''1000.00'', ''3000.00'']"
  unfolding throughput_line_def Let_def by (simp_all add: show_word_def f64_eval)

lemmas throughput_eval = analysis_eval throughput_step_def throughput_init_def bucket_default_def
  bucket_add_def throughput_bucket_duration_ns_def throughput_lines_eval throughput_header_def

section \<open>The tests\<close>

definition throughput_buckets_test :: bool where
  "throughput_buckets_test \<longleftrightarrow>
     run_throughput_test
       [read_submit 1000 1 0 1 10 100, write_submit 1050 2 0 1 11 200,
        completion 1100 3 0 1 10, completion 1250 4 0 1 11] 100
     = Ret (lines_bytes
         [join_with tab [''time_ns'', ''read_bytes_per_second'', ''write_bytes_per_second'',
            ''read_mb_per_second'', ''write_mb_per_second''],
          join_with tab [''100'', ''1000000000.000000'', ''0.000000'', ''1000.00'', ''0.00''],
          join_with tab [''200'', ''0.000000'', ''4000000000.000000'', ''0.00'', ''4000.00'']], [])"

lemma throughput_buckets_test_passes: "throughput_buckets_test"
  unfolding throughput_buckets_test_def run_throughput_test_def analyze_throughput_records_def
  by (simp add: throughput_eval)

definition throughput_limits_test :: bool where
  "throughput_limits_test \<longleftrightarrow>
     run_throughput_test
       [read_submit 1000 1 0 1 10 100, write_submit 1010 2 0 1 11 300,
        completion 1050 3 0 1 10, completion 1100 4 0 1 11] 1000
     = Ret (lines_bytes
         [join_with tab [''time_ns'', ''read_bytes_per_second'', ''write_bytes_per_second'',
            ''read_mb_per_second'', ''write_mb_per_second''],
          join_with tab [''0'', ''1000000000.000000'', ''3000000000.000000'', ''1000.00'', ''3000.00'']], [])"

lemma throughput_limits_test_passes: "throughput_limits_test"
  unfolding throughput_limits_test_def run_throughput_test_def analyze_throughput_records_def
  by (simp add: throughput_eval)



definition queue_depth_test :: bool where
  "queue_depth_test \<longleftrightarrow>
     run_queue_depth_test
       [plain_submit 1000 1 0 1 10 100, plain_submit 1050 2 0 2 20 100,
        completion 1120 3 0 1 10, completion 1250 4 0 2 20] 100
     = Some (Ret (lines_bytes
         [join_with tab [''time_ns'', ''scope'', ''ctrl_id'', ''qid'', ''queue_depth''],
          join_with tab [''0'', ''global'', [], [], ''1''],
          join_with tab [''0'', ''queue'', ''0'', ''1'', ''1''],
          join_with tab [''100'', ''global'', [], [], ''2''],
          join_with tab [''100'', ''queue'', ''0'', ''1'', ''1''],
          join_with tab [''100'', ''queue'', ''0'', ''2'', ''1''],
          join_with tab [''200'', ''global'', [], [], ''1''],
          join_with tab [''200'', ''queue'', ''0'', ''1'', ''0''],
          join_with tab [''200'', ''queue'', ''0'', ''2'', ''1'']], []))"

text \<open>The state of the analysis: the commands in flight, and the depths of queues 1 and 2 of controller 0.\<close>

definition depth_state :: "command_key set \<Rightarrow> (u8 \<times> u64) list \<Rightarrow> u64 \<Rightarrow> queue_depth_state" where
  "depth_state keys depths n_all =
     \<lparr>d_in_flight = keys, d_known_queues = map (\<lambda>(q, _). QueueKey 0 q) depths,
      d_queue_depths = map (\<lambda>(q, n). (QueueKey 0 q, n)) depths, d_global_depth = n_all\<rparr>"

abbreviation key_at :: "u8 \<Rightarrow> u16 \<Rightarrow> command_key" where
  "key_at q c \<equiv> \<lparr>k_ctrl_id = 0, k_qid = q, k_cid = c\<rparr>"

lemma depth_steps:
  "apply_record depth_init (plain_submit 1000 1 0 1 10 100) = (depth_state {key_at 1 10} [(1, 1)] 1, [])"
  "apply_record (depth_state {key_at 1 10} [(1, 1)] 1) (plain_submit 1050 2 0 2 20 100)
     = (depth_state {key_at 1 10, key_at 2 20} [(1, 1), (2, 1)] 2, [])"
  "apply_record (depth_state {key_at 1 10, key_at 2 20} [(1, 1), (2, 1)] 2) (completion 1120 3 0 1 10)
     = (depth_state {key_at 2 20} [(1, 0), (2, 1)] 1, [])"
  "apply_record (depth_state {key_at 2 20} [(1, 0), (2, 1)] 1) (completion 1250 4 0 2 20)
     = (depth_state {} [(1, 0), (2, 0)] 0, [])"
  by (simp_all add: analysis_eval depth_state_def depth_init_def decrement_depth_def insort_insert_key_def
      insert_commute Let_def less_eq_queue_key_def)
    (simp add: word_le_nat_alt)

lemma depth_lines:
  "sample_lines t (depth_state ks [(1, n)] d) =
     [join_with tab [show_word t, ''global'', [], [], show_word d],
      join_with tab [show_word t, ''queue'', ''0'', ''1'', show_word n]]"
  "sample_lines t (depth_state ks [(1, n), (2, m)] d) =
     [join_with tab [show_word t, ''global'', [], [], show_word d],
      join_with tab [show_word t, ''queue'', ''0'', ''1'', show_word n],
      join_with tab [show_word t, ''queue'', ''0'', ''2'', show_word m]]"
  by (simp_all add: sample_lines_def global_line_def queue_line_def depth_state_def bt_get_or_def bt_get_def
      show_word_def)

lemma test_times:
  "h_timestamp_ns (record_header (plain_submit t n c q i l)) = t"
  "h_timestamp_ns (record_header (completion t n c q i)) = t"
  by (simp_all add: test_records)

lemma queue_depth_test_passes: "queue_depth_test"
proof -
  have add: "checked_add 0 (100 :: u64) = Some 100" "checked_add 100 (100 :: u64) = Some 200"
    "checked_add 200 (100 :: u64) = Some 300"
    by (simp_all add: checked_add_def)
  show ?thesis
    by (simp add: queue_depth_test_def run_queue_depth_test_def analyze_queue_depth_records_def Let_def
        apply_run_def emit_then_def saturating_sub_def test_times depth_steps emit_turn(1) emit_turn(3) [OF _ add(1)]
        emit_turn(3) [OF _ add(2)] emit_turn(3) [OF _ add(3)] depth_lines unwrap_run_def show_word_def depth_header_def)
qed

definition queue_depth_percent_test :: bool where
  "queue_depth_percent_test \<longleftrightarrow>
     run_queue_depth_percent_test
       [plain_submit 1000 1 0 1 10 100, plain_submit 1010 2 0 1 11 100,
        completion 1020 3 0 1 10, plain_submit 1030 4 0 1 12 100]
     = Ret (lines_bytes
         [join_with tab [''scope'', ''ctrl_id'', ''qid'', ''queue_depth'', ''count'', ''percent''],
          join_with tab [''global'', [], [], ''0'', ''1'', ''33.333333''],
          join_with tab [''global'', [], [], ''1'', ''2'', ''66.666667''],
          join_with tab [''queue'', ''0'', ''1'', ''0'', ''1'', ''33.333333''],
          join_with tab [''queue'', ''0'', ''1'', ''1'', ''2'', ''66.666667'']], [])"

lemma percent_lines:
  "f64_fixed 6 (percent_of 1 3) = ''33.333333''" "f64_fixed 6 (percent_of 2 3) = ''66.666667''"
  by (simp_all add: percent_of_def f64_eval)

lemma percent_steps:
  "run_steps (\<lambda>st r. Ret (percent_step st r)) percent_init
     [plain_submit 1000 1 0 1 10 100, plain_submit 1010 2 0 1 11 100,
      completion 1020 3 0 1 10, plain_submit 1030 4 0 1 12 100]
   = Ret (\<lparr>p_in_flight = {key_at 1 11, key_at 1 12}, p_global_depth = 2,
       p_queue_depths = [(QueueKey 0 1, 2)], p_global_distribution = [(0, 1), (1, 2)],
       p_queue_distributions = [(QueueKey 0 1, [(0, 1), (1, 2)])], p_global_samples = 3,
       p_queue_samples = [(QueueKey 0 1, 3)]\<rparr>, [])"
  by (simp add: analysis_eval percent_init_def decrement_depth_def Let_def insert_commute)

lemma queue_depth_percent_test_passes: "queue_depth_percent_test"
  unfolding queue_depth_percent_test_def run_queue_depth_percent_test_def
    analyze_queue_depth_percent_records_def percent_steps
  by (simp add: percent_header_def write_distribution_def distribution_line_def percent_lines
      bt_get_or_def bt_get_def show_word_def unwrap_run_def)

text \<open>\<open>str::contains\<close>.\<close>

fun contains :: "string \<Rightarrow> string \<Rightarrow> bool" where
  "contains pat [] = (pat = [])"
| "contains pat (c # cs) = (if starts_with pat (c # cs) then True else contains pat cs)"

text \<open>A pattern is found where the line has it.\<close>

lemma contains_here: "contains pat (pat @ t)"
proof (cases "pat @ t")
  case (Cons c cs)
  have "strip_prefix pat (pat @ t) = Some t" by (induction pat) auto
  then have "starts_with pat (c # cs)" by (simp add: starts_with_def flip: Cons)
  then show ?thesis by (simp add: Cons)
qed simp

lemma contains_later: "contains pat s \<Longrightarrow> contains pat (r @ s)"
  by (induction r) auto

definition tracking_warnings_test :: bool where
  "tracking_warnings_test \<longleftrightarrow>
     (case run_throughput_test
        [completion 1000 1 0 1 10, read_submit 1010 2 0 1 10 100,
         read_submit 1020 3 0 1 10 200, completion 1030 4 0 1 10] 100 of
        Ret (_, [w0, w1]) \<Rightarrow> contains ''completion without matching submit'' w0
          \<and> contains ''duplicate outstanding submit'' w1
      | _ \<Rightarrow> False)"

lemma tracking_warnings_test_passes: "tracking_warnings_test"
  unfolding tracking_warnings_test_def run_throughput_test_def analyze_throughput_records_def
  by (simp add: throughput_eval Let_def unmatched_completion_warning_def duplicate_submit_warning_def starts_with_def)

section \<open>The scale and the names of the captures\<close>

text \<open>
  \<open>parses\_scale\_with\_humantime\_units\<close>, of the duration parser \<open>pd\<close> of humantime. It holds of every
  parser that reads the six durations and refuses \<open>abc\<close> as humantime documents.
\<close>

definition scale_test :: "(string \<Rightarrow> 'h + nat) \<Rightarrow> bool" where
  "scale_test pd \<longleftrightarrow>
     parse_scale_ns pd ''1ns'' = Inr 1 \<and> parse_scale_ns pd ''1us'' = Inr 1000
     \<and> parse_scale_ns pd ''2ms'' = Inr 2000000 \<and> parse_scale_ns pd ''3s'' = Inr 3000000000
     \<and> isl (parse_scale_ns pd ''0ns'') \<and> isl (parse_scale_ns pd ''abc'')
     \<and> isl (parse_scale_ns pd ''18446744074s'')"

lemma scale_test_passes:
  assumes "pd ''1ns'' = Inr 1" and "pd ''1us'' = Inr 1000" and "pd ''2ms'' = Inr 2000000"
    and "pd ''3s'' = Inr 3000000000" and "pd ''0ns'' = Inr 0" and "isl (pd ''abc'')"
    and "pd ''18446744074s'' = Inr (18446744074 * 10 ^ 9)"
  shows "scale_test pd"
  using assms by (auto simp: scale_test_def parse_scale_ns_def split: sum.splits)

definition cpu_bin_test :: bool where
  "cpu_bin_test \<longleftrightarrow>
     parse_cpu_bin ''cpu0.bin'' = Some 0 \<and> parse_cpu_bin ''cpu42.bin'' = Some 42
     \<and> parse_cpu_bin ''cpu.bin'' = None \<and> parse_cpu_bin ''trace0'' = None
     \<and> parse_cpu_bin ''spliced.bin'' = None"

lemma cpu_bin_test_passes: "cpu_bin_test"
  by (simp add: cpu_bin_test_def parse_cpu_bin_def strip_suffix_def is_digit_def digit_val_def parse_uint_def)

end
