(* ===== verification/Print_Tests.thy ===== *)
theory Print_Tests
  imports Print Analysis_Tests Format_Tests
begin

text \<open>The unit tests of \<open>print.rs\<close> on the model: a test's line is evaluated, then searched.\<close>

section \<open>The record of the tests\<close>

definition test_sqe :: "u64 \<Rightarrow> u64 \<Rightarrow> byte list" where
  "test_sqe prp1 prp2 =
     (let sqe0 = (replicate SQE_LEN 0)[0 := 0x02];
          sqe1 = copy_from_slice 4 (to_le 4 (1 :: u32)) sqe0;
          sqe2 = copy_from_slice 24 (to_le 8 prp1) sqe1;
          sqe3 = copy_from_slice 32 (to_le 8 prp2) sqe2;
          sqe4 = copy_from_slice 40 (to_le 8 (8192 :: u64)) sqe3
      in copy_from_slice 48 (to_le 2 (7 :: u16)) sqe4)"

definition test_submit :: "submit_tail \<Rightarrow> u64 \<Rightarrow> u64 \<Rightarrow> submit_record" where
  "test_submit entries prp1 prp2 =
     \<lparr>s_header = \<lparr>h_magic = NVME_TRACE_MAGIC, h_version = NVME_TRACE_VERSION,
        h_record_type = NVME_TRACE_SUBMIT, h_len = 0, h_timestamp_ns = 100, h_seq = 7,
        h_ctrl_id = 0, h_qid = 1, h_cid = 2\<rparr>,
      s_sqe = test_sqe prp1 prp2, s_data_len = 4096, s_meta_len = 0,
      s_use_sgl = (case entries of Sgl _ \<Rightarrow> True | Prp _ \<Rightarrow> False), s_single_segment = False,
      s_nr_entries = of_nat (tail_len entries), s_tail = entries\<rparr>"

lemma hex_digit_eval [simp]:
  "digit_char 10 = CHR ''a''" "digit_char 11 = CHR ''b''" "digit_char 12 = CHR ''c''"
  "digit_char 13 = CHR ''d''" "digit_char 14 = CHR ''e''" "digit_char 15 = CHR ''f''"
  by code_simp+

lemma hex_digits_eval [simp]:
  "hex_digits 0 = ''0''" "hex_digits (Suc 0) = ''1''"
  "hex_digits (numeral n) =
     (if numeral n < (16 :: nat) then [digit_char (numeral n)]
      else hex_digits (numeral n div 16) @ [digit_char (numeral n mod 16)])"
  by (subst hex_digits.simps, simp)+

section \<open>The tests\<close>

definition tail_count_test :: bool where
  "tail_count_test \<longleftrightarrow> tail_len (Prp [1, 2, 3]) = 3 \<and> \<not> tail_is_empty (Prp [1, 2, 3])"

lemma tail_count_test_passes: "tail_count_test"
  by (simp add: tail_count_test_def tail_is_empty_def)

definition prp_line :: string where
  "prp_line = format_record ''cpu0.bin'' (Submit (test_submit (Prp [0x1000, 0x2000]) 0xfeed0000 0xbeef0000)) 64 512"

lemma test_fields:
  "slice (test_sqe p q) 4 8 = to_le 4 (1 :: u32)"
  "slice (test_sqe p q) 24 32 = to_le 8 p" "slice (test_sqe p q) 32 40 = to_le 8 q"
  "slice (test_sqe p q) 40 48 = to_le 8 (8192 :: u64)" "slice (test_sqe p q) 48 50 = to_le 2 (7 :: u16)"
  by (simp_all add: test_sqe_def SQE_LEN_def Let_def slice_copy del: replicate_eval)

lemma test_opcode: "test_sqe p q ! 0 = 2"
  by (simp add: test_sqe_def SQE_LEN_def Let_def nth_copy del: replicate_eval)

lemmas print_eval = test_submit_def format_submit_def submit_prps_def sqe_le_u16_def sqe_le_u32_def
  sqe_le_u64_def test_fields test_opcode show_word_def show_hex_def show_bool_def opcode_of_def
  is_read_or_write_def format_prp_tail_def prp_text_def ASSUMED_NVME_CTRL_PAGE_SIZE_def
  format_sgl_tail_def sgl_text_def

lemma prp_line_eval:
  "prp_line = ''cpu0.bin:64 submit ts=100 seq=7 ctrl=nvme0 qid=1 cid=2 '' @ ''opcode=read(0x02)'' @
     '' data_len=4096 meta_len=0 mode=prp single_segment=false '' @ ''tail_entries=2'' @ '' '' @ ''nsid=1'' @ '' '' @
     ''slba=8192'' @ '' '' @ ''nlb=8'' @ '' '' @ ''block_size=512'' @ '' '' @ ''byte_offset=4194304'' @ '' '' @
     ''sqe_data_bytes=4096'' @ '' '' @ ''mps=4096'' @ '' '' @ ''prp1=0x00000000feed0000'' @ '' '' @
     ''prp2=0x00000000beef0000'' @ '' '' @ ''tail=[0x0000000000001000,0x0000000000002000]'' @ []"
  by (simp add: prp_line_def print_eval numeral_2_eq_2 [symmetric])

definition prp_tail_test :: bool where
  "prp_tail_test \<longleftrightarrow>
     contains ''mps=4096'' prp_line
     \<and> contains ''opcode=read(0x02)'' prp_line
     \<and> contains ''nsid=1'' prp_line
     \<and> contains ''slba=8192'' prp_line
     \<and> contains ''nlb=8'' prp_line
     \<and> contains ''block_size=512'' prp_line
     \<and> contains ''byte_offset=4194304'' prp_line
     \<and> contains ''sqe_data_bytes=4096'' prp_line
     \<and> contains ''prp1=0x00000000feed0000'' prp_line
     \<and> contains ''prp2=0x00000000beef0000'' prp_line
     \<and> contains ''tail_entries=2'' prp_line
     \<and> contains ''tail=[0x0000000000001000,0x0000000000002000]'' prp_line"

lemma prp_tail_test_passes: "prp_tail_test"
  unfolding prp_tail_test_def prp_line_eval
  by (intro conjI; (rule contains_here | rule contains_later)+)

definition sgl_line :: string where
  "sgl_line = format_record ''cpu1.bin'' (Submit (test_submit (Sgl
     [\<lparr>sgl_addr = 0x3000, sgl_length = 512, sgl_reserved = [0xaa, 0xbb, 0xcc], sgl_desc_type = 0x11\<rparr>]) 0 0)) 128 4096"

lemma sgl_line_eval:
  "sgl_line = ''cpu1.bin:128 submit ts=100 seq=7 ctrl=nvme0 qid=1 cid=2 opcode=read(0x02) data_len=4096 meta_len=0 '' @
     ''mode=sgl'' @ '' single_segment=false tail_entries=1 nsid=1 slba=8192 nlb=8 '' @ ''block_size=4096'' @ '' '' @
     ''byte_offset=33554432'' @ '' '' @ ''sqe_data_bytes=32768'' @ '' '' @
     ''tail=[{addr=0x0000000000003000,len=512,type=0x11,reserved=aabbcc}]'' @ []"
  by (simp add: sgl_line_def print_eval)

definition sgl_tail_test :: bool where
  "sgl_tail_test \<longleftrightarrow>
     contains ''mode=sgl'' sgl_line
     \<and> contains ''block_size=4096'' sgl_line
     \<and> contains ''byte_offset=33554432'' sgl_line
     \<and> contains ''sqe_data_bytes=32768'' sgl_line
     \<and> contains ''tail=[{addr=0x0000000000003000,len=512,type=0x11,reserved=aabbcc}]'' sgl_line
     \<and> \<not> contains '' prp1='' sgl_line"

lemma sgl_line_no_prp: "\<not> contains '' prp1='' sgl_line"
  by (simp add: sgl_line_eval starts_with_def)

lemma sgl_tail_test_passes: "sgl_tail_test"
  unfolding sgl_tail_test_def
  by (intro conjI sgl_line_no_prp; unfold sgl_line_eval; (rule contains_here | rule contains_later)+)

end
