(* ===== verification/Spec2Isabelle.thy ===== *)
theory Spec2Isabelle
  imports Capture_Session Capture_Threads Capture_Splice Main_Command Repro_Client
    Format_Tests Analysis_Tests Print_Tests
begin

text \<open>
  A model of the Rust programs of gds-traces: \<open>nvme-trace\<close> (\<open>src/tracing/nvme-trace/src\<close>), which
  captures NVMe commands from ftrace, merges the captures of the CPUs, prints and analyses them, and
  the client of the relay reproducer (\<open>src/reproducer/relay-repro-client/src/main.rs\<close>). A function
  of the code is a HOL function of the same name where HOL allows it.

  \<^bold>\<open>Parts of the program and where they are modelled.\<close>
  \<^item> What all parts use: \<open>Trace_Prelude\<close> (machine integers, \<open>Result\<close> as a sum, panics as \<open>outcome\<close>,
    comparison, slices), \<open>Rust_Text\<close> (the standard library's text functions), \<open>Rust_Io\<close> (writers),
    \<open>Rust_F64\<close> (64-bit floats by correct rounding), \<open>Byte_Codec\<close> (little-endian codecs and the
    readers of the crate binrw), \<open>Ordered_Map\<close> (\<open>BTreeMap\<close>), \<open>Priority_Queue\<close> (\<open>BinaryHeap\<close>).
  \<^item> The trace format, \<open>lib.rs\<close>: \<open>Trace_Format\<close> has the structs and the parser of a record,
    \<open>Trace_Parse\<close> what it decides and \<open>Trace_Wire\<close> the encoding it inverts. \<open>Record_Reader\<close> is
    \<open>RecordReader\<close> over a scripted source, \<open>Record_Stream\<close> its refinement of the splitting of a byte
    string by the length fields.
  \<^item> The splicer, \<open>lib.rs\<close>: \<open>Record_Order\<close> (the comparison of records and of heap items), \<open>Splice\<close>
    (the merge), \<open>Splice_Merge\<close> and \<open>Splice_Correct\<close> (its invariant and its results).
  \<^item> The analyses, \<open>analyze.rs\<close>: \<open>Command_Tracker\<close> (commands in flight), \<open>Throughput\<close>, \<open>Queue_Depth\<close>
    and \<open>Depth_Percent\<close>, each a step on a state record, its loop and its report.
  \<^item> The printer, \<open>print.rs\<close>: \<open>Print\<close>.
  \<^item> The commands over files, \<open>main.rs\<close>, \<open>splice.rs\<close>, \<open>analyze.rs\<close>: \<open>Input_Paths\<close> (which files and in
    what order), \<open>Trace_Commands\<close> (\<open>splice\<close> and \<open>analyze\<close>), \<open>Main_Command\<close> (\<open>main\<close>).
  \<^item> The ftrace backend, \<open>ftrace.rs\<close>: \<open>Ftrace_Format\<close> (format files), \<open>Ftrace_Page\<close> (pages of the
    ring buffer and the encoders), \<open>Ftrace_Session\<close> (the control files).
  \<^item> The capture, \<open>capture.rs\<close>: \<open>Capture\<close> (a CPU's reader thread), \<open>Capture_Threads\<close> (the threads
    side by side), \<open>Capture_Session\<close> (the order of a capture), \<open>Capture_Splice\<close> (a capture and the
    splice of its files).
  \<^item> The reproducer's client: \<open>Repro_Client\<close>.
  \<^item> The repository's unit tests: \<open>Format_Tests\<close> (\<open>lib.rs\<close>), \<open>Analysis_Tests\<close> (\<open>analyze.rs\<close> and \<open>main.rs\<close>)
    and \<open>Print_Tests\<close> (\<open>print.rs\<close>). Each test is a boolean of the model's functions, proved true, so
    that the model is known to give the outputs the authors expect.

  \<^bold>\<open>How the parts meet.\<close> A reader thread turns pages into encoded records (\<open>parse_page\<close>), which the
  thread's file holds; \<open>splice\<close> reads the files with \<open>RecordReader\<close> and merges them on the heap by
  \<open>record_order\<close>; \<open>print\<close> and \<open>analyze\<close> read records the same way. The properties follow these
  seams: the files of a capture read back as the records of its pages, and the splice of a capture
  is the records of all CPUs in the order of their times.

  \<^bold>\<open>State and effects.\<close> A struct is a record and its methods take and return it. A source of bytes is
  the list of what its reads return, so that short reads, interruptions and errors are part of the
  input; a pipe that blocks (\<open>EAGAIN\<close>) and is read again later is one of these errors in the middle of
  the list. Output goes to a writer that may fail; \<open>vec_write\<close> is the one that does not. Files and
  directories are a record of functions. Errors are values: one datatype per group of functions,
  with a constructor per context of the code. Warnings and printed lines are lists.

  \<^bold>\<open>What the lemmas show.\<close> For the format: parsing inverts the encoding and decides by the layout.
  For the reader: it is the splitting of the bytes, whatever the reads. For the splicer: it writes
  every record once, sorted where the headers are coherent, and stops at the first fault. For the
  analyses: the state counts outstanding commands, the reports follow from the records, and they
  end. For the capture: pages packed by the layout give the records of their events, a thread writes
  exactly the pages its pipe has until it blocks after the stop, under any interleaving, all threads end,
  and the control files are written in a fixed order up to the first write that fails. For the printer: a line determines its record. For the client: every byte is accounted for.

  \<^bold>\<open>Interfaces.\<close> The heap, the map and the merge are used through locales, interpreted on the model's
  own heap and association list in the theories that define them.

  \<^bold>\<open>Loops and bounds.\<close> Loops over data are structural or have a measure. The sampling loop of the queue
  depths and the merge are partial functions, whose return is proved. The loop of a reader thread and
  that of the client end only at a stop or an error; they run on a list of what they observe, and
  \<open>None\<close> is a list that ends before. No fuel is used. Machine integers keep their width and wrap, as
  in a release build; \<open>usize\<close> is \<open>nat\<close> for lengths and offsets, which are those of buffers in memory.
  The products that \<open>print\<close> makes in \<open>u128\<close> are exact (\<open>print_products_exact\<close>).

  \<^bold>\<open>Hypotheses on other code.\<close> binrw's readers take little-endian integers (\<open>binrw_le\<close>); the duration
  parser of humantime, the file system and the kernel's answers are arguments without hypotheses,
  except where a property is about files of records or a working tracing directory, which it says.

  \<^bold>\<open>Not modelled.\<close> The kernel modules, the C programs, the Nix and Python files are not Rust. Of the
  Rust code: the argument parser (clap); the duration of the sleeps of \<open>capture\<close>; failing standard output of \<open>print\<close> and of the client, where \<open>println\<close> would panic; the
  clock and the CPU affinity of the client, which are arguments; the panic of a division by no CPUs in
  \<open>setup\<close>, which \<open>discover\_cpus\<close> rules out; and the overflow checks of debug builds. Paths are strings. A format file that is not UTF-8 is a read error.
\<close>

end
